theory Spec2Isabelle
  imports Main "HOL-Library.Sublist" "HOL-Library.AList" "HOL-Library.Char_ord"
    "HOL-Library.List_Lexorder"
begin

section \<open>Strings\<close>

text \<open>
  JavaScript strings are modelled as \<open>string\<close>: lists of 8-bit characters, read as the
  code units U+0000 to U+00FF. \<open>toLowerCase\<close> is \<^verbatim>\<open>String.prototype.toLowerCase\<close> on
  these code units: the letters A..Z and the letters U+00C0..U+00DE (all but the
  multiplication sign U+00D7) are moved up by 32, every other code unit is left as it is.
\<close>

definition toLowerChar :: "char \<Rightarrow> char" where
  "toLowerChar c =
     (if (65 \<le> (of_char c :: nat) \<and> (of_char c :: nat) \<le> 90) \<or>
         (192 \<le> (of_char c :: nat) \<and> (of_char c :: nat) \<le> 222 \<and> (of_char c :: nat) \<noteq> 215)
      then char_of ((of_char c :: nat) + 32) else c)"

definition toLowerCase :: "string \<Rightarrow> string" where
  "toLowerCase s = map toLowerChar s"

text \<open>\<^verbatim>\<open>s.includes(sub)\<close>: \<open>sub\<close> occurs in \<open>s\<close> as a contiguous substring.\<close>

fun includesStr :: "string \<Rightarrow> string \<Rightarrow> bool" where
  "includesStr [] sub = (sub = [])"
| "includesStr (c # cs) sub = (prefix sub (c # cs) \<or> includesStr cs sub)"

text \<open>\<^verbatim>\<open>parts.join(sep)\<close>.\<close>

fun join :: "string \<Rightarrow> string list \<Rightarrow> string" where
  "join sep [] = []"
| "join sep [x] = x"
| "join sep (x # y # ys) = x @ sep @ join sep (y # ys)"

text \<open>Truthiness of a possibly absent string: present and not empty.\<close>

fun truthy :: "string option \<Rightarrow> bool" where
  "truthy None = False"
| "truthy (Some s) = (s \<noteq> [])"

section \<open>Plain objects\<close>

text \<open>
  An object that the code creates with \<^verbatim>\<open>{}\<close> or with a spread, or that \<^verbatim>\<open>JSON.parse\<close>
  returns, is the association list of its own properties. Its prototype is
  \<^verbatim>\<open>Object.prototype\<close>, so a read under one of the names of \<open>protoNames\<close> that is no own
  property finds the inherited member: a function, or \<^verbatim>\<open>Object.prototype\<close> itself under
  \<^verbatim>\<open>__proto__\<close>. All of them are truthy.
\<close>

type_synonym 'v object = "(string \<times> 'v) list"

definition protoNames :: "string list" where
  "protoNames = [''constructor'', ''__defineGetter__'', ''__defineSetter__'',
     ''hasOwnProperty'', ''__lookupGetter__'', ''__lookupSetter__'', ''isPrototypeOf'',
     ''propertyIsEnumerable'', ''toString'', ''valueOf'', ''__proto__'', ''toLocaleString'']"

text \<open>The result of \<^verbatim>\<open>obj[k]\<close>.\<close>

datatype 'v slot = Undefined | Own 'v | Inherited string

definition getProp :: "'v object \<Rightarrow> string \<Rightarrow> 'v slot" where
  "getProp obj k =
     (case map_of obj k of
        Some v \<Rightarrow> Own v
      | None \<Rightarrow> if k \<in> set protoNames then Inherited k else Undefined)"

text \<open>
  \<^verbatim>\<open>obj[k] = v\<close>. Under \<^verbatim>\<open>__proto__\<close>, when the object has no own property of that name,
  the assignment runs the inherited setter, which adds no own property.
\<close>

definition setProp :: "string \<Rightarrow> 'v \<Rightarrow> 'v object \<Rightarrow> 'v object" where
  "setProp k v obj =
     (if k = ''__proto__'' \<and> map_of obj k = None then obj else AList.update k v obj)"

text \<open>\<^verbatim>\<open>delete obj[k]\<close> removes an own property.\<close>

definition deleteProp :: "string \<Rightarrow> 'v object \<Rightarrow> 'v object" where
  "deleteProp k obj = AList.delete k obj"

text \<open>
  The string that an inherited member becomes as a property key, in a template or in
  \<^verbatim>\<open>join\<close>, as Node prints it.
\<close>

definition protoText :: "string \<Rightarrow> string" where
  "protoText name =
     (if name = ''__proto__'' then ''[object Object]''
      else ''function '' @ (if name = ''constructor'' then ''Object'' else name) @
           ''() { [native code] }'')"

section \<open>Rules and the predicate evaluator (\<^verbatim>\<open>testRule\<close>)\<close>

datatype error = TypeError | SyntaxError | FolderNotFound | RequestFailed

text \<open>The argument of \<^verbatim>\<open>contains\<close> is a string or an array of strings.\<close>

datatype contains_arg = Scalar string | StrList "string list"

text \<open>
  A rule object of \<^verbatim>\<open>rules['rule-list']\<close>. A key that is absent from the object is
  \<open>None\<close> (for the selector flags and \<^verbatim>\<open>stop\<close>, which are only tested for truthiness,
  \<open>False\<close>).
\<close>

record rule =
  r_header :: "string option"
  r_from :: bool
  r_to :: bool
  r_subject :: bool
  r_body :: bool
  r_empty :: "bool option"
  r_not_empty :: "bool option"
  r_exact :: "string option"
  r_not_exact :: "string option"
  r_regex :: "string option"
  r_contains :: "contains_arg option"
  r_one_of :: "string list option"
  r_add_label :: "string option"
  r_remove_label :: "string option"
  r_stop :: bool

text \<open>A rule with no selector, no condition and no action.\<close>

definition blankRule :: rule where
  "blankRule = \<lparr> r_header = None, r_from = False, r_to = False, r_subject = False,
     r_body = False, r_empty = None, r_not_empty = None, r_exact = None,
     r_not_exact = None, r_regex = None, r_contains = None, r_one_of = None,
     r_add_label = None, r_remove_label = None, r_stop = False \<rparr>"

text \<open>
  Each block of \<^verbatim>\<open>testRule\<close> is one predicate that says whether the block executes
  \<^verbatim>\<open>return false\<close>.
\<close>

definition emptyFails :: "string \<Rightarrow> rule \<Rightarrow> bool" where
  "emptyFails textString rule =
     (case r_empty rule of None \<Rightarrow> False
      | Some e \<Rightarrow> (e \<and> textString \<noteq> []) \<or> (\<not> e \<and> textString = []))"

definition notEmptyFails :: "string \<Rightarrow> rule \<Rightarrow> bool" where
  "notEmptyFails textString rule =
     (case r_not_empty rule of None \<Rightarrow> False
      | Some e \<Rightarrow> (e \<and> textString = []) \<or> (\<not> e \<and> textString \<noteq> []))"

definition exactFails :: "string \<Rightarrow> rule \<Rightarrow> bool" where
  "exactFails textString rule =
     (case r_exact rule of None \<Rightarrow> False
      | Some x \<Rightarrow> textString \<noteq> toLowerCase x)"

definition notExactFails :: "string \<Rightarrow> rule \<Rightarrow> bool" where
  "notExactFails textString rule =
     (case r_not_exact rule of None \<Rightarrow> False
      | Some x \<Rightarrow> textString = toLowerCase x)"

definition containsFails :: "string \<Rightarrow> rule \<Rightarrow> bool" where
  "containsFails textString rule =
     (case r_contains rule of None \<Rightarrow> False
      | Some (StrList strs) \<Rightarrow>
          \<not> list_ex (\<lambda>str. includesStr textString (toLowerCase str)) strs
      | Some (Scalar str) \<Rightarrow> \<not> includesStr textString (toLowerCase str))"

definition oneOfFails :: "string \<Rightarrow> rule \<Rightarrow> bool" where
  "oneOfFails textString rule =
     (case r_one_of rule of None \<Rightarrow> False
      | Some strs \<Rightarrow> \<not> list_ex (\<lambda>str. includesStr textString (toLowerCase str)) strs)"

text \<open>
  \<^verbatim>\<open>new RegExp(rule.regex, 'i').test(textString)\<close> is the host's regular expression
  engine. It is a parameter \<open>rx\<close> of the model: \<open>rx pattern text\<close> is \<open>None\<close> when the
  constructor throws a SyntaxError, and otherwise the result of the test.
\<close>

definition testRule ::
  "(string \<Rightarrow> string \<Rightarrow> bool option) \<Rightarrow> string \<Rightarrow> rule \<Rightarrow> error + bool" where
  "testRule rx textString rule =
     (if emptyFails textString rule then Inr False
      else if notEmptyFails textString rule then Inr False
      else if exactFails textString rule then Inr False
      else if notExactFails textString rule then Inr False
      else case (case r_regex rule of None \<Rightarrow> Some True
                 | Some pattern \<Rightarrow> rx pattern textString) of
             None \<Rightarrow> Inl SyntaxError
           | Some False \<Rightarrow> Inr False
           | Some True \<Rightarrow>
               if containsFails textString rule then Inr False
               else if oneOfFails textString rule then Inr False
               else Inr True)"

text \<open>
  The earlier version of \<^verbatim>\<open>testRule\<close> (the first one of \<^verbatim>\<open>fastmailProc.js\<close>) differs in
  the \<^verbatim>\<open>contains\<close> block only: it has no \<^verbatim>\<open>Array.isArray\<close> branch and calls
  \<^verbatim>\<open>rule.contains.toLowerCase()\<close> on whatever the key holds, which throws a TypeError
  for an array.
\<close>

definition testRule_v1 ::
  "(string \<Rightarrow> string \<Rightarrow> bool option) \<Rightarrow> string \<Rightarrow> rule \<Rightarrow> error + bool" where
  "testRule_v1 rx textString rule =
     (if emptyFails textString rule then Inr False
      else if notEmptyFails textString rule then Inr False
      else if exactFails textString rule then Inr False
      else if notExactFails textString rule then Inr False
      else case (case r_regex rule of None \<Rightarrow> Some True
                 | Some pattern \<Rightarrow> rx pattern textString) of
             None \<Rightarrow> Inl SyntaxError
           | Some False \<Rightarrow> Inr False
           | Some True \<Rightarrow>
               (case r_contains rule of
                  Some (StrList strs) \<Rightarrow> Inl TypeError
                | _ \<Rightarrow>
                    if containsFails textString rule then Inr False
                    else if oneOfFails textString rule then Inr False
                    else Inr True))"

text \<open>
  A stand-in engine for concrete evaluation: it treats the pattern as a literal, which
  is what the host does for a pattern without metacharacters.
\<close>

definition literalRegex :: "string \<Rightarrow> string \<Rightarrow> bool option" where
  "literalRegex pattern text = Some (includesStr (toLowerCase text) (toLowerCase pattern))"

section \<open>The lock of the host server\<close>

text \<open>
  The module variables \<^verbatim>\<open>clientHasLock\<close> and \<^verbatim>\<open>lockTimestamp\<close> (null or the
  value of \<^verbatim>\<open>Date.now()\<close>, in milliseconds).
\<close>

record lock =
  clientHasLock :: bool
  lockTimestamp :: "int option"

definition LOCK_TIMEOUT_MS :: int where
  "LOCK_TIMEOUT_MS = 300000"

definition initialLock :: lock where
  "initialLock = \<lparr> clientHasLock = False, lockTimestamp = None \<rparr>"

text \<open>
  \<^verbatim>\<open>checkLockTimeout\<close>; \<open>now\<close> is the value of \<^verbatim>\<open>Date.now()\<close>. The test
  \<^verbatim>\<open>clientHasLock && lockTimestamp && ...\<close> needs a timestamp that is neither null
  nor 0.
\<close>

definition checkLockTimeout :: "int \<Rightarrow> lock \<Rightarrow> lock" where
  "checkLockTimeout now l =
     (case lockTimestamp l of
        None \<Rightarrow> l
      | Some ts \<Rightarrow>
          if clientHasLock l \<and> ts \<noteq> 0 \<and> now - ts > LOCK_TIMEOUT_MS
          then \<lparr> clientHasLock = False, lockTimestamp = None \<rparr>
          else l)"

text \<open>The state of the server: the lock and the files under \<^verbatim>\<open>rootDir\<close>.\<close>

record server =
  lockState :: lock
  files :: "(string \<times> string) list"

datatype reply =
    ErrorReply nat string
  | DataReply string bool
  | SavedReply bool
  | LockReply bool
  | ReleasedReply

definition validType :: "string option \<Rightarrow> bool" where
  "validType type = (truthy type \<and> type \<in> set [Some ''subjects'', Some ''exclusions''])"

text \<open>\<^verbatim>\<open>app.get('/api/data')\<close> with \<^verbatim>\<open>req.query.type\<close>.\<close>

definition getData :: "int \<Rightarrow> string option \<Rightarrow> server \<Rightarrow> server \<times> reply" where
  "getData now type s =
     (let s1 = s\<lparr> lockState := checkLockTimeout now (lockState s) \<rparr> in
      if \<not> validType type then (s1, ErrorReply 400 ''Invalid type parameter'')
      else
        (case map_of (files s1) (the type @ ''.txt'') of
           None \<Rightarrow> (s1, DataReply [] (clientHasLock (lockState s1)))
         | Some content \<Rightarrow> (s1, DataReply content (clientHasLock (lockState s1)))))"

text \<open>\<^verbatim>\<open>app.post('/api/data')\<close> with \<^verbatim>\<open>req.body.type\<close> and \<^verbatim>\<open>req.body.content\<close>.\<close>

definition postData ::
  "int \<Rightarrow> string option \<Rightarrow> string option \<Rightarrow> server \<Rightarrow> server \<times> reply" where
  "postData now type content s =
     (let s1 = s\<lparr> lockState := checkLockTimeout now (lockState s) \<rparr> in
      if \<not> validType type then (s1, ErrorReply 400 ''Invalid type parameter'')
      else
        (case content of
           None \<Rightarrow> (s1, ErrorReply 400 ''Missing content'')
         | Some c \<Rightarrow>
             (s1\<lparr> files := AList.update (the type @ ''.txt'') c (files s1),
                  lockState := \<lparr> clientHasLock = True, lockTimestamp = Some now \<rparr> \<rparr>,
              SavedReply True)))"

text \<open>\<^verbatim>\<open>app.post('/api/release-lock')\<close>.\<close>

definition releaseLock :: "server \<Rightarrow> server \<times> reply" where
  "releaseLock s =
     (s\<lparr> lockState := \<lparr> clientHasLock = False, lockTimestamp = None \<rparr> \<rparr>, ReleasedReply)"

text \<open>\<^verbatim>\<open>app.get('/api/lock-status')\<close>.\<close>

definition lockStatus :: "int \<Rightarrow> server \<Rightarrow> server \<times> reply" where
  "lockStatus now s =
     (let s1 = s\<lparr> lockState := checkLockTimeout now (lockState s) \<rparr> in
      (s1, LockReply (clientHasLock (lockState s1))))"

section \<open>Messages and the field composer (\<^verbatim>\<open>getTextString\<close>)\<close>

text \<open>
  A message of the \<^verbatim>\<open>Email/get\<close> response. A property that the code reads through
  \<^verbatim>\<open>?.\<close> or \<^verbatim>\<open>||\<close> may be absent (\<open>None\<close>). \<open>m_textBody\<close> is the list of the
  \<^verbatim>\<open>partId\<close>s of \<^verbatim>\<open>message.textBody\<close>; \<open>m_bodyValues\<close> maps a part id to the
  \<^verbatim>\<open>value\<close> of its body value, \<open>m_keywords\<close> and \<open>m_mailboxIds\<close> are the own
  properties of the two objects.
\<close>

record address =
  a_name :: "string option"
  a_email :: "string option"

record message =
  m_id :: string
  m_subject :: "string option"
  m_from :: "address list option"
  m_to :: "address list option"
  m_headers :: "(string \<times> string) list option"
  m_keywords :: "bool object"
  m_mailboxIds :: "bool object"
  m_textBody :: "string option list option"
  m_bodyValues :: "(string \<times> string) list option"

text \<open>\<^verbatim>\<open>x || ''\<close> for a possibly absent string.\<close>

fun orEmpty :: "string option \<Rightarrow> string" where
  "orEmpty None = []"
| "orEmpty (Some s) = s"

text \<open>
  \<^verbatim>\<open>message.headers?.find(h => h.name.toLowerCase() === rule.header.toLowerCase())?.value || ''\<close>
\<close>

definition headerValue :: "message \<Rightarrow> string \<Rightarrow> string" where
  "headerValue message h =
     (case m_headers message of
        None \<Rightarrow> []
      | Some hs \<Rightarrow>
          (case find (\<lambda>nv. toLowerCase (fst nv) = toLowerCase h) hs of
             None \<Rightarrow> []
           | Some nv \<Rightarrow> snd nv))"

text \<open>\<^verbatim>\<open>message.from?.[0]?.email || ''\<close>\<close>

definition fromValue :: "message \<Rightarrow> string" where
  "fromValue message =
     (case m_from message of
        None \<Rightarrow> []
      | Some [] \<Rightarrow> []
      | Some (a # _) \<Rightarrow> orEmpty (a_email a))"

text \<open>\<^verbatim>\<open>message.to?.map(t => t.email).join(' ') || ''\<close>\<close>

definition toValue :: "message \<Rightarrow> string" where
  "toValue message =
     (case m_to message of
        None \<Rightarrow> []
      | Some ts \<Rightarrow> join '' '' (map (\<lambda>t. orEmpty (a_email t)) ts))"

text \<open>\<^verbatim>\<open>message.subject || ''\<close>\<close>

definition subjectValue :: "message \<Rightarrow> string" where
  "subjectValue message = orEmpty (m_subject message)"

text \<open>
  \<^verbatim>\<open>message.bodyValues?.[key]?.value\<close>. No member that \<^verbatim>\<open>bodyValues\<close> inherits has a
  property \<^verbatim>\<open>value\<close>, so only an own property under the key gives a value.
\<close>

definition bodyValueAt :: "message \<Rightarrow> string \<Rightarrow> string option" where
  "bodyValueAt message key =
     (case m_bodyValues message of None \<Rightarrow> None | Some bv \<Rightarrow> map_of bv key)"

text \<open>\<^verbatim>\<open>message.textBody?.[0]?.partId\<close>\<close>

definition firstPartId :: "message \<Rightarrow> string option" where
  "firstPartId message =
     (case m_textBody message of None \<Rightarrow> None | Some [] \<Rightarrow> None | Some (p # _) \<Rightarrow> p)"

text \<open>
  The argument of \<^verbatim>\<open>parts.push\<close> for the body selector:
  \<^verbatim>\<open>message.bodyValues?.['body']?.value || message.textBody?.[0]?.partId
      ? message.bodyValues?.[message.textBody[0].partId]?.value || '' : ''\<close>.
  The conditional operator binds weaker than \<^verbatim>\<open>||\<close>, so the condition is
  \<^verbatim>\<open>(a || b)\<close>, and the true branch reads \<^verbatim>\<open>message.textBody[0].partId\<close> without
  \<^verbatim>\<open>?.\<close>: it throws a TypeError when \<^verbatim>\<open>textBody\<close> is absent or empty. A part without
  \<^verbatim>\<open>partId\<close> is looked up under the key \<^verbatim>\<open>undefined\<close>.
\<close>

definition bodyValue :: "message \<Rightarrow> error + string" where
  "bodyValue message =
     (if truthy (bodyValueAt message ''body'') \<or> truthy (firstPartId message)
      then
        (case m_textBody message of
           None \<Rightarrow> Inl TypeError
         | Some [] \<Rightarrow> Inl TypeError
         | Some (p # _) \<Rightarrow>
             Inr (orEmpty (bodyValueAt message
                    (case p of None \<Rightarrow> ''undefined'' | Some k \<Rightarrow> k))))
      else Inr [])"

text \<open>
  \<^verbatim>\<open>getTextString\<close>: the parts are pushed in the order of the five blocks, then joined
  and lowercased.
\<close>

definition getTextString :: "message \<Rightarrow> rule \<Rightarrow> error + string" where
  "getTextString message rule =
     (let parts0 = [];
          parts1 = (if truthy (r_header rule)
                    then parts0 @ [headerValue message (orEmpty (r_header rule))]
                    else parts0);
          parts2 = (if r_from rule then parts1 @ [fromValue message] else parts1);
          parts3 = (if r_to rule then parts2 @ [toValue message] else parts2);
          parts4 = (if r_subject rule then parts3 @ [subjectValue message] else parts3)
      in if r_body rule
         then (case bodyValue message of
                 Inl e \<Rightarrow> Inl e
               | Inr b \<Rightarrow> Inr (toLowerCase (join ''|'' (parts4 @ [b]))))
         else Inr (toLowerCase (join ''|'' parts4)))"

section \<open>The ledger files (\<^verbatim>\<open>subjects.txt\<close> and \<^verbatim>\<open>exclusions.txt\<close>)\<close>

subsection \<open>Lines, headers and entry lines\<close>

text \<open>\<^verbatim>\<open>content.split('\n')\<close>\<close>

fun splitLines :: "string \<Rightarrow> string list" where
  "splitLines [] = [[]]"
| "splitLines (c # cs) =
     (if c = CHR 0x0A then [] # splitLines cs
      else (case splitLines cs of [] \<Rightarrow> [[c]] | l # ls \<Rightarrow> (c # l) # ls))"

text \<open>
  The class \<^verbatim>\<open>\s\<close> and the characters removed by \<^verbatim>\<open>trim()\<close> among the code units up
  to U+00FF: tab, line feed, vertical tab, form feed, carriage return, space and the
  no-break space U+00A0.
\<close>

definition isSpace :: "char \<Rightarrow> bool" where
  "isSpace c =
     (c \<in> set [CHR 0x09, CHR 0x0A, CHR 0x0B, CHR 0x0C, CHR 0x0D, CHR 0x20, CHR 0xA0])"

text \<open>\<^verbatim>\<open>line.trim()\<close> as a condition: the trimmed line is not empty.\<close>

definition nonBlank :: "string \<Rightarrow> bool" where
  "nonBlank line = list_ex (\<lambda>c. \<not> isSpace c) line"

definition marker :: string where
  "marker = ''=======''"

text \<open>
  \<^verbatim>\<open>line.match(/^=======.*=======$/)\<close>: the line starts and ends with the marker, the
  two markers do not overlap, and \<^verbatim>\<open>.\<close> matches no line terminator.
\<close>

definition isHeader :: "string \<Rightarrow> bool" where
  "isHeader line =
     (prefix marker line \<and> suffix marker line \<and> 14 \<le> length line \<and>
      \<not> list_ex (\<lambda>c. c = CHR 0x0A \<or> c = CHR 0x0D) line)"

text \<open>\<^verbatim>\<open>s.replace(/^=======\s*/, '')\<close>\<close>

definition stripHead :: "string \<Rightarrow> string" where
  "stripHead s = (if prefix marker s then dropWhile isSpace (drop 7 s) else s)"

text \<open>
  \<^verbatim>\<open>s.replace(/\s*=======\s*$/, '')\<close>: \<open>tailMatches t\<close> says that the pattern matches
  the whole of \<open>t\<close>; the replacement cuts the string at the leftmost position from
  which the rest matches, and leaves it alone when there is none.
\<close>

definition tailMatches :: "string \<Rightarrow> bool" where
  "tailMatches t =
     (let t1 = dropWhile isSpace t
      in prefix marker t1 \<and> list_all isSpace (drop 7 t1))"

fun stripTail :: "string \<Rightarrow> string" where
  "stripTail [] = []"
| "stripTail (c # cs) = (if tailMatches (c # cs) then [] else c # stripTail cs)"

text \<open>The label name of a header line.\<close>

definition labelOf :: "string \<Rightarrow> string" where
  "labelOf line = stripTail (stripHead line)"

definition sep :: string where
  "sep = '' | ''"

text \<open>\<^verbatim>\<open>line.split(' | ')[0]\<close>\<close>

fun firstField :: "string \<Rightarrow> string" where
  "firstField [] = []"
| "firstField (c # cs) = (if prefix sep (c # cs) then [] else c # firstField cs)"

text \<open>\<^verbatim>\<open>set.add(x)\<close> on a Set, kept as the list of its elements in insertion order.\<close>

definition setAdd :: "string \<Rightarrow> string list \<Rightarrow> string list" where
  "setAdd x xs = (if x \<in> set xs then xs else xs @ [x])"

subsection \<open>Loading \<^verbatim>\<open>subjects.txt\<close>\<close>

text \<open>
  \<^verbatim>\<open>subjectsByLabel\<close> (label to Set of from names) and \<^verbatim>\<open>subjectLinesByLabel\<close>
  (label to array of subject lines), two plain objects.
\<close>

record tracked =
  subjectsByLabel :: "string list object"
  subjectLinesByLabel :: "string list object"

definition noTracked :: tracked where
  "noTracked = \<lparr> subjectsByLabel = [], subjectLinesByLabel = [] \<rparr>"

text \<open>
  \<^verbatim>\<open>if (!subjectsByLabel[label]) { subjectsByLabel[label] = new Set(); subjectLinesByLabel[label] = []; }\<close>
  A Set is truthy, and so is an inherited member: the two properties are created only
  when the read gives \<^verbatim>\<open>undefined\<close>.
\<close>

definition ensureLabel :: "string \<Rightarrow> tracked \<Rightarrow> tracked" where
  "ensureLabel label t =
     (case getProp (subjectsByLabel t) label of
        Undefined \<Rightarrow>
          t\<lparr> subjectsByLabel := setProp label [] (subjectsByLabel t),
             subjectLinesByLabel := setProp label [] (subjectLinesByLabel t) \<rparr>
      | Own names \<Rightarrow> t
      | Inherited name \<Rightarrow> t)"

text \<open>
  \<^verbatim>\<open>subjectsByLabel[currentLabel].add(fromName)\<close>: only a Set, the value of an own
  property, has the method; on an inherited member and on \<^verbatim>\<open>undefined\<close> the call throws
  a TypeError.
\<close>

definition addName :: "string \<Rightarrow> string \<Rightarrow> tracked \<Rightarrow> error + tracked" where
  "addName label fromName t =
     (case getProp (subjectsByLabel t) label of
        Own names \<Rightarrow>
          Inr (t\<lparr> subjectsByLabel :=
                    AList.map_entry label (setAdd fromName) (subjectsByLabel t) \<rparr>)
      | Undefined \<Rightarrow> Inl TypeError
      | Inherited name \<Rightarrow> Inl TypeError)"

text \<open>
  The loop over the lines of the existing file; \<open>currentLabel\<close> is \<open>None\<close> for null.
  An entry line is only counted under a label that is truthy (set and not empty).
\<close>

fun loadLines :: "string list \<Rightarrow> string option \<Rightarrow> tracked \<Rightarrow> error + tracked" where
  "loadLines [] currentLabel t = Inr t"
| "loadLines (line # lines) currentLabel t =
     (if isHeader line
      then loadLines lines (Some (labelOf line)) (ensureLabel (labelOf line) t)
      else if nonBlank line \<and> truthy currentLabel \<and> includesStr line sep
      then (case addName (orEmpty currentLabel) (firstField line) t of
              Inl e \<Rightarrow> Inl e
            | Inr t1 \<Rightarrow> loadLines lines currentLabel t1)
      else loadLines lines currentLabel t)"

text \<open>A file is \<open>None\<close> when \<^verbatim>\<open>existsSync\<close> is false.\<close>

definition loadSubjects :: "bool \<Rightarrow> string option \<Rightarrow> error + tracked" where
  "loadSubjects SAVE_SUBJECTS subjectsFile =
     (if SAVE_SUBJECTS
      then (case subjectsFile of
              None \<Rightarrow> Inr noTracked
            | Some existingContent \<Rightarrow> loadLines (splitLines existingContent) None noTracked)
      else Inr noTracked)"

subsection \<open>Recording a candidate\<close>

text \<open>\<^verbatim>\<open>message.from?.[0]?.name || message.from?.[0]?.email || 'Unknown'\<close>\<close>

definition fromNameOf :: "message \<Rightarrow> string" where
  "fromNameOf message =
     (case m_from message of
        None \<Rightarrow> ''Unknown''
      | Some [] \<Rightarrow> ''Unknown''
      | Some (a # _) \<Rightarrow>
          if truthy (a_name a) then orEmpty (a_name a)
          else if truthy (a_email a) then orEmpty (a_email a)
          else ''Unknown'')"

text \<open>The subject line \<^verbatim>\<open>`${fromName} | ${message.subject} | ${message.id}`\<close>.\<close>

definition subjectLineOf :: "string \<Rightarrow> string \<Rightarrow> string \<Rightarrow> string" where
  "subjectLineOf fromName subject ident = fromName @ sep @ subject @ sep @ ident"

text \<open>
  The body of \<^verbatim>\<open>if (SAVE_SUBJECTS && message.subject)\<close> after \<^verbatim>\<open>fromName\<close> is known.
  \<^verbatim>\<open>has\<close>, \<^verbatim>\<open>add\<close> and \<^verbatim>\<open>push\<close> throw a TypeError on anything but the Set and the array
  of an own property.
\<close>

definition trackSubject ::
  "string \<Rightarrow> string \<Rightarrow> string \<Rightarrow> string \<Rightarrow> tracked \<Rightarrow> error + tracked" where
  "trackSubject labelName fromName subject ident t =
     (let t1 = ensureLabel labelName t
      in case getProp (subjectsByLabel t1) labelName of
           Own names \<Rightarrow>
             if fromName \<in> set names then Inr t1
             else
               (case getProp (subjectLinesByLabel t1) labelName of
                  Own ls \<Rightarrow>
                    Inr (t1\<lparr> subjectsByLabel :=
                               AList.map_entry labelName (\<lambda>names. names @ [fromName])
                                 (subjectsByLabel t1),
                             subjectLinesByLabel :=
                               AList.map_entry labelName
                                 (\<lambda>ls. ls @ [subjectLineOf fromName subject ident])
                                 (subjectLinesByLabel t1) \<rparr>)
                | Undefined \<Rightarrow> Inl TypeError
                | Inherited name \<Rightarrow> Inl TypeError)
         | Undefined \<Rightarrow> Inl TypeError
         | Inherited name \<Rightarrow> Inl TypeError)"

subsection \<open>Rewriting \<^verbatim>\<open>subjects.txt\<close>\<close>

text \<open>
  The from names of the entry lines of one file, in file order (the loop that fills
  \<^verbatim>\<open>existingFromNames\<close>).
\<close>

definition isEntry :: "string \<Rightarrow> bool" where
  "isEntry line = (nonBlank line \<and> includesStr line sep \<and> \<not> isHeader line)"

definition contentFromNames :: "string \<Rightarrow> string list" where
  "contentFromNames content = map firstField (filter isEntry (splitLines content))"

text \<open>
  The loop that fills \<^verbatim>\<open>subjectMap\<close>, a plain object, with the lines of \<^verbatim>\<open>subjects.txt\<close>
  under one label: \<^verbatim>\<open>if (!subjectMap[fromName]) subjectMap[fromName] = line\<close>. The first
  line of a from name wins, and no line is stored under a name whose read finds an
  inherited member.
\<close>

fun existingLines :: "string list \<Rightarrow> string \<Rightarrow> bool \<Rightarrow> string object \<Rightarrow> string object" where
  "existingLines [] label inCurrentLabel subjectMap = subjectMap"
| "existingLines (line # lines) label inCurrentLabel subjectMap =
     (if isHeader line
      then existingLines lines label (labelOf line = label) subjectMap
      else if inCurrentLabel \<and> nonBlank line \<and> includesStr line sep
      then existingLines lines label inCurrentLabel
             (case getProp subjectMap (firstField line) of
                Undefined \<Rightarrow> setProp (firstField line) line subjectMap
              | Own v \<Rightarrow>
                  if v = [] then setProp (firstField line) line subjectMap else subjectMap
              | Inherited name \<Rightarrow> subjectMap)
      else existingLines lines label inCurrentLabel subjectMap)"

text \<open>
  The loop over \<^verbatim>\<open>subjectLinesByLabel[label]\<close>: a line of this run is taken only if
  its from name is in neither file and was not taken before.
\<close>

fun addNew :: "string list \<Rightarrow> string object \<times> string list \<Rightarrow> string object \<times> string list" where
  "addNew [] (subjectMap, existingFromNames) = (subjectMap, existingFromNames)"
| "addNew (subjectLine # ls) (subjectMap, existingFromNames) =
     (if firstField subjectLine \<notin> set existingFromNames
      then addNew ls (setProp (firstField subjectLine) subjectLine subjectMap,
                      setAdd (firstField subjectLine) existingFromNames)
      else addNew ls (subjectMap, existingFromNames))"

text \<open>
  One element of \<^verbatim>\<open>fromNames.map(fromName => subjectMap[fromName]).filter(Boolean)\<close>, as
  \<^verbatim>\<open>join\<close> prints it: \<open>None\<close> when the filter drops it.
\<close>

definition subjectOf :: "string object \<Rightarrow> string \<Rightarrow> string option" where
  "subjectOf subjectMap fromName =
     (case getProp subjectMap fromName of
        Undefined \<Rightarrow> None
      | Own v \<Rightarrow> if v = [] then None else Some v
      | Inherited name \<Rightarrow> Some (protoText name))"

text \<open>\<^verbatim>\<open>`======= ${label} =======\n${allSubjects.join('\n')}`\<close>\<close>

definition headerLine :: "string \<Rightarrow> string" where
  "headerLine label = marker @ '' '' @ label @ '' '' @ marker"

definition renderSection :: "string \<Rightarrow> string list \<Rightarrow> string" where
  "renderSection label allSubjects =
     headerLine label @ [CHR 0x0A] @ join [CHR 0x0A] allSubjects"

text \<open>
  \<^verbatim>\<open>a.toLowerCase().localeCompare(b.toLowerCase())\<close> is the host's collation. The model
  takes it as a parameter \<open>collate\<close> that maps a string to its sort key; the stable
  \<^verbatim>\<open>sort\<close> of the array orders the names by the keys of their lowercased forms.
\<close>

definition sortFromNames :: "(string \<Rightarrow> string) \<Rightarrow> string list \<Rightarrow> string list" where
  "sortFromNames collate names = sort_key (\<lambda>n. collate (toLowerCase n)) names"

text \<open>
  The loop over \<^verbatim>\<open>allLabels\<close>, the own keys of \<^verbatim>\<open>subjectsByLabel\<close>; it returns the
  strings pushed onto \<^verbatim>\<open>sections\<close>. \<open>existingFromNames\<close> is carried from one label to the
  next. \<^verbatim>\<open>for (const subjectLine of subjectLinesByLabel[label])\<close> runs when the read is
  truthy, and throws a TypeError on an inherited member, which is not iterable.
\<close>

fun buildSections ::
  "(string \<Rightarrow> string) \<Rightarrow> string \<Rightarrow> tracked \<Rightarrow> string list \<Rightarrow> string list \<Rightarrow>
   error + string list" where
  "buildSections collate subjectsContent t [] existingFromNames = Inr []"
| "buildSections collate subjectsContent t (label # labels) existingFromNames =
     (let fromNames = sortFromNames collate (the (map_of (subjectsByLabel t) label))
      in if fromNames \<noteq> []
         then
           (let subjectMap0 = existingLines (splitLines subjectsContent) label False []
            in case (case getProp (subjectLinesByLabel t) label of
                       Undefined \<Rightarrow> Inr []
                     | Own ls \<Rightarrow> Inr ls
                     | Inherited name \<Rightarrow> Inl TypeError) of
                 Inl e \<Rightarrow> Inl e
               | Inr newLines \<Rightarrow>
                   (let (subjectMap, existing1) =
                          addNew newLines (subjectMap0, existingFromNames);
                        allSubjects = List.map_filter (subjectOf subjectMap) fromNames
                    in case buildSections collate subjectsContent t labels existing1 of
                         Inl e \<Rightarrow> Inl e
                       | Inr rest \<Rightarrow> Inr (renderSection label allSubjects # rest)))
         else buildSections collate subjectsContent t labels existingFromNames)"

text \<open>
  The block \<^verbatim>\<open>if (SAVE_SUBJECTS && Object.keys(subjectsByLabel).length > 0)\<close>. The
  result is the new content of \<^verbatim>\<open>subjects.txt\<close>, or \<open>None\<close> when the file is not
  written. \<^verbatim>\<open>Object.keys(subjectsByLabel).sort()\<close> orders the labels by code units.
\<close>

definition saveSubjects ::
  "(string \<Rightarrow> string) \<Rightarrow> bool \<Rightarrow> string option \<Rightarrow> string option \<Rightarrow> tracked \<Rightarrow>
   error + string option" where
  "saveSubjects collate SAVE_SUBJECTS subjectsFile exclusionsFile t =
     (if SAVE_SUBJECTS \<and> subjectsByLabel t \<noteq> []
      then
        (let subjectsContent = orEmpty subjectsFile;
             exclusionsContent = orEmpty exclusionsFile;
             existingFromNames =
               fold setAdd
                 (contentFromNames subjectsContent @ contentFromNames exclusionsContent) [];
             allLabels = sort (map fst (subjectsByLabel t))
         in case buildSections collate subjectsContent t allLabels existingFromNames of
              Inl e \<Rightarrow> Inl e
            | Inr sections \<Rightarrow>
                if sections \<noteq> []
                then Inr (Some (join [CHR 0x0A, CHR 0x0A] sections @ [CHR 0x0A]))
                else Inr None)
      else Inr None)"

text \<open>
  The ledger part of a run on its own: load \<^verbatim>\<open>subjects.txt\<close>, record the candidates
  of the run in their order, rewrite the file. A candidate is one execution of the
  block guarded by \<^verbatim>\<open>SAVE_SUBJECTS && message.subject\<close>: the label of the rule, the
  from name, the subject and the id of the message. An exception ends the run before
  the file is written.
\<close>

record candidate =
  c_label :: string
  c_fromName :: string
  c_subject :: string
  c_id :: string

definition trackCandidate :: "candidate \<Rightarrow> tracked \<Rightarrow> error + tracked" where
  "trackCandidate c t = trackSubject (c_label c) (c_fromName c) (c_subject c) (c_id c) t"

fun trackAll :: "candidate list \<Rightarrow> tracked \<Rightarrow> error + tracked" where
  "trackAll [] t = Inr t"
| "trackAll (c # cs) t =
     (case trackCandidate c t of Inl e \<Rightarrow> Inl e | Inr t1 \<Rightarrow> trackAll cs t1)"

definition mergeAndPersist ::
  "(string \<Rightarrow> string) \<Rightarrow> string option \<Rightarrow> string option \<Rightarrow> candidate list \<Rightarrow>
   error + string option" where
  "mergeAndPersist collate subjectsFile exclusionsFile candidates =
     (case loadSubjects True subjectsFile of
        Inl e \<Rightarrow> Inl e
      | Inr t0 \<Rightarrow>
          (case trackAll candidates t0 of
             Inl e \<Rightarrow> Inl e
           | Inr t \<Rightarrow> saveSubjects collate True subjectsFile exclusionsFile t))"

text \<open>The file as it is after the run: rewritten, or left as it was.\<close>

definition fileAfter :: "string option \<Rightarrow> error + string option \<Rightarrow> string option" where
  "fileAfter previous result =
     (case result of Inl e \<Rightarrow> previous | Inr None \<Rightarrow> previous | Inr (Some c) \<Rightarrow> Some c)"

section \<open>The rule engine (\<^verbatim>\<open>processMessages\<close>)\<close>

record mailbox =
  mb_id :: string
  mb_name :: string

text \<open>The configuration: the two constants of the module and the parsed rules file.\<close>

record config =
  SAVE_SUBJECTS :: bool
  PROCESS_LABELS :: bool
  scan_folder :: string
  rule_list :: "rule list"

text \<open>The value stored in \<^verbatim>\<open>updates[message.id]\<close>: two plain objects.\<close>

record message_updates =
  mu_mailboxIds :: "bool object"
  mu_keywords :: "bool object"

text \<open>
  The variables of the two loops: those of the run, and \<^verbatim>\<open>messageUpdates\<close> and
  \<^verbatim>\<open>messageModified\<close> of the message at hand. The counters \<^verbatim>\<open>labelsAdded\<close> and
  \<^verbatim>\<open>labelsRemoved\<close> are only printed to the console, which is not part of the model.
\<close>

record state =
  updates :: "message_updates object"
  stopProcessing :: bool
  ledger :: tracked
  messageUpdates :: message_updates
  messageModified :: bool

definition initialState :: "tracked \<Rightarrow> state" where
  "initialState t = \<lparr> updates = [], stopProcessing = False, ledger = t,
     messageUpdates = \<lparr> mu_mailboxIds = [], mu_keywords = [] \<rparr>, messageModified = False \<rparr>"

text \<open>
  \<^verbatim>\<open>mailboxes.forEach(mb => { mailboxNameToId[mb.name] = mb.id;
     mailboxNameToId[mb.name.toLowerCase()] = mb.id; })\<close>
\<close>

definition buildMailboxNameToId :: "mailbox list \<Rightarrow> string object" where
  "buildMailboxNameToId mailboxes =
     fold (\<lambda>mb m. setProp (toLowerCase (mb_name mb)) (mb_id mb)
                     (setProp (mb_name mb) (mb_id mb) m))
       mailboxes []"

text \<open>
  \<^verbatim>\<open>const mailboxId = mailboxNameToId[labelName]\<close>: whether the value is truthy, and the
  property key that it is when it indexes \<^verbatim>\<open>messageUpdates.mailboxIds\<close>.
\<close>

fun truthyId :: "string slot \<Rightarrow> bool" where
  "truthyId Undefined = False"
| "truthyId (Own v) = (v \<noteq> [])"
| "truthyId (Inherited name) = True"

fun keyOf :: "string slot \<Rightarrow> string" where
  "keyOf Undefined = ''undefined''"
| "keyOf (Own v) = v"
| "keyOf (Inherited name) = protoText name"

text \<open>Truthiness of \<^verbatim>\<open>messageUpdates.keywords[key]\<close>.\<close>

fun truthyFlag :: "bool slot \<Rightarrow> bool" where
  "truthyFlag Undefined = False"
| "truthyFlag (Own b) = b"
| "truthyFlag (Inherited name) = True"

text \<open>
  The block \<^verbatim>\<open>if (rule['add-label'])\<close>. An exception of the ledger calls leaves the
  block with \<open>Inl\<close>.
\<close>

definition addLabel ::
  "config \<Rightarrow> string object \<Rightarrow> message \<Rightarrow> rule \<Rightarrow> state \<Rightarrow> error + state" where
  "addLabel cfg mailboxNameToId message rule s =
     (if truthy (r_add_label rule)
      then
        (let labelName = orEmpty (r_add_label rule);
             mailboxId = getProp mailboxNameToId labelName
         in if truthyId mailboxId
            then
              (let s1 = (if PROCESS_LABELS cfg
                         then s\<lparr> messageUpdates := (messageUpdates s)
                                   \<lparr> mu_mailboxIds := setProp (keyOf mailboxId) True
                                        (mu_mailboxIds (messageUpdates s)) \<rparr>,
                                 messageModified := True \<rparr>
                         else s)
               in if SAVE_SUBJECTS cfg \<and> truthy (m_subject message)
                  then
                    (case trackSubject labelName (fromNameOf message)
                            (orEmpty (m_subject message)) (m_id message) (ledger s1) of
                       Inl e \<Rightarrow> Inl e
                     | Inr t \<Rightarrow> Inr (s1\<lparr> ledger := t \<rparr>))
                  else Inr s1)
            else Inr s)
      else Inr s)"

text \<open>The block \<^verbatim>\<open>if (rule['remove-label'])\<close>.\<close>

definition removeKeyword :: "config \<Rightarrow> string \<Rightarrow> state \<Rightarrow> state" where
  "removeKeyword cfg key s =
     (if PROCESS_LABELS cfg \<and> truthyFlag (getProp (mu_keywords (messageUpdates s)) key)
      then s\<lparr> messageUpdates := (messageUpdates s)
                \<lparr> mu_keywords := deleteProp key (mu_keywords (messageUpdates s)) \<rparr>,
              messageModified := True \<rparr>
      else s)"

definition removeLabel :: "config \<Rightarrow> string object \<Rightarrow> rule \<Rightarrow> state \<Rightarrow> state" where
  "removeLabel cfg mailboxNameToId rule s =
     (if truthy (r_remove_label rule)
      then
        (let labelName = orEmpty (r_remove_label rule);
             mailboxId = getProp mailboxNameToId labelName;
             s1 = (if truthyId mailboxId \<and> PROCESS_LABELS cfg
                   then s\<lparr> messageUpdates := (messageUpdates s)
                             \<lparr> mu_mailboxIds := deleteProp (keyOf mailboxId)
                                  (mu_mailboxIds (messageUpdates s)) \<rparr>,
                           messageModified := True \<rparr>
                   else s)
         in removeKeyword cfg (toLowerCase labelName) (removeKeyword cfg labelName s1))
      else s)"

text \<open>The actions of a rule that matched, before its \<^verbatim>\<open>stop\<close> is looked at.\<close>

definition applyRule ::
  "config \<Rightarrow> string object \<Rightarrow> message \<Rightarrow> rule \<Rightarrow> state \<Rightarrow> error + state" where
  "applyRule cfg mailboxNameToId message rule s =
     (case addLabel cfg mailboxNameToId message rule s of
        Inl e \<Rightarrow> Inl e
      | Inr s1 \<Rightarrow> Inr (removeLabel cfg mailboxNameToId rule s1))"

text \<open>
  The inner loop \<^verbatim>\<open>for (const rule of rules['rule-list'])\<close>. An exception of
  \<^verbatim>\<open>getTextString\<close>, of \<^verbatim>\<open>testRule\<close> or of the actions leaves the loop with \<open>Inl\<close>; a
  matching rule with \<^verbatim>\<open>stop\<close> sets \<^verbatim>\<open>stopProcessing\<close> and breaks.
\<close>

fun ruleLoop ::
  "(string \<Rightarrow> string \<Rightarrow> bool option) \<Rightarrow> config \<Rightarrow> string object \<Rightarrow> message \<Rightarrow>
   rule list \<Rightarrow> state \<Rightarrow> error + state" where
  "ruleLoop rx cfg mailboxNameToId message [] s = Inr s"
| "ruleLoop rx cfg mailboxNameToId message (rule # rs) s =
     (case getTextString message rule of
        Inl e \<Rightarrow> Inl e
      | Inr textString \<Rightarrow>
          (case testRule rx textString rule of
             Inl e \<Rightarrow> Inl e
           | Inr False \<Rightarrow> ruleLoop rx cfg mailboxNameToId message rs s
           | Inr True \<Rightarrow>
               (case applyRule cfg mailboxNameToId message rule s of
                  Inl e \<Rightarrow> Inl e
                | Inr s1 \<Rightarrow>
                    if r_stop rule then Inr (s1\<lparr> stopProcessing := True \<rparr>)
                    else ruleLoop rx cfg mailboxNameToId message rs s1)))"

text \<open>
  The start and the end of one iteration of the outer loop. The spread
  \<^verbatim>\<open>{ ...message.mailboxIds }\<close> copies the own properties.
\<close>

definition startMessage :: "message \<Rightarrow> state \<Rightarrow> state" where
  "startMessage message s =
     s\<lparr> messageUpdates := \<lparr> mu_mailboxIds = m_mailboxIds message,
                            mu_keywords = m_keywords message \<rparr>,
        messageModified := False \<rparr>"

definition finishMessage :: "message \<Rightarrow> state \<Rightarrow> state" where
  "finishMessage message s =
     (if messageModified s
      then s\<lparr> updates := setProp (m_id message) (messageUpdates s) (updates s) \<rparr>
      else s)"

text \<open>
  The outer loop \<^verbatim>\<open>for (const message of messages)\<close>, which breaks as soon as
  \<^verbatim>\<open>stopProcessing\<close> is set.
\<close>

fun messageLoop ::
  "(string \<Rightarrow> string \<Rightarrow> bool option) \<Rightarrow> config \<Rightarrow> string object \<Rightarrow>
   message list \<Rightarrow> state \<Rightarrow> error + state" where
  "messageLoop rx cfg mailboxNameToId [] s = Inr s"
| "messageLoop rx cfg mailboxNameToId (message # messages) s =
     (if stopProcessing s then Inr s
      else
        (case ruleLoop rx cfg mailboxNameToId message (rule_list cfg)
                (startMessage message s) of
           Inl e \<Rightarrow> Inl e
         | Inr s1 \<Rightarrow>
             messageLoop rx cfg mailboxNameToId messages (finishMessage message s1)))"

text \<open>
  What a run does to the outside: how it ends (\<open>None\<close> for a normal return), the
  \<^verbatim>\<open>update\<close> argument of the \<^verbatim>\<open>Email/set\<close> request if the request is sent, and the
  new content of \<^verbatim>\<open>subjects.txt\<close> if the file is written.
\<close>

record outcome =
  failure :: "error option"
  emailSet :: "message_updates object option"
  subjectsWritten :: "string option"

text \<open>
  The part of \<^verbatim>\<open>processMessages\<close> after the loop over the messages: the batched
  \<^verbatim>\<open>Email/set\<close> request, sent when \<^verbatim>\<open>updates\<close> has an own key, then the rewrite of
  \<^verbatim>\<open>subjects.txt\<close>. \<open>setOk\<close> says whether the request succeeds.
\<close>

definition finishRun ::
  "(string \<Rightarrow> string) \<Rightarrow> config \<Rightarrow> string option \<Rightarrow> string option \<Rightarrow> bool \<Rightarrow> state \<Rightarrow>
   outcome" where
  "finishRun collate cfg subjectsFile exclusionsFile setOk s =
     (if updates s \<noteq> [] \<and> \<not> setOk
      then \<lparr> failure = Some RequestFailed, emailSet = Some (updates s),
             subjectsWritten = None \<rparr>
      else
        (case saveSubjects collate (SAVE_SUBJECTS cfg) subjectsFile exclusionsFile
                (ledger s) of
           Inl e \<Rightarrow>
             \<lparr> failure = Some e,
               emailSet = (if updates s \<noteq> [] then Some (updates s) else None),
               subjectsWritten = None \<rparr>
         | Inr written \<Rightarrow>
             \<lparr> failure = None,
               emailSet = (if updates s \<noteq> [] then Some (updates s) else None),
               subjectsWritten = written \<rparr>))"

text \<open>
  \<^verbatim>\<open>processMessages\<close>. The answers of the mail store are inputs: \<open>mailboxes\<close> is the
  mailbox list after the required folders have been created, \<open>emailIds\<close> the answer
  to \<^verbatim>\<open>Email/query\<close> and \<open>messages\<close> the answer to \<^verbatim>\<open>Email/get\<close>. An exception ends
  the run at once.
\<close>

definition processMessages ::
  "(string \<Rightarrow> string \<Rightarrow> bool option) \<Rightarrow> (string \<Rightarrow> string) \<Rightarrow> config \<Rightarrow>
   string option \<Rightarrow> string option \<Rightarrow> mailbox list \<Rightarrow> string list \<Rightarrow> message list \<Rightarrow>
   bool \<Rightarrow> outcome" where
  "processMessages rx collate cfg subjectsFile exclusionsFile mailboxes emailIds
       messages setOk =
     (case loadSubjects (SAVE_SUBJECTS cfg) subjectsFile of
        Inl e \<Rightarrow> \<lparr> failure = Some e, emailSet = None, subjectsWritten = None \<rparr>
      | Inr t0 \<Rightarrow>
          (let mailboxNameToId = buildMailboxNameToId mailboxes
           in case find (\<lambda>mb. toLowerCase (mb_name mb) = toLowerCase (scan_folder cfg))
                     mailboxes of
                None \<Rightarrow> \<lparr> failure = Some FolderNotFound, emailSet = None,
                           subjectsWritten = None \<rparr>
              | Some scanMailbox \<Rightarrow>
                  if emailIds = []
                  then \<lparr> failure = None, emailSet = None, subjectsWritten = None \<rparr>
                  else
                    (case messageLoop rx cfg mailboxNameToId messages (initialState t0) of
                       Inl e \<Rightarrow> \<lparr> failure = Some e, emailSet = None,
                                  subjectsWritten = None \<rparr>
                     | Inr s \<Rightarrow> finishRun collate cfg subjectsFile exclusionsFile setOk s)))"

text \<open>Two states of the server used to evaluate the handlers.\<close>

definition idleServer :: server where
  "idleServer = \<lparr> lockState = initialLock, files = [] \<rparr>"

definition heldServer :: server where
  "heldServer = \<lparr> lockState = \<lparr> clientHasLock = True, lockTimestamp = Some 1 \<rparr>, files = [] \<rparr>"

section \<open>Example data\<close>

text \<open>Rules, messages, mailboxes and configurations used to evaluate the model.\<close>

definition receiptsRule :: rule where
  "receiptsRule = blankRule\<lparr> r_subject := True, r_contains := Some (Scalar ''invoice''),
     r_add_label := Some ''Receipts'' \<rparr>"

definition urgentStopRule :: rule where
  "urgentStopRule = blankRule\<lparr> r_subject := True, r_contains := Some (Scalar ''urgent''),
     r_stop := True \<rparr>"

definition plainMessage :: "string \<Rightarrow> string \<Rightarrow> string \<Rightarrow> message" where
  "plainMessage ident sender subject =
     \<lparr> m_id = ident, m_subject = Some subject,
       m_from = Some [\<lparr> a_name = Some sender, a_email = None \<rparr>], m_to = None,
       m_headers = None, m_keywords = [], m_mailboxIds = [(''inbox-id'', True)],
       m_textBody = None, m_bodyValues = None \<rparr>"

definition urgentMessage :: message where
  "urgentMessage = plainMessage ''E1'' ''Boss'' ''Urgent: call me''"

definition invoiceMessage :: message where
  "invoiceMessage = plainMessage ''E2'' ''Shop'' ''Invoice #123 due''"

definition someMailboxes :: "mailbox list" where
  "someMailboxes = [\<lparr> mb_id = ''inbox-id'', mb_name = ''Inbox'' \<rparr>,
                    \<lparr> mb_id = ''M1'', mb_name = ''Receipts'' \<rparr>]"

text \<open>The constants as the module sets them, and the variant that applies labels.\<close>

definition recordingConfig :: config where
  "recordingConfig = \<lparr> SAVE_SUBJECTS = True, PROCESS_LABELS = False, scan_folder = ''inbox'',
     rule_list = [urgentStopRule, receiptsRule] \<rparr>"

definition labellingConfig :: config where
  "labellingConfig = recordingConfig\<lparr> PROCESS_LABELS := True \<rparr>"

text \<open>A message object that has a body value under the key \<^verbatim>\<open>body\<close> and no \<^verbatim>\<open>textBody\<close>.\<close>

definition bodyOnlyMessage :: message where
  "bodyOnlyMessage =
     \<lparr> m_id = ''E1'', m_subject = Some ''Hi'', m_from = None, m_to = None, m_headers = None,
       m_keywords = [], m_mailboxIds = [], m_textBody = None,
       m_bodyValues = Some [(''body'', ''Hello'')] \<rparr>"

section \<open>The ledger on dictionaries\<close>

text \<open>
  A second form of the ledger functions, used in the proofs: the same loops, with every
  object read as a plain dictionary, so that a key has a value only if it was stored and
  no call throws. The lemmas of the section on the two forms relate it to the functions
  above: they agree wherever no label and no from name is one of \<open>protoNames\<close>.
\<close>

definition dictEnsureLabel :: "string \<Rightarrow> tracked \<Rightarrow> tracked" where
  "dictEnsureLabel label t =
     (if map_of (subjectsByLabel t) label = None
      then t\<lparr> subjectsByLabel := AList.update label [] (subjectsByLabel t),
              subjectLinesByLabel := AList.update label [] (subjectLinesByLabel t) \<rparr>
      else t)"

fun dictLoadLines :: "string list \<Rightarrow> string option \<Rightarrow> tracked \<Rightarrow> tracked" where
  "dictLoadLines [] currentLabel t = t"
| "dictLoadLines (line # lines) currentLabel t =
     (if isHeader line
      then dictLoadLines lines (Some (labelOf line)) (dictEnsureLabel (labelOf line) t)
      else if nonBlank line \<and> truthy currentLabel \<and> includesStr line sep
      then dictLoadLines lines currentLabel
             (t\<lparr> subjectsByLabel :=
                  AList.map_entry (orEmpty currentLabel) (setAdd (firstField line))
                    (subjectsByLabel t) \<rparr>)
      else dictLoadLines lines currentLabel t)"

definition dictLoadSubjects :: "bool \<Rightarrow> string option \<Rightarrow> tracked" where
  "dictLoadSubjects save subjectsFile =
     (if save
      then (case subjectsFile of
              None \<Rightarrow> noTracked
            | Some existingContent \<Rightarrow> dictLoadLines (splitLines existingContent) None noTracked)
      else noTracked)"

definition dictTrackSubject :: "string \<Rightarrow> string \<Rightarrow> string \<Rightarrow> string \<Rightarrow> tracked \<Rightarrow> tracked" where
  "dictTrackSubject labelName fromName subject ident t =
     (let t1 = dictEnsureLabel labelName t
      in if fromName \<in> set (the (map_of (subjectsByLabel t1) labelName))
         then t1
         else t1\<lparr> subjectsByLabel :=
                     AList.map_entry labelName (\<lambda>names. names @ [fromName])
                       (subjectsByLabel t1),
                   subjectLinesByLabel :=
                     AList.map_entry labelName
                       (\<lambda>ls. ls @ [subjectLineOf fromName subject ident])
                       (subjectLinesByLabel t1) \<rparr>)"

fun dictExistingLines ::
  "string list \<Rightarrow> string \<Rightarrow> bool \<Rightarrow> (string \<times> string) list \<Rightarrow> (string \<times> string) list" where
  "dictExistingLines [] label inCurrentLabel subjectMap = subjectMap"
| "dictExistingLines (line # lines) label inCurrentLabel subjectMap =
     (if isHeader line
      then dictExistingLines lines label (labelOf line = label) subjectMap
      else if inCurrentLabel \<and> nonBlank line \<and> includesStr line sep
      then dictExistingLines lines label inCurrentLabel
             (if map_of subjectMap (firstField line) = None
              then AList.update (firstField line) line subjectMap
              else subjectMap)
      else dictExistingLines lines label inCurrentLabel subjectMap)"

fun dictAddNew ::
  "string list \<Rightarrow> (string \<times> string) list \<times> string list \<Rightarrow>
   (string \<times> string) list \<times> string list" where
  "dictAddNew [] (subjectMap, existingFromNames) = (subjectMap, existingFromNames)"
| "dictAddNew (subjectLine # ls) (subjectMap, existingFromNames) =
     (if firstField subjectLine \<notin> set existingFromNames
      then dictAddNew ls (AList.update (firstField subjectLine) subjectLine subjectMap,
                      setAdd (firstField subjectLine) existingFromNames)
      else dictAddNew ls (subjectMap, existingFromNames))"

fun dictBuildSections ::
  "(string \<Rightarrow> string) \<Rightarrow> string \<Rightarrow> tracked \<Rightarrow> string list \<Rightarrow> string list \<Rightarrow> string list" where
  "dictBuildSections collate subjectsContent t [] existingFromNames = []"
| "dictBuildSections collate subjectsContent t (label # labels) existingFromNames =
     (let fromNames = sortFromNames collate (the (map_of (subjectsByLabel t) label))
      in if fromNames \<noteq> []
         then
           (let subjectMap0 = dictExistingLines (splitLines subjectsContent) label False [];
                (subjectMap, existing1) =
                   dictAddNew (case map_of (subjectLinesByLabel t) label of
                             None \<Rightarrow> [] | Some ls \<Rightarrow> ls)
                     (subjectMap0, existingFromNames);
                allSubjects =
                   filter (\<lambda>l. l \<noteq> []) (List.map_filter (map_of subjectMap) fromNames)
            in renderSection label allSubjects #
                 dictBuildSections collate subjectsContent t labels existing1)
         else dictBuildSections collate subjectsContent t labels existingFromNames)"

definition dictSaveSubjects ::
  "(string \<Rightarrow> string) \<Rightarrow> bool \<Rightarrow> string option \<Rightarrow> string option \<Rightarrow> tracked \<Rightarrow> string option" where
  "dictSaveSubjects collate save subjectsFile exclusionsFile t =
     (if save \<and> subjectsByLabel t \<noteq> []
      then
        (let subjectsContent = orEmpty subjectsFile;
             exclusionsContent = orEmpty exclusionsFile;
             existingFromNames =
               fold setAdd
                 (contentFromNames subjectsContent @ contentFromNames exclusionsContent) [];
             allLabels = sort (map fst (subjectsByLabel t));
             sections = dictBuildSections collate subjectsContent t allLabels existingFromNames
         in if sections \<noteq> []
            then Some (join [CHR 0x0A, CHR 0x0A] sections @ [CHR 0x0A])
            else None)
      else None)"

definition dictTrackCandidate :: "candidate \<Rightarrow> tracked \<Rightarrow> tracked" where
  "dictTrackCandidate c t = dictTrackSubject (c_label c) (c_fromName c) (c_subject c) (c_id c) t"

definition dictMerge ::
  "(string \<Rightarrow> string) \<Rightarrow> string option \<Rightarrow> string option \<Rightarrow> candidate list \<Rightarrow> string option" where
  "dictMerge collate subjectsFile exclusionsFile candidates =
     dictSaveSubjects collate True subjectsFile exclusionsFile
       (fold dictTrackCandidate candidates (dictLoadSubjects True subjectsFile))"

definition dictFileAfter :: "string option \<Rightarrow> string option \<Rightarrow> string option" where
  "dictFileAfter previous written = (case written of None \<Rightarrow> previous | Some c \<Rightarrow> Some c)"

section \<open>Notions used to state and prove the ledger properties\<close>

text \<open>The entry lines of a file, as the loop that fills \<^verbatim>\<open>existingFromNames\<close> sees them.\<close>

definition entryLines :: "string \<Rightarrow> string list" where
  "entryLines content = filter isEntry (splitLines content)"

text \<open>
  The entry lines of a file, each with the label of the last header line above it
  (\<open>None\<close> above the first header line).
\<close>

fun labelled :: "string list \<Rightarrow> string option \<Rightarrow> (string option \<times> string) list" where
  "labelled [] cur = []"
| "labelled (line # lines) cur =
     (if isHeader line then labelled lines (Some (labelOf line))
      else if nonBlank line \<and> includesStr line sep then (cur, line) # labelled lines cur
      else labelled lines cur)"

text \<open>A file in which no entry line stands above the first header or below a header with an empty label.\<close>

definition noOrphans :: "string option \<Rightarrow> bool" where
  "noOrphans file =
     list_all (\<lambda>p. truthy (fst p)) (labelled (splitLines (orEmpty file)) None)"

text \<open>A string without line break.\<close>

definition singleLine :: "string \<Rightarrow> bool" where
  "singleLine s = (CHR 0x0A \<notin> set s \<and> CHR 0x0D \<notin> set s)"

text \<open>A candidate whose four fields are single lines.\<close>

definition singleLineCandidate :: "candidate \<Rightarrow> bool" where
  "singleLineCandidate c =
     (singleLine (c_label c) \<and> singleLine (c_fromName c) \<and> singleLine (c_subject c) \<and>
      singleLine (c_id c))"

text \<open>A label that a header line gives back: not empty, no white space at either end.\<close>

definition plainLabel :: "string \<Rightarrow> bool" where
  "plainLabel l = (l \<noteq> [] \<and> \<not> isSpace (hd l) \<and> \<not> isSpace (last l) \<and> singleLine l)"

text \<open>
  A candidate of single-line fields with a plain label, a from name without the
  character of the field separator, and a subject line that is not of the form of a
  header line.
\<close>

definition plainCandidate :: "candidate \<Rightarrow> bool" where
  "plainCandidate c =
     (singleLineCandidate c \<and> plainLabel (c_label c) \<and> CHR ''|'' \<notin> set (c_fromName c) \<and>
      \<not> isHeader (subjectLineOf (c_fromName c) (c_subject c) (c_id c)))"

text \<open>The lines of one label and the names known after it, as one step of \<open>dictBuildSections\<close> computes them.\<close>

definition labelStep ::
  "string \<Rightarrow> tracked \<Rightarrow> string \<Rightarrow> string list \<Rightarrow> (string \<times> string) list \<times> string list" where
  "labelStep subjectsContent t label existingFromNames =
     dictAddNew (case map_of (subjectLinesByLabel t) label of None \<Rightarrow> [] | Some ls \<Rightarrow> ls)
       (dictExistingLines (splitLines subjectsContent) label False [], existingFromNames)"

definition labelSubjects ::
  "(string \<Rightarrow> string) \<Rightarrow> string \<Rightarrow> tracked \<Rightarrow> string \<Rightarrow> string list \<Rightarrow> string list" where
  "labelSubjects collate subjectsContent t label existingFromNames =
     filter (\<lambda>l. l \<noteq> [])
       (List.map_filter (map_of (fst (labelStep subjectsContent t label existingFromNames)))
          (sortFromNames collate (the (map_of (subjectsByLabel t) label))))"

text \<open>The sections of \<open>dictBuildSections\<close> before they are rendered.\<close>

fun sectionsOf ::
  "(string \<Rightarrow> string) \<Rightarrow> string \<Rightarrow> tracked \<Rightarrow> string list \<Rightarrow> string list \<Rightarrow>
   (string \<times> string list) list" where
  "sectionsOf collate subjectsContent t [] existingFromNames = []"
| "sectionsOf collate subjectsContent t (label # labels) existingFromNames =
     (if the (map_of (subjectsByLabel t) label) \<noteq> []
      then (label, labelSubjects collate subjectsContent t label existingFromNames) #
             sectionsOf collate subjectsContent t labels
               (snd (labelStep subjectsContent t label existingFromNames))
      else sectionsOf collate subjectsContent t labels existingFromNames)"

text \<open>The lines of the file that is written for a list of sections.\<close>

definition sectionLines :: "string \<times> string list \<Rightarrow> string list" where
  "sectionLines s = headerLine (fst s) # (if snd s = [] then [[]] else snd s) @ [[]]"

definition fileLines :: "(string \<times> string list) list \<Rightarrow> string list" where
  "fileLines secs = concat (map sectionLines secs)"

definition renderFile :: "(string \<times> string list) list \<Rightarrow> string" where
  "renderFile secs =
     join [CHR 0x0A, CHR 0x0A] (map (\<lambda>s. renderSection (fst s) (snd s)) secs) @ [CHR 0x0A]"

text \<open>The names known before the labels are processed, and the sections of a whole rewrite.\<close>

definition existingFromNames0 :: "string option \<Rightarrow> string option \<Rightarrow> string list" where
  "existingFromNames0 subjectsFile exclusionsFile =
     fold setAdd (contentFromNames (orEmpty subjectsFile) @
                  contentFromNames (orEmpty exclusionsFile)) []"

definition mergedSections ::
  "(string \<Rightarrow> string) \<Rightarrow> string option \<Rightarrow> string option \<Rightarrow> tracked \<Rightarrow>
   (string \<times> string list) list" where
  "mergedSections collate subjectsFile exclusionsFile t =
     sectionsOf collate (orEmpty subjectsFile) t (sort (map fst (subjectsByLabel t)))
       (existingFromNames0 subjectsFile exclusionsFile)"

text \<open>
  The entry lines under one label, and an association list from the from name of each
  line to the line; \<open>dictExistingLines\<close> finds the first line of each from name.
\<close>

definition under :: "string \<Rightarrow> (string option \<times> string) list \<Rightarrow> (string option \<times> string) list" where
  "under label ps = filter (\<lambda>p. fst p = Some label) ps"

definition keyed :: "(string option \<times> string) list \<Rightarrow> (string \<times> string) list" where
  "keyed ps = map (\<lambda>p. (firstField (snd p), snd p)) ps"


text \<open>
  What holds of the recorded names and lines at every point of a run with single-line
  candidates: the labels are distinct single lines, the names of a label are distinct,
  and every subject line is one line that contains the field separator.
\<close>

definition trackedWf :: "tracked \<Rightarrow> bool" where
  "trackedWf t =
     (distinct (map fst (subjectsByLabel t)) \<and>
      (\<forall>label ns. map_of (subjectsByLabel t) label = Some ns \<longrightarrow> distinct ns) \<and>
      (\<forall>label\<in>fst ` set (subjectsByLabel t). singleLine label) \<and>
      (\<forall>label ls. map_of (subjectLinesByLabel t) label = Some ls \<longrightarrow>
         (\<forall>l\<in>set ls. CHR 0x0A \<notin> set l \<and> includesStr l sep)))"

text \<open>
  What holds of the recorded names and lines at every point of a run with plain
  candidates: both objects have the same labels; a label is empty or plain, and no name
  is recorded under the empty label; every subject line is an entry line whose from name
  is recorded under its label.
\<close>

definition trackedPlain :: "tracked \<Rightarrow> bool" where
  "trackedPlain t =
     (fst ` set (subjectLinesByLabel t) = fst ` set (subjectsByLabel t) \<and>
      (\<forall>label\<in>fst ` set (subjectsByLabel t). label = [] \<or> plainLabel label) \<and>
      (\<forall>ns. map_of (subjectsByLabel t) [] = Some ns \<longrightarrow> ns = []) \<and>
      (\<forall>label ls l. map_of (subjectLinesByLabel t) label = Some ls \<longrightarrow> l \<in> set ls \<longrightarrow>
         isEntry l \<and> (\<exists>ns. map_of (subjectsByLabel t) label = Some ns \<and> firstField l \<in> set ns)))"

text \<open>The subject line of a candidate.\<close>

definition lineOf :: "candidate \<Rightarrow> string" where
  "lineOf c = subjectLineOf (c_fromName c) (c_subject c) (c_id c)"

text \<open>The from names of all lines of a list of sections.\<close>

definition sectionNames :: "(string \<times> string list) list \<Rightarrow> string list" where
  "sectionNames secs = concat (map (\<lambda>s. map firstField (snd s)) secs)"

text \<open>Ledger files and candidates used to evaluate the merge.\<close>

definition twiceListed :: string where
  "twiceListed =
     ''======= A =======\<newline>X | s | 1\<newline>\<newline>======= B =======\<newline>X | t | 2\<newline>''"

definition keptLedger :: string where
  "keptLedger = ''======= Receipts =======\<newline>Shop | Invoice #1 | E0\<newline>''"

definition excludedLedger :: string where
  "excludedLedger = ''======= Receipts =======\<newline>Spam Inc | Offer | E9\<newline>''"

definition orphanLedger :: string where
  "orphanLedger = ''Shop | Invoice #1 | E0\<newline>======= Updates =======\<newline>News | Weekly | E3\<newline>''"

definition someCandidates :: "candidate list" where
  "someCandidates =
     [\<lparr> c_label = ''Receipts'', c_fromName = ''Shop'', c_subject = ''Invoice #2'', c_id = ''E5'' \<rparr>,
      \<lparr> c_label = ''Receipts'', c_fromName = ''Spam Inc'', c_subject = ''Deal'', c_id = ''E6'' \<rparr>,
      \<lparr> c_label = ''Updates'', c_fromName = ''News'', c_subject = ''Weekly'', c_id = ''E7'' \<rparr>,
      \<lparr> c_label = ''Receipts'', c_fromName = ''News'', c_subject = ''Bill'', c_id = ''E8'' \<rparr>]"

section \<open>Notions used to relate the two forms of the ledger\<close>

text \<open>The own properties of an object whose keys are not in \<open>protoNames\<close>.\<close>

definition noProto :: "'v object \<Rightarrow> 'v object" where
  "noProto obj = filter (\<lambda>p. fst p \<notin> set protoNames) obj"

text \<open>
  The state of a run that did not throw, against the state of the same run on
  dictionaries: the second has the properties of the first, and may have an empty set
  and an empty array under a label of \<open>protoNames\<close>.
\<close>

definition simTracked :: "tracked \<Rightarrow> tracked \<Rightarrow> bool" where
  "simTracked tf td =
     (subjectsByLabel tf = noProto (subjectsByLabel td) \<and>
      subjectLinesByLabel tf = noProto (subjectLinesByLabel td) \<and>
      (\<forall>k ns. k \<in> set protoNames \<longrightarrow> map_of (subjectsByLabel td) k = Some ns \<longrightarrow> ns = []))"

text \<open>
  \<^verbatim>\<open>subjectMap\<close> against the dictionary of the same loop: they agree on the keys outside
  \<open>protoNames\<close>, and an own property of the object is an entry of the dictionary.
\<close>

definition objRel :: "string object \<Rightarrow> (string \<times> string) list \<Rightarrow> bool" where
  "objRel smF smD =
     ((\<forall>k. k \<notin> set protoNames \<longrightarrow> map_of smF k = map_of smD k) \<and>
      (\<forall>k v. map_of smF k = Some v \<longrightarrow> map_of smD k = Some v))"

text \<open>The lines of one label and the sections, as \<open>buildSections\<close> computes them.\<close>

definition labelStepF ::
  "string \<Rightarrow> tracked \<Rightarrow> string \<Rightarrow> string list \<Rightarrow> string object \<times> string list" where
  "labelStepF subjectsContent t label existingFromNames =
     addNew (case getProp (subjectLinesByLabel t) label of
               Undefined \<Rightarrow> [] | Own ls \<Rightarrow> ls | Inherited name \<Rightarrow> [])
       (existingLines (splitLines subjectsContent) label False [], existingFromNames)"

definition labelSubjectsF ::
  "(string \<Rightarrow> string) \<Rightarrow> string \<Rightarrow> tracked \<Rightarrow> string \<Rightarrow> string list \<Rightarrow> string list" where
  "labelSubjectsF collate subjectsContent t label existingFromNames =
     List.map_filter (subjectOf (fst (labelStepF subjectsContent t label existingFromNames)))
       (sortFromNames collate (the (map_of (subjectsByLabel t) label)))"

fun sectionsF ::
  "(string \<Rightarrow> string) \<Rightarrow> string \<Rightarrow> tracked \<Rightarrow> string list \<Rightarrow> string list \<Rightarrow>
   (string \<times> string list) list" where
  "sectionsF collate subjectsContent t [] existingFromNames = []"
| "sectionsF collate subjectsContent t (label # labels) existingFromNames =
     (if the (map_of (subjectsByLabel t) label) \<noteq> []
      then (label, labelSubjectsF collate subjectsContent t label existingFromNames) #
             sectionsF collate subjectsContent t labels
               (snd (labelStepF subjectsContent t label existingFromNames))
      else sectionsF collate subjectsContent t labels existingFromNames)"

text \<open>
  A section of the rewrite against the section of the rewrite on dictionaries: the
  same label, and the entry lines of the first are among those of the second, in
  their order; any other line of the first is the text of an inherited member.
\<close>

definition sectionRel :: "string \<times> string list \<Rightarrow> string \<times> string list \<Rightarrow> bool" where
  "sectionRel f d =
     (fst f = fst d \<and> subseq (filter isEntry (snd f)) (filter isEntry (snd d)) \<and>
      (\<forall>l\<in>set (snd f). l \<in> set (snd d) \<or> l \<in> protoText ` set protoNames))"

text \<open>
  A file and a candidate in which no label and no from name is one of \<open>protoNames\<close>,
  and a state of a run on them.
\<close>

definition protoFreeFile :: "string option \<Rightarrow> bool" where
  "protoFreeFile file =
     list_all (\<lambda>l. (isHeader l \<longrightarrow> labelOf l \<notin> set protoNames) \<and>
                    (isEntry l \<longrightarrow> firstField l \<notin> set protoNames))
       (splitLines (orEmpty file))"

definition safeCandidate :: "candidate \<Rightarrow> bool" where
  "safeCandidate c =
     (plainCandidate c \<and> c_label c \<notin> set protoNames \<and> c_fromName c \<notin> set protoNames)"

definition safeTracked :: "tracked \<Rightarrow> bool" where
  "safeTracked t =
     list_all (\<lambda>p. fst p \<notin> set protoNames \<and> list_all (\<lambda>n. n \<notin> set protoNames) (snd p))
       (subjectsByLabel t)"

section \<open>Properties of the predicate evaluator\<close>

lemma toLowerChar_idem [simp]: "toLowerChar (toLowerChar c) = toLowerChar c"
proof (cases "(65 \<le> (of_char c :: nat) \<and> (of_char c :: nat) \<le> 90) \<or>
              (192 \<le> (of_char c :: nat) \<and> (of_char c :: nat) \<le> 222 \<and> (of_char c :: nat) \<noteq> 215)")
  case False
  then have "toLowerChar c = c" by (simp only: toLowerChar_def if_False)
  then show ?thesis by simp
next
  case True
  then have 1: "toLowerChar c = char_of ((of_char c :: nat) + 32)"
    by (simp only: toLowerChar_def if_True)
  from True have 2: "(of_char (char_of ((of_char c :: nat) + 32) :: char) :: nat) = of_char c + 32"
    by (simp only: of_char_of) auto
  from True have "\<not> ((65 \<le> (of_char c :: nat) + 32 \<and> (of_char c :: nat) + 32 \<le> 90) \<or>
              (192 \<le> (of_char c :: nat) + 32 \<and> (of_char c :: nat) + 32 \<le> 222 \<and>
               (of_char c :: nat) + 32 \<noteq> 215))"
    by arith
  then have "toLowerChar (char_of ((of_char c :: nat) + 32)) = char_of ((of_char c :: nat) + 32)"
    by (simp only: toLowerChar_def 2 if_False)
  then show ?thesis by (simp only: 1)
qed

lemma toLowerCase_idem [simp]: "toLowerCase (toLowerCase s) = toLowerCase s"
  by (simp add: toLowerCase_def)

lemma getTextString_lowercase:
  "getTextString message rule = Inr textString \<Longrightarrow> toLowerCase textString = textString"
  by (auto simp: getTextString_def Let_def split: if_splits sum.splits)

lemma fails_without_exact [simp]:
  "emptyFails t (rule\<lparr> r_exact := v \<rparr>) = emptyFails t rule"
  "notEmptyFails t (rule\<lparr> r_exact := v \<rparr>) = notEmptyFails t rule"
  "notExactFails t (rule\<lparr> r_exact := v \<rparr>) = notExactFails t rule"
  "containsFails t (rule\<lparr> r_exact := v \<rparr>) = containsFails t rule"
  "oneOfFails t (rule\<lparr> r_exact := v \<rparr>) = oneOfFails t rule"
  "exactFails t (rule\<lparr> r_exact := None \<rparr>) = False"
  by (simp_all add: emptyFails_def notEmptyFails_def exactFails_def notExactFails_def
      containsFails_def oneOfFails_def)

lemma fails_without_not_exact [simp]:
  "emptyFails t (rule\<lparr> r_not_exact := v \<rparr>) = emptyFails t rule"
  "notEmptyFails t (rule\<lparr> r_not_exact := v \<rparr>) = notEmptyFails t rule"
  "exactFails t (rule\<lparr> r_not_exact := v \<rparr>) = exactFails t rule"
  "containsFails t (rule\<lparr> r_not_exact := v \<rparr>) = containsFails t rule"
  "oneOfFails t (rule\<lparr> r_not_exact := v \<rparr>) = oneOfFails t rule"
  "notExactFails t (rule\<lparr> r_not_exact := None \<rparr>) = False"
  by (simp_all add: emptyFails_def notEmptyFails_def exactFails_def notExactFails_def
      containsFails_def oneOfFails_def)

lemma testRule_exact:
  assumes "r_exact rule = Some x"
  shows "testRule rx t rule =
           (if t = toLowerCase x then testRule rx t (rule\<lparr> r_exact := None \<rparr>) else Inr False)"
    and "testRule_v1 rx t rule =
           (if t = toLowerCase x then testRule_v1 rx t (rule\<lparr> r_exact := None \<rparr>)
            else Inr False)"
proof -
  have e: "exactFails t rule = (t \<noteq> toLowerCase x)"
    using assms by (simp add: exactFails_def)
  show "testRule rx t rule =
           (if t = toLowerCase x then testRule rx t (rule\<lparr> r_exact := None \<rparr>) else Inr False)"
  proof (cases "t = toLowerCase x")
    case True
    with e have "\<not> exactFails t rule" by blast
    then have "testRule rx t rule = testRule rx t (rule\<lparr> r_exact := None \<rparr>)"
      by (simp add: testRule_def)
    with True show ?thesis by simp
  next
    case False
    with e have "exactFails t rule" by blast
    then have "testRule rx t rule = Inr False" by (simp add: testRule_def)
    with False show ?thesis by simp
  qed
  show "testRule_v1 rx t rule =
           (if t = toLowerCase x then testRule_v1 rx t (rule\<lparr> r_exact := None \<rparr>)
            else Inr False)"
  proof (cases "t = toLowerCase x")
    case True
    with e have "\<not> exactFails t rule" by blast
    then have "testRule_v1 rx t rule = testRule_v1 rx t (rule\<lparr> r_exact := None \<rparr>)"
      by (simp add: testRule_v1_def split: option.splits bool.splits contains_arg.splits)
    with True show ?thesis by simp
  next
    case False
    with e have "exactFails t rule" by blast
    then have "testRule_v1 rx t rule = Inr False" by (simp add: testRule_v1_def split: option.splits bool.splits contains_arg.splits)
    with False show ?thesis by simp
  qed
qed

lemma testRule_not_exact:
  assumes "r_not_exact rule = Some y"
  shows "testRule rx t rule =
           (if t = toLowerCase y then Inr False
            else testRule rx t (rule\<lparr> r_not_exact := None \<rparr>))"
    and "testRule_v1 rx t rule =
           (if t = toLowerCase y then Inr False
            else testRule_v1 rx t (rule\<lparr> r_not_exact := None \<rparr>))"
proof -
  have e: "notExactFails t rule = (t = toLowerCase y)"
    using assms by (simp add: notExactFails_def)
  show "testRule rx t rule =
           (if t = toLowerCase y then Inr False
            else testRule rx t (rule\<lparr> r_not_exact := None \<rparr>))"
  proof (cases "t = toLowerCase y")
    case True
    with e have "notExactFails t rule" by blast
    then have "testRule rx t rule = Inr False" by (simp add: testRule_def)
    with True show ?thesis by simp
  next
    case False
    with e have "\<not> notExactFails t rule" by blast
    then have "testRule rx t rule = testRule rx t (rule\<lparr> r_not_exact := None \<rparr>)"
      by (simp add: testRule_def)
    with False show ?thesis by simp
  qed
  show "testRule_v1 rx t rule =
           (if t = toLowerCase y then Inr False
            else testRule_v1 rx t (rule\<lparr> r_not_exact := None \<rparr>))"
  proof (cases "t = toLowerCase y")
    case True
    with e have "notExactFails t rule" by blast
    then have "testRule_v1 rx t rule = Inr False" by (simp add: testRule_v1_def split: option.splits bool.splits contains_arg.splits)
    with True show ?thesis by simp
  next
    case False
    with e have "\<not> notExactFails t rule" by blast
    then have "testRule_v1 rx t rule = testRule_v1 rx t (rule\<lparr> r_not_exact := None \<rparr>)"
      by (simp add: testRule_v1_def split: option.splits bool.splits contains_arg.splits)
    with False show ?thesis by simp
  qed
qed

text \<open>
  C5: \<^verbatim>\<open>testRule\<close> is called on the text that \<^verbatim>\<open>getTextString\<close> returns for the same
  message and rule. On such a text a present \<^verbatim>\<open>exact\<close> condition passes, that is, the
  rule is evaluated as if the key were absent, when the text and the condition string
  are equal up to case as whole strings, and makes the rule fail otherwise; a present
  \<^verbatim>\<open>not-exact\<close> condition passes when they differ up to case and makes the rule fail
  otherwise. This holds of both versions of \<^verbatim>\<open>testRule\<close>.
\<close>

theorem exact_is_equality_up_to_case:
  assumes "getTextString message rule = Inr textString"
  shows "(r_exact rule = Some x \<longrightarrow>
            testRule rx textString rule =
              (if toLowerCase textString = toLowerCase x
               then testRule rx textString (rule\<lparr> r_exact := None \<rparr>) else Inr False) \<and>
            testRule_v1 rx textString rule =
              (if toLowerCase textString = toLowerCase x
               then testRule_v1 rx textString (rule\<lparr> r_exact := None \<rparr>) else Inr False)) \<and>
         (r_not_exact rule = Some y \<longrightarrow>
            testRule rx textString rule =
              (if toLowerCase textString = toLowerCase y then Inr False
               else testRule rx textString (rule\<lparr> r_not_exact := None \<rparr>)) \<and>
            testRule_v1 rx textString rule =
              (if toLowerCase textString = toLowerCase y then Inr False
               else testRule_v1 rx textString (rule\<lparr> r_not_exact := None \<rparr>)))"
proof -
  have low: "toLowerCase textString = textString"
    using assms by (rule getTextString_lowercase)
  have "r_exact rule = Some x \<longrightarrow>
            testRule rx textString rule =
              (if toLowerCase textString = toLowerCase x
               then testRule rx textString (rule\<lparr> r_exact := None \<rparr>) else Inr False) \<and>
            testRule_v1 rx textString rule =
              (if toLowerCase textString = toLowerCase x
               then testRule_v1 rx textString (rule\<lparr> r_exact := None \<rparr>) else Inr False)"
    using testRule_exact [of rule x rx textString] by (simp only: low) simp
  moreover have "r_not_exact rule = Some y \<longrightarrow>
            testRule rx textString rule =
              (if toLowerCase textString = toLowerCase y then Inr False
               else testRule rx textString (rule\<lparr> r_not_exact := None \<rparr>)) \<and>
            testRule_v1 rx textString rule =
              (if toLowerCase textString = toLowerCase y then Inr False
               else testRule_v1 rx textString (rule\<lparr> r_not_exact := None \<rparr>))"
    using testRule_not_exact [of rule y rx textString] by (simp only: low) simp
  ultimately show ?thesis by (rule conjI)
qed

theorem exact_is_equality_up_to_case_witness:
  "getTextString invoiceMessage
     (blankRule\<lparr> r_subject := True, r_exact := Some ''INVOICE #123 Due'' \<rparr>) =
     Inr ''invoice #123 due'' \<and>
   testRule literalRegex ''invoice #123 due''
     (blankRule\<lparr> r_subject := True, r_exact := Some ''INVOICE #123 Due'' \<rparr>) = Inr True \<and>
   testRule_v1 literalRegex ''invoice #123 due''
     (blankRule\<lparr> r_subject := True, r_exact := Some ''INVOICE #123 Due'' \<rparr>) = Inr True \<and>
   getTextString invoiceMessage
     (blankRule\<lparr> r_subject := True, r_exact := Some ''Invoice'',
                  r_not_exact := Some ''Invoice #123 DUE'' \<rparr>) =
     Inr ''invoice #123 due'' \<and>
   testRule literalRegex ''invoice #123 due''
     (blankRule\<lparr> r_subject := True, r_exact := Some ''Invoice'',
                  r_not_exact := Some ''Invoice #123 DUE'' \<rparr>) = Inr False \<and>
   testRule literalRegex ''invoice #123 due''
     (blankRule\<lparr> r_subject := True, r_not_exact := Some ''Invoice #123 DUE'' \<rparr>) = Inr False \<and>
   testRule literalRegex ''invoice #123 due''
     (blankRule\<lparr> r_subject := True, r_not_exact := Some ''Invoice'' \<rparr>) = Inr True"
proof -
  let ?r1 = "blankRule\<lparr> r_subject := True, r_exact := Some ''INVOICE #123 Due'' \<rparr>"
  let ?r2 = "blankRule\<lparr> r_subject := True, r_exact := Some ''Invoice'',
                        r_not_exact := Some ''Invoice #123 DUE'' \<rparr>"
  have g1: "getTextString invoiceMessage ?r1 = Inr ''invoice #123 due''" by code_simp
  have g2: "getTextString invoiceMessage ?r2 = Inr ''invoice #123 due''" by code_simp
  have e1: "r_exact ?r1 = Some ''INVOICE #123 Due''" by simp
  have e2: "r_exact ?r2 = Some ''Invoice''" by simp
  have t1: "testRule literalRegex ''invoice #123 due'' (?r1\<lparr> r_exact := None \<rparr>) = Inr True"
    by code_simp
  have t1': "testRule_v1 literalRegex ''invoice #123 due'' (?r1\<lparr> r_exact := None \<rparr>) = Inr True"
    by code_simp
  have l1: "toLowerCase ''invoice #123 due'' = toLowerCase ''INVOICE #123 Due''" by code_simp
  have l2: "toLowerCase ''invoice #123 due'' \<noteq> toLowerCase ''Invoice''" by code_simp
  have rest: "testRule literalRegex ''invoice #123 due''
       (blankRule\<lparr> r_subject := True, r_not_exact := Some ''Invoice #123 DUE'' \<rparr>) = Inr False \<and>
     testRule literalRegex ''invoice #123 due''
       (blankRule\<lparr> r_subject := True, r_not_exact := Some ''Invoice'' \<rparr>) = Inr True"
    by code_simp
  from exact_is_equality_up_to_case [OF g1, where x = "''INVOICE #123 Due''" and rx = literalRegex]
    e1 l1 t1 t1'
  have a: "testRule literalRegex ''invoice #123 due'' ?r1 = Inr True \<and>
           testRule_v1 literalRegex ''invoice #123 due'' ?r1 = Inr True"
    by (simp only: if_True simp_thms)
  from exact_is_equality_up_to_case [OF g2, where x = "''Invoice''" and rx = literalRegex] e2 l2
  have b: "testRule literalRegex ''invoice #123 due'' ?r2 = Inr False"
    by (simp only: if_False simp_thms)
  from g1 g2 a b rest show ?thesis by (simp only: simp_thms)
qed

text \<open>
  C6, as stated: a rule whose \<^verbatim>\<open>contains\<close> carries a list gives the same result as a
  rule whose \<^verbatim>\<open>one-of\<close> carries the same list. The earlier version of \<^verbatim>\<open>testRule\<close> has
  no branch for a list: it throws a TypeError where the rule with \<^verbatim>\<open>one-of\<close> matches.
\<close>

theorem contains_list_throws_in_v1_counterexample:
  "testRule_v1 literalRegex ''invoice #123 due''
     (blankRule\<lparr> r_contains := Some (StrList [''Bill'', ''Invoice'']) \<rparr>) = Inl TypeError \<and>
   testRule_v1 literalRegex ''invoice #123 due''
     (blankRule\<lparr> r_one_of := Some [''Bill'', ''Invoice''] \<rparr>) = Inr True"
  by code_simp

text \<open>
  C6, amended: in the version of \<^verbatim>\<open>testRule\<close> with the \<^verbatim>\<open>Array.isArray\<close> branch, a rule
  whose \<^verbatim>\<open>contains\<close> carries a list and a rule whose \<^verbatim>\<open>one-of\<close> carries the same list
  give the same result on every text, whatever the other keys of the rule are; and
  with no other key the result is true exactly when the lowercased form of one of the
  strings occurs in the text.
\<close>

theorem contains_list_same_as_one_of:
  "testRule rx textString (rule\<lparr> r_contains := Some (StrList strs), r_one_of := None \<rparr>) =
     testRule rx textString (rule\<lparr> r_contains := None, r_one_of := Some strs \<rparr>) \<and>
   testRule rx textString (blankRule\<lparr> r_contains := Some (StrList strs) \<rparr>) =
     Inr (list_ex (\<lambda>str. includesStr textString (toLowerCase str)) strs) \<and>
   testRule rx textString (blankRule\<lparr> r_one_of := Some strs \<rparr>) =
     Inr (list_ex (\<lambda>str. includesStr textString (toLowerCase str)) strs)"
  by (simp add: testRule_def emptyFails_def notEmptyFails_def exactFails_def
      notExactFails_def containsFails_def oneOfFails_def blankRule_def)

theorem contains_list_same_as_one_of_witness:
  "testRule literalRegex ''invoice #123 due''
     (blankRule\<lparr> r_contains := Some (StrList [''Bill'', ''INVOICE'']) \<rparr>) = Inr True \<and>
   testRule literalRegex ''invoice #123 due''
     (blankRule\<lparr> r_one_of := Some [''Bill'', ''INVOICE''] \<rparr>) = Inr True \<and>
   testRule literalRegex ''invoice #123 due''
     (blankRule\<lparr> r_contains := Some (StrList [''Bill'', ''Receipt'']) \<rparr>) = Inr False \<and>
   testRule literalRegex ''invoice #123 due''
     (blankRule\<lparr> r_one_of := Some [''Bill'', ''Receipt''] \<rparr>) = Inr False"
proof -
  have p: "list_ex (\<lambda>str. includesStr ''invoice #123 due'' (toLowerCase str)) [''Bill'', ''INVOICE'']"
    by code_simp
  have n: "\<not> list_ex (\<lambda>str. includesStr ''invoice #123 due'' (toLowerCase str)) [''Bill'', ''Receipt'']"
    by code_simp
  from contains_list_same_as_one_of [where rx = literalRegex
      and textString = "''invoice #123 due''" and rule = blankRule
      and strs = "[''Bill'', ''INVOICE'']"]
    contains_list_same_as_one_of [where rx = literalRegex
      and textString = "''invoice #123 due''" and rule = blankRule
      and strs = "[''Bill'', ''Receipt'']"] p n
  show ?thesis by (simp only: simp_thms)
qed

section \<open>Properties of the lock\<close>

lemma checkLockTimeout_held:
  "checkLockTimeout now \<lparr> clientHasLock = True, lockTimestamp = Some t \<rparr> =
     (if t \<noteq> 0 \<and> now - t > LOCK_TIMEOUT_MS
      then \<lparr> clientHasLock = False, lockTimestamp = None \<rparr>
      else \<lparr> clientHasLock = True, lockTimestamp = Some t \<rparr>)"
  by (simp add: checkLockTimeout_def)

lemma checkLockTimeout_idem:
  "checkLockTimeout now (checkLockTimeout now l) = checkLockTimeout now l"
  by (auto simp: checkLockTimeout_def split: option.splits)

lemma checkLockTimeout_no_acquire:
  "clientHasLock (checkLockTimeout now l) \<Longrightarrow> checkLockTimeout now l = l"
  by (auto simp: checkLockTimeout_def split: option.splits if_splits)

text \<open>
  C8, as stated: a status query at a time \<open>t'\<close> with \<open>t' - t \<ge> LOCK_TIMEOUT_MS\<close> reports
  Unlocked. The code tests \<^verbatim>\<open>Date.now() - lockTimestamp > LOCK_TIMEOUT_MS\<close>: a lock taken
  at time 1 is still reported as held at time 300001, exactly one timeout later.
\<close>

theorem lock_status_at_timeout_counterexample:
  "300001 - 1 \<ge> LOCK_TIMEOUT_MS \<and>
   snd (lockStatus 300001 (fst (postData 1 (Some ''subjects'') (Some ''x'') idleServer)))
     = LockReply True"
  by (simp add: LOCK_TIMEOUT_MS_def lockStatus_def postData_def validType_def idleServer_def
      initialLock_def checkLockTimeout_def)

text \<open>
  C8, amended: after a save at clock time \<open>t\<close> (not 0) has taken the lock, a status
  query at \<open>t'\<close> with \<open>t' - t > LOCK_TIMEOUT_MS\<close> clears the lock and reports Unlocked,
  and a status query with \<open>t' - t \<le> LOCK_TIMEOUT_MS\<close> leaves the state alone and
  reports Locked.
\<close>

theorem lock_status_after_acquire:
  assumes "t \<noteq> 0" and "validType type"
    and "s = fst (postData t type (Some content) s0)"
  shows "(t' - t > LOCK_TIMEOUT_MS \<longrightarrow>
            lockStatus t' s =
              (s\<lparr> lockState := \<lparr> clientHasLock = False, lockTimestamp = None \<rparr> \<rparr>,
               LockReply False)) \<and>
         (t' - t \<le> LOCK_TIMEOUT_MS \<longrightarrow> lockStatus t' s = (s, LockReply True))"
  using assms by (simp add: lockStatus_def postData_def Let_def checkLockTimeout_held)

theorem lock_status_after_acquire_witness:
  "(1000::int) \<noteq> 0 \<and> validType (Some ''subjects'') \<and>
   400000 - 1000 > LOCK_TIMEOUT_MS \<and>
   snd (lockStatus 400000 (fst (postData 1000 (Some ''subjects'') (Some ''x'') idleServer)))
     = LockReply False \<and>
   301000 - 1000 \<le> LOCK_TIMEOUT_MS \<and>
   snd (lockStatus 301000 (fst (postData 1000 (Some ''subjects'') (Some ''x'') idleServer)))
     = LockReply True"
  using lock_status_after_acquire [where t = 1000 and type = "Some ''subjects''"
      and content = "''x''" and ?s0.0 = idleServer and t' = 400000, OF _ _ refl]
    lock_status_after_acquire [where t = 1000 and type = "Some ''subjects''"
      and content = "''x''" and ?s0.0 = idleServer and t' = 301000, OF _ _ refl]
  by (simp add: validType_def LOCK_TIMEOUT_MS_def)

text \<open>
  C9, as stated: an invalid data request leaves the lock state unchanged. Both handlers
  call \<^verbatim>\<open>checkLockTimeout\<close> before they look at the request: an invalid request that
  arrives after the timeout gets its 400 reply and clears the lock.
\<close>

theorem invalid_request_changes_lock_counterexample:
  "\<not> validType None \<and>
   snd (getData 400000 None heldServer) = ErrorReply 400 ''Invalid type parameter'' \<and>
   lockState (fst (getData 400000 None heldServer)) \<noteq> lockState heldServer \<and>
   snd (postData 400000 None (Some ''x'') heldServer) = ErrorReply 400 ''Invalid type parameter'' \<and>
   lockState (fst (postData 400000 None (Some ''x'') heldServer)) \<noteq> lockState heldServer"
  by (simp add: getData_def postData_def validType_def heldServer_def checkLockTimeout_def
      LOCK_TIMEOUT_MS_def)

text \<open>
  C9, amended: a data request whose type is missing or not one of subjects and
  exclusions, or a save without content, is answered with status 400 and a next state;
  no file is written and the lock is not taken: the only change of the state is the
  expiry check that precedes the validation, so a lock that is held afterwards is the
  unchanged lock of before, and a status query at that time answers as it would have
  without the request.
\<close>

theorem invalid_request_rejected:
  assumes "\<not> validType type \<or> content = None"
  shows "(\<not> validType type \<longrightarrow>
            getData now type s =
              (s\<lparr> lockState := checkLockTimeout now (lockState s) \<rparr>,
               ErrorReply 400 ''Invalid type parameter'')) \<and>
         fst (postData now type content s) =
            s\<lparr> lockState := checkLockTimeout now (lockState s) \<rparr> \<and>
         snd (postData now type content s) =
            ErrorReply 400
              (if \<not> validType type then ''Invalid type parameter'' else ''Missing content'') \<and>
         files (fst (postData now type content s)) = files s \<and>
         (clientHasLock (lockState (fst (postData now type content s))) \<longrightarrow>
            lockState (fst (postData now type content s)) = lockState s) \<and>
         snd (lockStatus now (fst (postData now type content s))) = snd (lockStatus now s)"
  using assms checkLockTimeout_no_acquire [of now "lockState s"]
  by (auto simp: getData_def postData_def lockStatus_def Let_def checkLockTimeout_idem)

theorem invalid_request_rejected_witness:
  "\<not> validType (Some ''rules'') \<and>
   getData 400000 (Some ''rules'') heldServer =
     (heldServer\<lparr> lockState := initialLock \<rparr>, ErrorReply 400 ''Invalid type parameter'') \<and>
   postData 2 (Some ''rules'') (Some ''x'') heldServer =
     (heldServer, ErrorReply 400 ''Invalid type parameter'')"
  using invalid_request_rejected [where type = "Some ''rules''" and content = "Some ''x''"
      and now = 400000 and s = heldServer]
    invalid_request_rejected [where type = "Some ''rules''" and content = "Some ''x''"
      and now = 2 and s = heldServer]
  by (simp add: validType_def heldServer_def checkLockTimeout_def LOCK_TIMEOUT_MS_def
      initialLock_def prod_eq_iff getData_def)

section \<open>Properties of the field composer\<close>

text \<open>
  Whenever the body selector does not throw, the text is the lowercased join of one part
  per selector of the rule, in the order header, from, to, subject, body.
\<close>

lemma getTextString_parts:
  assumes "r_body rule \<longrightarrow> bodyValue message = Inr b"
  shows "getTextString message rule =
     Inr (toLowerCase (join ''|''
       ((if truthy (r_header rule) then [headerValue message (orEmpty (r_header rule))] else []) @
        (if r_from rule then [fromValue message] else []) @
        (if r_to rule then [toValue message] else []) @
        (if r_subject rule then [subjectValue message] else []) @
        (if r_body rule then [b] else []))))"
  using assms by (simp add: getTextString_def Let_def)

lemma absent_values_are_empty:
  "m_headers message = None \<Longrightarrow> headerValue message h = []"
  "m_from message = None \<Longrightarrow> fromValue message = []"
  "m_to message = None \<Longrightarrow> toValue message = []"
  "m_subject message = None \<Longrightarrow> subjectValue message = []"
  "m_textBody message = None \<Longrightarrow> m_bodyValues message = None \<Longrightarrow> bodyValue message = Inr []"
  by (simp_all add: headerValue_def fromValue_def toValue_def subjectValue_def
      bodyValue_def bodyValueAt_def firstPartId_def)

text \<open>
  C7: for every message and rule the composer returns the joined parts, an absent value
  contributing the empty string. The code does not do so for the body selector on a
  message that has a body value under the key \<^verbatim>\<open>body\<close> and no \<^verbatim>\<open>textBody\<close>: the
  condition of the conditional operator is \<^verbatim>\<open>(a || b)\<close>, and its true branch reads
  \<^verbatim>\<open>message.textBody[0]\<close> of the absent array, which throws a TypeError.
\<close>

theorem getTextString_body_without_textBody:
  "getTextString bodyOnlyMessage (blankRule\<lparr> r_body := True \<rparr>) = Inl TypeError"
  by code_simp

section \<open>Properties of the rule engine\<close>

lemma addLabel_stopProcessing:
  "addLabel cfg m2i message rule s = Inr s1 \<Longrightarrow> stopProcessing s1 = stopProcessing s"
  by (auto simp: addLabel_def Let_def split: if_splits sum.splits)

lemma removeKeyword_stopProcessing [simp]:
  "stopProcessing (removeKeyword cfg key s) = stopProcessing s"
  by (simp add: removeKeyword_def)

lemma removeLabel_stopProcessing [simp]:
  "stopProcessing (removeLabel cfg m2i rule s) = stopProcessing s"
  by (simp add: removeLabel_def Let_def)

lemma applyRule_stopProcessing:
  "applyRule cfg m2i message rule s = Inr s1 \<Longrightarrow> stopProcessing s1 = stopProcessing s"
  by (auto simp: applyRule_def addLabel_stopProcessing split: sum.splits)

lemma ruleLoop_append:
  "\<not> stopProcessing s \<Longrightarrow>
   ruleLoop rx cfg m2i message (rs1 @ rs2) s =
     (case ruleLoop rx cfg m2i message rs1 s of
        Inl e \<Rightarrow> Inl e
      | Inr s1 \<Rightarrow> if stopProcessing s1 then Inr s1 else ruleLoop rx cfg m2i message rs2 s1)"
proof (induction rs1 arbitrary: s)
  case Nil
  then show ?case by simp
next
  case (Cons r rs1)
  show ?case
  proof (cases "getTextString message r")
    case (Inl e)
    then show ?thesis by simp
  next
    case gts: (Inr t)
    show ?thesis
    proof (cases "testRule rx t r")
      case (Inl e)
      with gts show ?thesis by simp
    next
      case (Inr b)
      show ?thesis
      proof (cases b)
        case False
        with gts Inr Cons.IH [OF Cons.prems] show ?thesis by simp
      next
        case True
        show ?thesis
        proof (cases "applyRule cfg m2i message r s")
          case ap: (Inl e)
          with gts Inr True show ?thesis by simp
        next
          case ap: (Inr s1)
          with Cons.prems have "\<not> stopProcessing s1"
            by (simp add: applyRule_stopProcessing)
          from Cons.IH [OF this] gts Inr True ap show ?thesis by simp
        qed
      qed
    qed
  qed
qed

lemma finishMessage_stopProcessing [simp]:
  "stopProcessing (finishMessage message s) = stopProcessing s"
  by (simp add: finishMessage_def)

lemma messageLoop_stopped:
  "stopProcessing s \<Longrightarrow> messageLoop rx cfg m2i ms s = Inr s"
  by (cases ms) simp_all

lemma messageLoop_append:
  "messageLoop rx cfg m2i (ms1 @ ms2) s =
     (case messageLoop rx cfg m2i ms1 s of
        Inl e \<Rightarrow> Inl e
      | Inr s1 \<Rightarrow> messageLoop rx cfg m2i ms2 s1)"
proof (induction ms1 arbitrary: s)
  case Nil
  then show ?case by simp
next
  case (Cons m ms1)
  show ?case
  proof (cases "stopProcessing s")
    case True
    then show ?thesis by (simp add: messageLoop_stopped)
  next
    case False
    show ?thesis
    proof (cases "ruleLoop rx cfg m2i m (rule_list cfg) (startMessage m s)")
      case (Inl e)
      with False show ?thesis by simp
    next
      case (Inr s1)
      with False Cons.IH [of "finishMessage m s1"] show ?thesis by simp
    qed
  qed
qed

text \<open>
  C1, as stated: a \<^verbatim>\<open>stop\<close> halts the rules of its own message only, and the other
  messages of the batch are evaluated as usual. In the code the flag
  \<^verbatim>\<open>stopProcessing\<close> also ends the loop over the messages: in the batch of the urgent
  message (which matches the stop rule) followed by the invoice message, the invoice
  message gets neither its label nor its ledger line, which it gets when it is alone
  in the batch.
\<close>

theorem stop_skips_later_messages_counterexample:
  "processMessages literalRegex id labellingConfig None None someMailboxes [''E1'', ''E2'']
     [urgentMessage, invoiceMessage] True =
     \<lparr> failure = None, emailSet = None, subjectsWritten = None \<rparr> \<and>
   processMessages literalRegex id labellingConfig None None someMailboxes [''E2'']
     [invoiceMessage] True =
     \<lparr> failure = None,
       emailSet = Some [(''E2'', \<lparr> mu_mailboxIds = [(''inbox-id'', True), (''M1'', True)],
                                  mu_keywords = [] \<rparr>)],
       subjectsWritten =
         Some ''======= Receipts =======\<newline>Shop | Invoice #123 due | E2\<newline>'' \<rparr>"
  by code_simp

text \<open>
  C1, amended: when a rule carrying \<^verbatim>\<open>stop\<close> matches a message, the remaining rules
  are not evaluated for that message, and no later message of the batch is evaluated
  at all; the messages before it are processed as usual, the message itself keeps the
  actions of the rules up to and including the stop rule, and the run does not abort:
  the loop returns normally and \<^verbatim>\<open>processMessages\<close> goes on to the batched update and
  the ledger rewrite, with the state that the stop message left.
\<close>

theorem stop_ends_the_batch:
  assumes "loadSubjects (SAVE_SUBJECTS cfg) subjectsFile = Inr t0"
    and "find (\<lambda>mb. toLowerCase (mb_name mb) = toLowerCase (scan_folder cfg)) mailboxes =
           Some scanMailbox"
    and "emailIds \<noteq> []"
    and "messageLoop rx cfg (buildMailboxNameToId mailboxes) earlier (initialState t0) = Inr s"
    and "\<not> stopProcessing s"
    and "rule_list cfg = before @ rule # after"
    and "ruleLoop rx cfg (buildMailboxNameToId mailboxes) message before
           (startMessage message s) = Inr s1"
    and "\<not> stopProcessing s1"
    and "getTextString message rule = Inr textString"
    and "testRule rx textString rule = Inr True"
    and "applyRule cfg (buildMailboxNameToId mailboxes) message rule s1 = Inr s2"
    and "r_stop rule"
  shows "messageLoop rx cfg (buildMailboxNameToId mailboxes) (earlier @ message # later)
           (initialState t0) =
           Inr (finishMessage message (s2\<lparr> stopProcessing := True \<rparr>)) \<and>
         processMessages rx collate cfg subjectsFile exclusionsFile mailboxes emailIds
           (earlier @ message # later) setOk =
           finishRun collate cfg subjectsFile exclusionsFile setOk
             (finishMessage message (s2\<lparr> stopProcessing := True \<rparr>))"
proof -
  let ?m2i = "buildMailboxNameToId mailboxes"
  have start: "\<not> stopProcessing (startMessage message s)"
    using assms(5) by (simp add: startMessage_def)
  have "ruleLoop rx cfg ?m2i message (rule_list cfg) (startMessage message s) =
          Inr (s2\<lparr> stopProcessing := True \<rparr>)"
    using assms(6-12) by (simp add: ruleLoop_append [OF start])
  then have "messageLoop rx cfg ?m2i (message # later) s =
          Inr (finishMessage message (s2\<lparr> stopProcessing := True \<rparr>))"
    using assms(5) by (simp add: messageLoop_stopped)
  then have loop: "messageLoop rx cfg ?m2i (earlier @ message # later) (initialState t0) =
          Inr (finishMessage message (s2\<lparr> stopProcessing := True \<rparr>))"
    using assms(4) by (simp add: messageLoop_append)
  then have "processMessages rx collate cfg subjectsFile exclusionsFile mailboxes emailIds
           (earlier @ message # later) setOk =
           finishRun collate cfg subjectsFile exclusionsFile setOk
             (finishMessage message (s2\<lparr> stopProcessing := True \<rparr>))"
    using assms(1-3) by (simp add: processMessages_def Let_def)
  with loop show ?thesis by (rule conjI)
qed

theorem stop_ends_the_batch_witness:
  "getTextString urgentMessage urgentStopRule = Inr ''urgent: call me'' \<and>
   testRule literalRegex ''urgent: call me'' urgentStopRule = Inr True \<and>
   r_stop urgentStopRule \<and>
   processMessages literalRegex id recordingConfig None None someMailboxes
     [''E2'', ''E1'', ''E3'']
     ([invoiceMessage] @ urgentMessage # [plainMessage ''E3'' ''Other'' ''Invoice again''])
     True =
     \<lparr> failure = None, emailSet = None,
       subjectsWritten =
         Some ''======= Receipts =======\<newline>Shop | Invoice #123 due | E2\<newline>'' \<rparr> \<and>
   processMessages literalRegex id recordingConfig None None someMailboxes
     [''E2'', ''E3'']
     [invoiceMessage, plainMessage ''E3'' ''Other'' ''Invoice again''] True =
     \<lparr> failure = None, emailSet = None,
       subjectsWritten =
         Some ''======= Receipts =======\<newline>Other | Invoice again | E3\<newline>Shop | Invoice #123 due | E2\<newline>'' \<rparr>"
proof -
  let ?m2i = "buildMailboxNameToId someMailboxes"
  let ?s = "\<lparr> updates = [], stopProcessing = False,
              ledger = \<lparr> subjectsByLabel = [(''Receipts'', [''Shop''])],
                         subjectLinesByLabel =
                           [(''Receipts'', [''Shop | Invoice #123 due | E2''])] \<rparr>,
              messageUpdates = \<lparr> mu_mailboxIds = [(''inbox-id'', True)], mu_keywords = [] \<rparr>,
              messageModified = False \<rparr>"
  let ?s1 = "startMessage urgentMessage ?s"
  have a1: "loadSubjects (SAVE_SUBJECTS recordingConfig) None = Inr noTracked"
    by (simp add: loadSubjects_def)
  have a2: "find (\<lambda>mb. toLowerCase (mb_name mb) = toLowerCase (scan_folder recordingConfig))
              someMailboxes = Some \<lparr> mb_id = ''inbox-id'', mb_name = ''Inbox'' \<rparr>"
    by code_simp
  have a3: "[''E2'', ''E1'', ''E3''] \<noteq> []" by simp
  have a4: "messageLoop literalRegex recordingConfig ?m2i [invoiceMessage]
              (initialState noTracked) = Inr ?s"
    by code_simp
  have a5: "\<not> stopProcessing ?s" by simp
  have a6: "rule_list recordingConfig = [] @ urgentStopRule # [receiptsRule]"
    by (simp add: recordingConfig_def)
  have a7: "ruleLoop literalRegex recordingConfig ?m2i urgentMessage [] ?s1 = Inr ?s1"
    by simp
  have a8: "\<not> stopProcessing ?s1" by (simp add: startMessage_def)
  have a9: "getTextString urgentMessage urgentStopRule = Inr ''urgent: call me''"
    by code_simp
  have a10: "testRule literalRegex ''urgent: call me'' urgentStopRule = Inr True"
    by code_simp
  have a11: "applyRule recordingConfig ?m2i urgentMessage urgentStopRule ?s1 = Inr ?s1"
    by code_simp
  have a12: "r_stop urgentStopRule" by code_simp
  have f: "finishRun id recordingConfig None None True
             (finishMessage urgentMessage (?s1\<lparr> stopProcessing := True \<rparr>)) =
           \<lparr> failure = None, emailSet = None,
             subjectsWritten =
               Some ''======= Receipts =======\<newline>Shop | Invoice #123 due | E2\<newline>'' \<rparr>"
    by code_simp
  have other: "processMessages literalRegex id recordingConfig None None someMailboxes
     [''E2'', ''E3'']
     [invoiceMessage, plainMessage ''E3'' ''Other'' ''Invoice again''] True =
     \<lparr> failure = None, emailSet = None,
       subjectsWritten =
         Some ''======= Receipts =======\<newline>Other | Invoice again | E3\<newline>Shop | Invoice #123 due | E2\<newline>'' \<rparr>"
    by code_simp
  from stop_ends_the_batch [OF a1 a2 a3 a4 a5 a6 a7 a8 a9 a10 a11 a12,
      where later = "[plainMessage ''E3'' ''Other'' ''Invoice again'']" and collate = id
        and exclusionsFile = None and setOk = True]
  have "processMessages literalRegex id recordingConfig None None someMailboxes
     [''E2'', ''E1'', ''E3'']
     ([invoiceMessage] @ urgentMessage # [plainMessage ''E3'' ''Other'' ''Invoice again''])
     True =
     \<lparr> failure = None, emailSet = None,
       subjectsWritten =
         Some ''======= Receipts =======\<newline>Shop | Invoice #123 due | E2\<newline>'' \<rparr>"
    by (simp only: f)
  with a9 a10 a12 other show ?thesis by (simp only: simp_thms)
qed

lemma addLabel_frame:
  "\<not> PROCESS_LABELS cfg \<Longrightarrow> addLabel cfg m2i message rule s = Inr s1 \<Longrightarrow>
   messageModified s1 = messageModified s \<and> messageUpdates s1 = messageUpdates s \<and>
   updates s1 = updates s"
  by (auto simp: addLabel_def Let_def split: if_splits sum.splits)

lemma removeLabel_frame:
  "\<not> PROCESS_LABELS cfg \<Longrightarrow> removeLabel cfg m2i rule s = s"
  by (simp add: removeLabel_def removeKeyword_def Let_def)

lemma applyRule_frame:
  "\<not> PROCESS_LABELS cfg \<Longrightarrow> applyRule cfg m2i message rule s = Inr s1 \<Longrightarrow>
   messageModified s1 = messageModified s \<and> messageUpdates s1 = messageUpdates s \<and>
   updates s1 = updates s"
  by (auto simp: applyRule_def removeLabel_frame split: sum.splits dest: addLabel_frame)

lemma ruleLoop_frame:
  "\<not> PROCESS_LABELS cfg \<Longrightarrow> ruleLoop rx cfg m2i message rs s = Inr s' \<Longrightarrow>
   messageModified s' = messageModified s \<and> messageUpdates s' = messageUpdates s \<and>
   updates s' = updates s"
proof (induction rs arbitrary: s)
  case Nil
  then show ?case by simp
next
  case (Cons r rs)
  from Cons.prems(2) obtain t where gts: "getTextString message r = Inr t"
    by (cases "getTextString message r") simp_all
  from Cons.prems(2) gts obtain b where tr: "testRule rx t r = Inr b"
    by (cases "testRule rx t r") simp_all
  show ?case
  proof (cases b)
    case False
    with Cons.prems(2) gts tr have "ruleLoop rx cfg m2i message rs s = Inr s'"
      by simp
    from Cons.IH [OF Cons.prems(1) this] show ?thesis .
  next
    case True
    with Cons.prems(2) gts tr obtain s1 where ap: "applyRule cfg m2i message r s = Inr s1"
      by (cases "applyRule cfg m2i message r s") simp_all
    note fr = applyRule_frame [OF Cons.prems(1) ap]
    show ?thesis
    proof (cases "r_stop r")
      case stop: True
      with Cons.prems(2) gts tr True ap have "s' = s1\<lparr> stopProcessing := True \<rparr>"
        by simp
      with fr show ?thesis by simp
    next
      case False
      with Cons.prems(2) gts tr True ap have "ruleLoop rx cfg m2i message rs s1 = Inr s'"
        by simp
      from Cons.IH [OF Cons.prems(1) this] fr show ?thesis by simp
    qed
  qed
qed

lemma messageLoop_frame:
  "\<not> PROCESS_LABELS cfg \<Longrightarrow> messageLoop rx cfg m2i ms s = Inr s' \<Longrightarrow>
   updates s' = updates s"
proof (induction ms arbitrary: s)
  case Nil
  then show ?case by simp
next
  case (Cons m ms)
  show ?case
  proof (cases "stopProcessing s")
    case True
    with Cons.prems show ?thesis by simp
  next
    case False
    with Cons.prems(2) obtain s1 where
      r: "ruleLoop rx cfg m2i m (rule_list cfg) (startMessage m s) = Inr s1"
      by (cases "ruleLoop rx cfg m2i m (rule_list cfg) (startMessage m s)") simp_all
    with False Cons.prems(2) have
      l: "messageLoop rx cfg m2i ms (finishMessage m s1) = Inr s'"
      by simp
    from ruleLoop_frame [OF Cons.prems(1) r]
    have "\<not> messageModified s1" and u: "updates s1 = updates s"
      by (simp_all add: startMessage_def)
    then have "finishMessage m s1 = s1"
      by (simp add: finishMessage_def)
    with Cons.IH [OF Cons.prems(1), of "finishMessage m s1"] l u show ?thesis by simp
  qed
qed

lemma finishRun_no_updates:
  "updates s = [] \<Longrightarrow>
   emailSet (finishRun collate cfg subjectsFile exclusionsFile setOk s) = None"
  by (simp add: finishRun_def split: sum.splits)

text \<open>
  C10: with \<^verbatim>\<open>SAVE_SUBJECTS = true\<close> and \<^verbatim>\<open>PROCESS_LABELS = false\<close>, the rule loop of
  every message ends with \<^verbatim>\<open>messageModified\<close> still false and \<^verbatim>\<open>messageUpdates\<close> equal
  to the message's own mailbox ids and keywords, and the run never sends the
  \<^verbatim>\<open>Email/set\<close> request, whatever the messages, the rules and the answers of the mail
  store are.
\<close>

theorem recording_run_sends_no_update:
  assumes "SAVE_SUBJECTS cfg" and "\<not> PROCESS_LABELS cfg"
  shows "(ruleLoop rx cfg m2i message (rule_list cfg) (startMessage message s) = Inr s' \<longrightarrow>
            \<not> messageModified s' \<and>
            messageUpdates s' = \<lparr> mu_mailboxIds = m_mailboxIds message,
                                   mu_keywords = m_keywords message \<rparr>) \<and>
         emailSet (processMessages rx collate cfg subjectsFile exclusionsFile mailboxes
                     emailIds messages setOk) = None"
proof -
  have "ruleLoop rx cfg m2i message (rule_list cfg) (startMessage message s) = Inr s' \<longrightarrow>
            \<not> messageModified s' \<and>
            messageUpdates s' = \<lparr> mu_mailboxIds = m_mailboxIds message,
                                   mu_keywords = m_keywords message \<rparr>"
    using ruleLoop_frame [OF assms(2), of rx m2i message "rule_list cfg"
        "startMessage message s" s']
    by (simp add: startMessage_def)
  moreover have "emailSet (processMessages rx collate cfg subjectsFile exclusionsFile
                     mailboxes emailIds messages setOk) = None"
  proof (cases "loadSubjects (SAVE_SUBJECTS cfg) subjectsFile")
    case (Inl e)
    then show ?thesis by (simp add: processMessages_def)
  next
    case t0: (Inr t0)
    show ?thesis
    proof (cases "messageLoop rx cfg (buildMailboxNameToId mailboxes) messages
                    (initialState t0)")
      case (Inl e)
      with t0 show ?thesis
        by (simp add: processMessages_def Let_def split: option.splits)
    next
      case (Inr s1)
      from messageLoop_frame [OF assms(2) Inr] have "updates s1 = []"
        by (simp add: initialState_def)
      with Inr t0 show ?thesis
        by (simp add: processMessages_def Let_def finishRun_no_updates split: option.splits)
    qed
  qed
  ultimately show ?thesis by simp
qed

theorem recording_run_sends_no_update_witness:
  "SAVE_SUBJECTS recordingConfig \<and> \<not> PROCESS_LABELS recordingConfig \<and>
   processMessages literalRegex id recordingConfig None None someMailboxes [''E2'']
     [invoiceMessage] True =
     \<lparr> failure = None, emailSet = None,
       subjectsWritten =
         Some ''======= Receipts =======\<newline>Shop | Invoice #123 due | E2\<newline>'' \<rparr>"
proof -
  have c: "SAVE_SUBJECTS recordingConfig" "\<not> PROCESS_LABELS recordingConfig"
    by (simp_all add: recordingConfig_def)
  have "processMessages literalRegex id recordingConfig None None someMailboxes [''E2'']
     [invoiceMessage] True =
     \<lparr> failure = None, emailSet = None,
       subjectsWritten =
         Some ''======= Receipts =======\<newline>Shop | Invoice #123 due | E2\<newline>'' \<rparr>"
    by code_simp
  with c recording_run_sends_no_update [OF c, of literalRegex "[]" invoiceMessage
      "initialState noTracked" "initialState noTracked" id None None someMailboxes
      "[''E2'']" "[invoiceMessage]" True]
  show ?thesis by simp
qed

section \<open>Lemmas about the ledger files\<close>

subsection \<open>Lines\<close>

lemma splitLines_not_Nil [simp]: "splitLines s \<noteq> []"
  by (induction s) (auto split: list.splits)

lemma splitLines_append_LF:
  "splitLines (a @ CHR 0x0A # b) = splitLines a @ splitLines b"
proof (induction a)
  case Nil
  show ?case by simp
next
  case (Cons c a)
  obtain l ls where sp: "splitLines a = l # ls"
    by (cases "splitLines a") simp_all
  with Cons show ?case by (simp split: list.splits)
qed

lemma splitLines_no_LF: "CHR 0x0A \<notin> set s \<Longrightarrow> splitLines s = [s]"
  by (induction s) auto

lemma in_splitLines_no_LF: "l \<in> set (splitLines s) \<Longrightarrow> CHR 0x0A \<notin> set l"
proof (induction s arbitrary: l)
  case Nil
  then show ?case by simp
next
  case (Cons c s)
  obtain l0 ls where sp: "splitLines s = l0 # ls"
    by (cases "splitLines s") simp_all
  show ?case
  proof (cases "c = CHR 0x0A")
    case True
    with Cons show ?thesis by auto
  next
    case False
    with Cons.prems sp have "l = c # l0 \<or> l \<in> set ls" by simp
    then show ?thesis
    proof
      assume "l = c # l0"
      moreover have "CHR 0x0A \<notin> set l0" using Cons.IH [of l0] sp by simp
      ultimately show ?thesis using False by simp
    next
      assume "l \<in> set ls"
      then show ?thesis using Cons.IH [of l] sp by simp
    qed
  qed
qed

lemma splitLines_join:
  "\<forall>l\<in>set ls. CHR 0x0A \<notin> set l \<Longrightarrow> ls \<noteq> [] \<Longrightarrow> splitLines (join [CHR 0x0A] ls) = ls"
proof (induction "[CHR 0x0A]" ls rule: join.induct)
  case 1
  then show ?case by simp
next
  case (2 x)
  then show ?case by (simp add: splitLines_no_LF)
next
  case (3 x y ys)
  then show ?case
    using splitLines_append_LF [of x "join [CHR 0x0A] (y # ys)"]
    by (simp add: splitLines_no_LF)
qed

lemma splitLines_sections:
  "xs \<noteq> [] \<Longrightarrow>
   splitLines (join [CHR 0x0A, CHR 0x0A] xs @ [CHR 0x0A]) =
     concat (map (\<lambda>x. splitLines x @ [[]]) xs)"
proof (induction "[CHR 0x0A, CHR 0x0A]" xs rule: join.induct)
  case 1
  then show ?case by simp
next
  case (2 x)
  show ?case using splitLines_append_LF [of x "[]"] by simp
next
  case (3 x y ys)
  have "splitLines (x @ CHR 0x0A # (CHR 0x0A # (join [CHR 0x0A, CHR 0x0A] (y # ys) @ [CHR 0x0A]))) =
        splitLines x @ splitLines (CHR 0x0A # (join [CHR 0x0A, CHR 0x0A] (y # ys) @ [CHR 0x0A]))"
    by (rule splitLines_append_LF)
  with 3 show ?case by simp
qed

lemma splitLines_renderSection:
  assumes "CHR 0x0A \<notin> set label" and "\<forall>l\<in>set ls. CHR 0x0A \<notin> set l"
  shows "splitLines (renderSection label ls) =
           headerLine label # (if ls = [] then [[]] else ls)"
proof -
  have h: "CHR 0x0A \<notin> set (headerLine label)"
    using assms(1) by (simp add: headerLine_def marker_def)
  have "splitLines (renderSection label ls) =
          splitLines (headerLine label) @ splitLines (join [CHR 0x0A] ls)"
    using splitLines_append_LF [of "headerLine label" "join [CHR 0x0A] ls"]
    by (simp add: renderSection_def)
  also have "splitLines (headerLine label) = [headerLine label]"
    using h by (rule splitLines_no_LF)
  also have "splitLines (join [CHR 0x0A] ls) = (if ls = [] then [[]] else ls)"
    using assms(2) by (simp add: splitLines_join)
  finally show ?thesis by simp
qed

lemma splitLines_renderFile:
  assumes "secs \<noteq> []"
    and "\<forall>s\<in>set secs. CHR 0x0A \<notin> set (fst s) \<and> (\<forall>l\<in>set (snd s). CHR 0x0A \<notin> set l)"
  shows "splitLines (renderFile secs) = fileLines secs"
proof -
  have "splitLines (renderFile secs) =
          concat (map (\<lambda>x. splitLines x @ [[]]) (map (\<lambda>s. renderSection (fst s) (snd s)) secs))"
    unfolding renderFile_def using assms(1) by (intro splitLines_sections) simp
  also have "\<dots> = concat (map sectionLines secs)"
    using assms(2)
    by (intro arg_cong [where f = concat])
       (simp add: sectionLines_def splitLines_renderSection)
  finally show ?thesis by (simp add: fileLines_def)
qed

subsection \<open>Header lines and labels\<close>

lemma isSpace_simps [simp]:
  "isSpace CHR '' ''" "\<not> isSpace CHR ''=''" "\<not> isSpace CHR ''|''"
  "isSpace CHR 0x0A" "isSpace CHR 0x0D"
  by (simp_all add: isSpace_def)

lemma isHeader_headerLine: "singleLine label \<Longrightarrow> isHeader (headerLine label)"
  by (auto simp: isHeader_def headerLine_def marker_def singleLine_def list_ex_iff
      suffix_def)

lemma isHeader_singleLine: "isHeader line \<Longrightarrow> singleLine line"
  by (auto simp: isHeader_def singleLine_def list_ex_iff)

lemma set_stripTail: "set (stripTail s) \<subseteq> set s"
  by (induction s) auto

lemma set_stripHead: "set (stripHead s) \<subseteq> set s"
  using set_dropWhileD [of _ isSpace "drop 7 s"] set_drop_subset [of 7 s]
  by (auto simp: stripHead_def)

lemma set_labelOf: "set (labelOf line) \<subseteq> set line"
  using set_stripTail [of "stripHead line"] set_stripHead [of line]
  by (auto simp: labelOf_def)

lemma singleLine_labelOf: "isHeader line \<Longrightarrow> singleLine (labelOf line)"
  using set_labelOf [of line] isHeader_singleLine [of line]
  by (auto simp: singleLine_def)

lemma tailMatches_marker: "tailMatches marker"
  by (simp add: tailMatches_def marker_def isSpace_def)

lemma tailMatches_space: "isSpace c \<Longrightarrow> tailMatches (c # t) = tailMatches t"
  by (simp add: tailMatches_def)

lemma stripTail_Nil_iff: "stripTail s = [] \<longleftrightarrow> s = [] \<or> tailMatches s"
  by (cases s) auto

lemma hd_stripTail: "stripTail s \<noteq> [] \<Longrightarrow> hd (stripTail s) = hd s"
  by (cases s) (auto split: if_splits)

lemma last_stripTail:
  "suffix marker s \<Longrightarrow> stripTail s \<noteq> [] \<Longrightarrow> \<not> isSpace (last (stripTail s))"
proof (induction s)
  case Nil
  then show ?case by simp
next
  case (Cons c cs)
  from Cons.prems(2) have nm: "\<not> tailMatches (c # cs)"
    by (auto split: if_splits)
  then have st: "stripTail (c # cs) = c # stripTail cs" by simp
  show ?case
  proof (cases "stripTail cs = []")
    case True
    then have "cs = [] \<or> tailMatches cs" by (simp add: stripTail_Nil_iff)
    moreover have "cs \<noteq> []" using Cons.prems(1) by (auto simp: suffix_def marker_def)
    ultimately have "tailMatches cs" by simp
    with nm have "\<not> isSpace c" using tailMatches_space [of c cs] by auto
    with st True show ?thesis by simp
  next
    case False
    have "suffix marker cs"
    proof -
      from Cons.prems(1) have "suffix marker cs \<or> marker = c # cs"
        by (auto simp: suffix_Cons)
      with nm tailMatches_marker show ?thesis by auto
    qed
    from Cons.IH [OF this False] st False show ?thesis by simp
  qed
qed

lemma length_marker [simp]: "length marker = 7"
  by (simp add: marker_def)

lemma header_shape:
  assumes "isHeader line"
  obtains mid where "line = marker @ mid @ marker"
proof -
  from assms have p: "prefix marker line" and s: "suffix marker line" and n: "14 \<le> length line"
    by (simp_all add: isHeader_def)
  from s obtain q where q: "line = q @ marker" by (auto simp: suffix_def)
  from n q have lq: "7 \<le> length q" by simp
  from p q have "prefix marker q \<or> (\<exists>us. marker = q @ us \<and> prefix us marker)"
    by (simp add: prefix_append)
  then have "prefix marker q"
  proof
    assume "prefix marker q"
    then show ?thesis .
  next
    assume "\<exists>us. marker = q @ us \<and> prefix us marker"
    then obtain us where us: "marker = q @ us" by blast
    then have "length marker = length (q @ us)" by (rule arg_cong)
    then have "7 = length q + length us" by simp
    with lq have "us = []" by simp
    with us show ?thesis by simp
  qed
  then obtain mid where "q = marker @ mid" by (auto simp: prefix_def)
  with q have "line = marker @ mid @ marker" by simp
  then show ?thesis by (rule that)
qed

lemma stripHead_header:
  assumes "isHeader line"
  shows "suffix marker (stripHead line)"
    and "stripHead line \<noteq> [] \<and> \<not> isSpace (hd (stripHead line))"
proof -
  from assms obtain mid where l: "line = marker @ mid @ marker"
    by (rule header_shape)
  have sh: "stripHead line = dropWhile isSpace (mid @ marker)"
    using l by (simp add: stripHead_def)
  have m: "dropWhile isSpace marker = marker" by (simp add: marker_def)
  have dw: "dropWhile isSpace (mid @ marker) =
              (if \<forall>c\<in>set mid. isSpace c then marker else dropWhile isSpace mid @ marker)"
    using m by (simp add: dropWhile_append)
  show "suffix marker (stripHead line)"
    using sh dw by (auto simp: suffix_def)
  have ne: "dropWhile isSpace (mid @ marker) \<noteq> []"
    using dw by (auto simp: marker_def)
  moreover have "\<not> isSpace (hd (dropWhile isSpace (mid @ marker)))"
    using hd_dropWhile [OF ne] .
  ultimately show "stripHead line \<noteq> [] \<and> \<not> isSpace (hd (stripHead line))"
    using sh by simp
qed

lemma plainLabel_labelOf:
  assumes "isHeader line" and "labelOf line \<noteq> []"
  shows "plainLabel (labelOf line)"
proof -
  have "\<not> isSpace (last (labelOf line))"
    using last_stripTail [OF stripHead_header(1) [OF assms(1)]] assms(2)
    by (simp add: labelOf_def)
  moreover have "\<not> isSpace (hd (labelOf line))"
    using hd_stripTail [of "stripHead line"] assms(2) stripHead_header(2) [OF assms(1)]
    by (simp add: labelOf_def)
  ultimately show ?thesis
    using assms singleLine_labelOf [OF assms(1)] by (simp add: plainLabel_def)
qed

lemma not_tailMatches_plain:
  assumes "u \<noteq> []" and "\<not> isSpace (last u)"
  shows "\<not> tailMatches (u @ '' '' @ marker)"
proof
  assume tm: "tailMatches (u @ '' '' @ marker)"
  have ex: "last u \<in> set u" using assms(1) by simp
  define t1 where "t1 = dropWhile isSpace u @ '' '' @ marker"
  have dw: "dropWhile isSpace (u @ '' '' @ marker) = t1"
    using ex assms(2) by (auto simp: dropWhile_append t1_def)
  have ne: "dropWhile isSpace u \<noteq> []"
    using ex assms(2) by (auto simp: dropWhile_eq_Nil_conv)
  have len: "7 < length t1" using ne by (simp add: t1_def)
  have lt: "last t1 = CHR ''=''" by (simp add: t1_def marker_def)
  have "list_all isSpace (drop 7 t1)"
    using tm dw by (simp add: tailMatches_def)
  moreover have "drop 7 t1 \<noteq> []" using len by simp
  moreover have "last (drop 7 t1) = CHR ''=''"
    using len lt by (simp add: last_drop)
  ultimately have "isSpace CHR ''=''"
    by (metis last_in_set list_all_iff)
  then show False by simp
qed

lemma stripTail_plain:
  "u \<noteq> [] \<Longrightarrow> \<not> isSpace (last u) \<Longrightarrow> stripTail (u @ '' '' @ marker) = u"
proof (induction u)
  case Nil
  then show ?case by simp
next
  case (Cons c cs)
  have nm: "\<not> tailMatches ((c # cs) @ '' '' @ marker)"
    using not_tailMatches_plain [OF Cons.prems] .
  show ?case
  proof (cases "cs = []")
    case True
    have "tailMatches ('' '' @ marker)"
      by (simp add: tailMatches_def marker_def isSpace_def)
    with nm True show ?thesis by simp
  next
    case False
    with Cons.prems have "\<not> isSpace (last cs)" by simp
    from Cons.IH [OF False this] nm show ?thesis by simp
  qed
qed

lemma labelOf_headerLine: "plainLabel label \<Longrightarrow> labelOf (headerLine label) = label"
proof -
  assume pl: "plainLabel label"
  then obtain c cs where l: "label = c # cs" and c: "\<not> isSpace c"
    by (cases label) (auto simp: plainLabel_def)
  have "stripHead (headerLine label) = label @ '' '' @ marker"
    using l c by (simp add: stripHead_def headerLine_def)
  then show ?thesis
    using stripTail_plain [of label] pl by (simp add: labelOf_def plainLabel_def)
qed

subsection \<open>Entry lines and from names\<close>

lemma includesStr_append: "includesStr (a @ b @ c) b"
proof (induction a)
  case Nil
  show ?case
  proof (cases "b @ c")
    case Nil
    then show ?thesis by simp
  next
    case (Cons x xs)
    have "prefix b (b @ c)" by simp
    with Cons show ?thesis by simp
  qed
next
  case (Cons x a)
  then show ?case by simp
qed

lemma firstField_sep: "CHR ''|'' \<notin> set n \<Longrightarrow> firstField (n @ sep @ r) = n"
proof (induction n)
  case Nil
  show ?case by (simp add: sep_def)
next
  case (Cons c cs)
  have "\<not> prefix sep ((c # cs) @ sep @ r)"
  proof
    assume a: "prefix sep ((c # cs) @ sep @ r)"
    show False
    proof (cases cs)
      case Nil
      with a show False by (simp add: sep_def)
    next
      case (Cons d ds)
      with a Cons.prems show False by (auto simp: sep_def)
    qed
  qed
  with Cons show ?case by simp
qed

lemma nonBlank_subjectLineOf: "nonBlank (subjectLineOf n s i)"
  by (simp add: nonBlank_def subjectLineOf_def sep_def list_ex_iff)

lemma includesStr_subjectLineOf: "includesStr (subjectLineOf n s i) sep"
  using includesStr_append [of n sep "s @ sep @ i"] by (simp add: subjectLineOf_def)

lemma includesStr_not_Nil: "includesStr l sep \<Longrightarrow> l \<noteq> []"
  by (auto simp: sep_def)

lemma firstField_subjectLineOf:
  "CHR ''|'' \<notin> set n \<Longrightarrow> firstField (subjectLineOf n s i) = n"
  by (simp add: subjectLineOf_def firstField_sep)

lemma singleLine_subjectLineOf:
  "CHR 0x0A \<notin> set n \<Longrightarrow> CHR 0x0A \<notin> set s \<Longrightarrow> CHR 0x0A \<notin> set i \<Longrightarrow>
   CHR 0x0A \<notin> set (subjectLineOf n s i)"
  by (simp add: subjectLineOf_def sep_def)

lemma not_isEntry_blank [simp]: "\<not> isEntry []"
  by (simp add: isEntry_def nonBlank_def)

lemma not_isEntry_header: "isHeader l \<Longrightarrow> \<not> isEntry l"
  by (simp add: isEntry_def)

subsection \<open>The sections before rendering\<close>

lemma sortFromNames_Nil [simp]: "sortFromNames collate names = [] \<longleftrightarrow> names = []"
  by (metis sortFromNames_def length_sort length_0_conv)

lemma dictBuildSections_sectionsOf:
  "dictBuildSections collate content t labels existing =
     map (\<lambda>s. renderSection (fst s) (snd s)) (sectionsOf collate content t labels existing)"
proof (induction labels arbitrary: existing)
  case Nil
  show ?case by simp
next
  case (Cons label labels)
  show ?case
    by (simp add: Let_def case_prod_beta labelSubjects_def labelStep_def Cons.IH)
qed

lemma sectionsOf_no_labels [simp]: "sectionsOf collate content t [] existing = []"
  by simp

lemma dictSaveSubjects_sections:
  "dictSaveSubjects collate True subjectsFile exclusionsFile t =
     (if mergedSections collate subjectsFile exclusionsFile t \<noteq> []
      then Some (renderFile (mergedSections collate subjectsFile exclusionsFile t))
      else None)"
  by (cases "subjectsByLabel t = []")
     (simp_all add: dictSaveSubjects_def Let_def dictBuildSections_sectionsOf mergedSections_def
       existingFromNames0_def renderFile_def)

lemma set_fold_setAdd: "set (fold setAdd xs ys) = set xs \<union> set ys"
  by (induction xs arbitrary: ys) (auto simp: setAdd_def)

lemma set_existingFromNames0:
  "set (existingFromNames0 subjectsFile exclusionsFile) =
     set (contentFromNames (orEmpty subjectsFile)) \<union>
     set (contentFromNames (orEmpty exclusionsFile))"
  by (auto simp: existingFromNames0_def set_fold_setAdd)

subsection \<open>The two readers of \<^verbatim>\<open>subjects.txt\<close>\<close>

lemma labelled_snd: "map snd (labelled ls cur) = filter isEntry ls"
  by (induction ls arbitrary: cur) (auto simp: isEntry_def)

lemma contentFromNames_labelled:
  "contentFromNames content = map (\<lambda>p. firstField (snd p)) (labelled (splitLines content) None)"
proof -
  have "map firstField (map snd (labelled (splitLines content) None)) =
          contentFromNames content"
    by (simp add: labelled_snd contentFromNames_def)
  then show ?thesis by (simp add: comp_def)
qed

lemma contentFromNames_entryLines:
  "contentFromNames content = map firstField (entryLines content)"
  by (simp add: contentFromNames_def entryLines_def)

lemma labelled_in_lines: "p \<in> set (labelled ls cur) \<Longrightarrow> snd p \<in> set ls \<and> isEntry (snd p)"
proof -
  assume "p \<in> set (labelled ls cur)"
  then have "snd p \<in> snd ` set (labelled ls cur)" by (rule imageI)
  also have "snd ` set (labelled ls cur) = set (filter isEntry ls)"
    by (metis set_map labelled_snd)
  finally show ?thesis by simp
qed

lemma dictExistingLines_map_of:
  "map_of (dictExistingLines ls label (cur = Some label) sm) =
     map_of (keyed (under label (labelled ls cur))) ++ map_of sm"
proof (induction ls arbitrary: cur sm)
  case Nil
  show ?case by (simp add: keyed_def under_def)
next
  case (Cons line ls)
  show ?case
  proof (cases "isHeader line")
    case True
    have "(labelOf line = label) = (Some (labelOf line) = Some label)" by simp
    then show ?thesis
      using True Cons.IH [of "Some (labelOf line)" sm] by simp
  next
    case False
    show ?thesis
    proof (cases "nonBlank line \<and> includesStr line sep")
      case noentry: False
      with False Cons.IH [of cur sm] show ?thesis by auto
    next
      case entry: True
      show ?thesis
      proof (cases "cur = Some label")
        case other: False
        with False entry Cons.IH [of cur sm] show ?thesis
          by (simp add: under_def)
      next
        case here: True
        let ?k = "firstField line"
        let ?rest = "map_of (keyed (under label (labelled ls cur)))"
        have k: "map_of (keyed (under label (labelled (line # ls) cur))) = ?rest(?k \<mapsto> line)"
          using False entry here by (intro ext) (simp add: keyed_def under_def)
        show ?thesis
        proof (cases "map_of sm ?k")
          case None
          have "map_of (dictExistingLines (line # ls) label (cur = Some label) sm) =
                  ?rest ++ map_of (AList.update ?k line sm)"
            using False entry here None Cons.IH [of cur "AList.update ?k line sm"] by simp
          also have "\<dots> = ?rest(?k \<mapsto> line) ++ map_of sm"
            using None by (auto simp: update_conv' map_add_def fun_eq_iff split: option.splits)
          finally show ?thesis
            by (simp only: k)
        next
          case (Some l0)
          have "map_of (dictExistingLines (line # ls) label (cur = Some label) sm) =
                  ?rest ++ map_of sm"
            using False entry here Some Cons.IH [of cur sm] by simp
          also have "\<dots> = ?rest(?k \<mapsto> line) ++ map_of sm"
            using Some by (auto simp: map_add_def fun_eq_iff split: option.splits)
          finally show ?thesis
            by (simp only: k)
        qed
      qed
    qed
  qed
qed

lemma oldLines_map_of:
  "map_of (dictExistingLines ls label False []) = map_of (keyed (under label (labelled ls None)))"
  using dictExistingLines_map_of [of ls label None "[]"] by simp

lemma keyed_SomeD:
  "map_of (keyed (under label ps)) n = Some l \<Longrightarrow> (Some label, l) \<in> set ps \<and> firstField l = n"
proof -
  assume "map_of (keyed (under label ps)) n = Some l"
  then have "(n, l) \<in> set (keyed (under label ps))" by (rule map_of_SomeD)
  then show ?thesis by (auto simp: keyed_def under_def)
qed

lemma keyed_dom:
  "(Some label, l) \<in> set ps \<Longrightarrow> \<exists>l'. map_of (keyed (under label ps)) (firstField l) = Some l'"
proof -
  assume "(Some label, l) \<in> set ps"
  then have "firstField l \<in> fst ` set (keyed (under label ps))"
    by (force simp: keyed_def under_def)
  then show ?thesis by (metis domD dom_map_of_conv_image_fst)
qed

subsection \<open>One label of the rewrite\<close>

lemma dictAddNew_existing_mono: "set ex \<subseteq> set (snd (dictAddNew ls (sm, ex)))"
proof (induction ls arbitrary: sm ex)
  case Nil
  show ?case by simp
next
  case (Cons l ls)
  show ?case
    using Cons.IH [where sm = "AList.update (firstField l) l sm" and ex = "setAdd (firstField l) ex"]
      Cons.IH [where sm = sm and ex = ex]
    by (auto simp: setAdd_def)
qed

lemma dictAddNew_existing_keys: "firstField ` set ls \<subseteq> set (snd (dictAddNew ls (sm, ex)))"
proof (induction ls arbitrary: sm ex)
  case Nil
  show ?case by simp
next
  case (Cons l ls)
  show ?case
  proof (cases "firstField l \<in> set ex")
    case True
    with Cons.IH [where sm = sm and ex = ex] dictAddNew_existing_mono [where ex = ex and ls = ls and sm = sm] show ?thesis by auto
  next
    case False
    have "firstField l \<in> set (setAdd (firstField l) ex)" by (simp add: setAdd_def)
    with False Cons.IH [where sm = "AList.update (firstField l) l sm" and ex = "setAdd (firstField l) ex"]
      dictAddNew_existing_mono [where ex = "setAdd (firstField l) ex" and ls = ls and sm = "AList.update (firstField l) l sm"]
    show ?thesis by auto
  qed
qed

lemma dictAddNew_existing_upper:
  "set (snd (dictAddNew ls (sm, ex))) \<subseteq> set ex \<union> firstField ` set ls"
proof (induction ls arbitrary: sm ex)
  case Nil
  show ?case by simp
next
  case (Cons l ls)
  show ?case
    using Cons.IH [where sm = "AList.update (firstField l) l sm" and ex = "setAdd (firstField l) ex"]
      Cons.IH [where sm = sm and ex = ex]
    by (auto simp: setAdd_def split: if_splits)
qed

lemma dictAddNew_map_SomeD:
  "map_of (fst (dictAddNew ls (sm, ex))) n = Some l \<Longrightarrow>
   map_of sm n = Some l \<or> (l \<in> set ls \<and> firstField l = n \<and> n \<notin> set ex)"
proof (induction ls arbitrary: sm ex)
  case Nil
  then show ?case by simp
next
  case (Cons l0 ls)
  show ?case
  proof (cases "firstField l0 \<in> set ex")
    case True
    with Cons.prems Cons.IH [where sm = sm and ex = ex] show ?thesis by auto
  next
    case False
    with Cons.prems
    have "map_of (AList.update (firstField l0) l0 sm) n = Some l \<or>
          (l \<in> set ls \<and> firstField l = n \<and> n \<notin> set (setAdd (firstField l0) ex))"
      using Cons.IH [where sm = "AList.update (firstField l0) l0 sm" and ex = "setAdd (firstField l0) ex"]
      by simp
    with False show ?thesis
      by (auto simp: update_conv' setAdd_def split: if_splits)
  qed
qed

lemma dictAddNew_map_dom_mono:
  "map_of sm n = Some l \<Longrightarrow> \<exists>l'. map_of (fst (dictAddNew ls (sm, ex))) n = Some l'"
proof (induction ls arbitrary: sm ex l)
  case Nil
  then show ?case by simp
next
  case (Cons l0 ls)
  show ?case
  proof (cases "firstField l0 \<in> set ex")
    case True
    with Cons.prems Cons.IH [where sm = sm and l = l and ex = ex] show ?thesis by simp
  next
    case False
    from Cons.prems obtain l1 where
      "map_of (AList.update (firstField l0) l0 sm) n = Some l1"
      by (cases "n = firstField l0") (auto simp: update_conv')
    from Cons.IH [OF this, where ex = "setAdd (firstField l0) ex"] False show ?thesis by simp
  qed
qed

lemma dictAddNew_accepted_in_map:
  "n \<in> set (snd (dictAddNew ls (sm, ex))) \<Longrightarrow> n \<notin> set ex \<Longrightarrow>
   \<exists>l. map_of (fst (dictAddNew ls (sm, ex))) n = Some l"
proof (induction ls arbitrary: sm ex)
  case Nil
  then show ?case by simp
next
  case (Cons l0 ls)
  show ?case
  proof (cases "firstField l0 \<in> set ex")
    case True
    with Cons.prems Cons.IH [where sm = sm and ex = ex] show ?thesis by simp
  next
    case False
    let ?sm = "AList.update (firstField l0) l0 sm"
    let ?ex = "setAdd (firstField l0) ex"
    from False Cons.prems(1) have in1: "n \<in> set (snd (dictAddNew ls (?sm, ?ex)))" by simp
    show ?thesis
    proof (cases "n = firstField l0")
      case True
      have "map_of ?sm n = Some l0" using True by (simp add: update_conv')
      from dictAddNew_map_dom_mono [OF this, where ls = ls and ex = ?ex] False show ?thesis by simp
    next
      case neq: False
      with Cons.prems(2) have "n \<notin> set ?ex" by (simp add: setAdd_def)
      from Cons.IH [OF in1 this] False show ?thesis by simp
    qed
  qed
qed

lemma dictAddNew_all_known:
  "firstField ` set ls \<subseteq> set ex \<Longrightarrow> dictAddNew ls (sm, ex) = (sm, ex)"
  by (induction ls arbitrary: sm ex) auto

lemma labelStep_existing_mono:
  "set ex \<subseteq> set (snd (labelStep content t label ex))"
  by (simp add: labelStep_def dictAddNew_existing_mono)

text \<open>Every line of the map of a label is an old line of that label or a new line of this run.\<close>

lemma labelStep_map_SomeD:
  assumes "map_of (fst (labelStep content t label ex)) n = Some l"
  shows "((Some label, l) \<in> set (labelled (splitLines content) None) \<and> firstField l = n) \<or>
         (\<exists>ls. map_of (subjectLinesByLabel t) label = Some ls \<and> l \<in> set ls \<and>
               firstField l = n \<and> n \<notin> set ex)"
proof -
  from dictAddNew_map_SomeD [OF assms [unfolded labelStep_def]]
  show ?thesis
    using keyed_SomeD [of label "labelled (splitLines content) None" n l]
    by (auto simp: oldLines_map_of split: option.splits)
qed

lemma labelStep_key:
  "map_of (fst (labelStep content t label ex)) n = Some l \<Longrightarrow> firstField l = n"
  using labelStep_map_SomeD by blast

lemma labelStep_old_in_map:
  assumes "(Some label, l) \<in> set (labelled (splitLines content) None)"
  shows "\<exists>l'. map_of (fst (labelStep content t label ex)) (firstField l) = Some l'"
proof -
  from keyed_dom [OF assms] obtain l0 where
    "map_of (dictExistingLines (splitLines content) label False []) (firstField l) = Some l0"
    by (auto simp: oldLines_map_of)
  from dictAddNew_map_dom_mono [OF this] show ?thesis by (simp add: labelStep_def)
qed

text \<open>The lines of a label, when the lines of its map are not empty.\<close>

lemma map_filter_keys:
  assumes "\<forall>n l. m n = Some l \<longrightarrow> f l = n \<and> l \<noteq> []"
  shows "map f (filter (\<lambda>l. l \<noteq> []) (List.map_filter m ns)) = filter (\<lambda>n. m n \<noteq> None) ns"
  using assms by (induction ns) (auto simp: List.map_filter_simps split: option.splits)

lemma set_map_filter_lines:
  assumes "\<forall>n l. m n = Some l \<longrightarrow> l \<noteq> []"
  shows "set (filter (\<lambda>l. l \<noteq> []) (List.map_filter m ns)) = {l. \<exists>n\<in>set ns. m n = Some l}"
  using assms by (induction ns) (auto simp: List.map_filter_simps split: option.splits)

subsection \<open>The recorded names and lines\<close>

lemma trackedWf_noTracked: "trackedWf noTracked"
  by (simp add: trackedWf_def noTracked_def)

lemma map_of_update_Nil:
  "map_of (AList.update k [] al) x = Some v \<Longrightarrow> map_of al x = Some v \<or> v = []"
  by (auto simp: update_conv' split: if_splits)

lemma trackedWfI:
  assumes "distinct (map fst (subjectsByLabel t))"
    and "\<And>label ns. map_of (subjectsByLabel t) label = Some ns \<Longrightarrow> distinct ns"
    and "\<And>label. label \<in> fst ` set (subjectsByLabel t) \<Longrightarrow> singleLine label"
    and "\<And>label ls l. map_of (subjectLinesByLabel t) label = Some ls \<Longrightarrow> l \<in> set ls \<Longrightarrow>
           CHR 0x0A \<notin> set l \<and> includesStr l sep"
  shows "trackedWf t"
  unfolding trackedWf_def using assms by blast

lemma trackedWf_keys: "trackedWf t \<Longrightarrow> distinct (map fst (subjectsByLabel t))"
  by (simp add: trackedWf_def)

lemma trackedWf_names: "trackedWf t \<Longrightarrow> map_of (subjectsByLabel t) label = Some ns \<Longrightarrow> distinct ns"
  unfolding trackedWf_def by blast

lemma trackedWf_labels: "trackedWf t \<Longrightarrow> label \<in> fst ` set (subjectsByLabel t) \<Longrightarrow> singleLine label"
  unfolding trackedWf_def by blast

lemma trackedWf_lines:
  "trackedWf t \<Longrightarrow> map_of (subjectLinesByLabel t) label = Some ls \<Longrightarrow> l \<in> set ls \<Longrightarrow>
   CHR 0x0A \<notin> set l \<and> includesStr l sep"
  unfolding trackedWf_def by blast

lemma trackedWf_dictEnsureLabel:
  assumes "trackedWf t" and "singleLine label"
  shows "trackedWf (dictEnsureLabel label t)"
proof (cases "map_of (subjectsByLabel t) label = None")
  case False
  then have "dictEnsureLabel label t = t" by (auto simp: dictEnsureLabel_def)
  with assms(1) show ?thesis by simp
next
  case True
  let ?t = "t\<lparr> subjectsByLabel := AList.update label [] (subjectsByLabel t),
               subjectLinesByLabel := AList.update label [] (subjectLinesByLabel t) \<rparr>"
  have "trackedWf ?t"
  proof (rule trackedWfI)
    show "distinct (map fst (subjectsByLabel ?t))"
      using trackedWf_keys [OF assms(1)] by (simp add: distinct_update)
  next
    fix l ns
    assume "map_of (subjectsByLabel ?t) l = Some ns"
    then have "map_of (subjectsByLabel t) l = Some ns \<or> ns = []"
      using map_of_update_Nil [of label "subjectsByLabel t" l ns] by simp
    then show "distinct ns"
    proof
      assume "map_of (subjectsByLabel t) l = Some ns"
      then show ?thesis by (rule trackedWf_names [OF assms(1)])
    next
      assume "ns = []"
      then show ?thesis by simp
    qed
  next
    fix l
    assume "l \<in> fst ` set (subjectsByLabel ?t)"
    then have "l = label \<or> l \<in> fst ` set (subjectsByLabel t)"
      by (simp add: dom_update)
    then show "singleLine l"
    proof
      assume "l = label"
      with assms(2) show ?thesis by simp
    next
      assume "l \<in> fst ` set (subjectsByLabel t)"
      then show ?thesis by (rule trackedWf_labels [OF assms(1)])
    qed
  next
    fix l ls x
    assume "map_of (subjectLinesByLabel ?t) l = Some ls" and x: "x \<in> set ls"
    then have "map_of (subjectLinesByLabel t) l = Some ls \<or> ls = []"
      using map_of_update_Nil [of label "subjectLinesByLabel t" l ls] by simp
    with x have "map_of (subjectLinesByLabel t) l = Some ls" by auto
    then show "CHR 0x0A \<notin> set x \<and> includesStr x sep"
      using x by (rule trackedWf_lines [OF assms(1)])
  qed
  with True show ?thesis by (simp add: dictEnsureLabel_def)
qed

lemma map_of_map_entry_SomeD:
  "map_of (AList.map_entry k f al) x = Some v \<Longrightarrow>
   map_of al x = Some v \<or> (x = k \<and> (\<exists>v0. map_of al k = Some v0 \<and> v = f v0))"
  by (auto simp: map_of_map_entry split: if_splits option.splits)

lemma keys_map_entry [simp]: "map fst (AList.map_entry k f al) = map fst al"
  by (induction al) auto

lemma distinct_setAdd: "distinct xs \<Longrightarrow> distinct (setAdd x xs)"
  by (simp add: setAdd_def)

lemma trackedWf_add_name:
  assumes "trackedWf t"
  shows "trackedWf (t\<lparr> subjectsByLabel :=
           AList.map_entry label (setAdd n) (subjectsByLabel t) \<rparr>)"
    (is "trackedWf ?t")
proof (rule trackedWfI)
  show "distinct (map fst (subjectsByLabel ?t))"
    using trackedWf_keys [OF assms] by simp
next
  fix l ns
  assume "map_of (subjectsByLabel ?t) l = Some ns"
  then have "map_of (AList.map_entry label (setAdd n) (subjectsByLabel t)) l = Some ns" by simp
  from map_of_map_entry_SomeD [OF this]
  have "map_of (subjectsByLabel t) l = Some ns \<or>
        (\<exists>v0. map_of (subjectsByLabel t) label = Some v0 \<and> ns = setAdd n v0)" by blast
  then show "distinct ns"
  proof
    assume "map_of (subjectsByLabel t) l = Some ns"
    then show ?thesis by (rule trackedWf_names [OF assms])
  next
    assume "\<exists>v0. map_of (subjectsByLabel t) label = Some v0 \<and> ns = setAdd n v0"
    then obtain v0 where v: "map_of (subjectsByLabel t) label = Some v0" and n: "ns = setAdd n v0"
      by blast
    from trackedWf_names [OF assms v] n show ?thesis by (simp add: distinct_setAdd)
  qed
next
  fix l
  assume "l \<in> fst ` set (subjectsByLabel ?t)"
  then have "l \<in> fst ` set (subjectsByLabel t)" by (simp add: dom_map_entry)
  then show "singleLine l" by (rule trackedWf_labels [OF assms])
next
  fix l ls x
  assume "map_of (subjectLinesByLabel ?t) l = Some ls" and "x \<in> set ls"
  then show "CHR 0x0A \<notin> set x \<and> includesStr x sep"
    using trackedWf_lines [OF assms, of l ls x] by simp
qed

lemma trackedWf_dictLoadLines:
  "trackedWf t \<Longrightarrow> trackedWf (dictLoadLines ls cur t)"
proof (induction ls arbitrary: cur t)
  case Nil
  then show ?case by simp
next
  case (Cons line ls)
  show ?case
  proof (cases "isHeader line")
    case True
    have "trackedWf (dictEnsureLabel (labelOf line) t)"
      using Cons.prems singleLine_labelOf [OF True] by (rule trackedWf_dictEnsureLabel)
    from Cons.IH [OF this] True show ?thesis by simp
  next
    case False
    show ?thesis
    proof (cases "nonBlank line \<and> truthy cur \<and> includesStr line sep")
      case True
      have "trackedWf (t\<lparr> subjectsByLabel :=
              AList.map_entry (orEmpty cur) (setAdd (firstField line)) (subjectsByLabel t) \<rparr>)"
        using Cons.prems by (rule trackedWf_add_name)
      from Cons.IH [OF this] False True show ?thesis by simp
    next
      case no: False
      with False Cons.IH [OF Cons.prems] show ?thesis by auto
    qed
  qed
qed

lemma trackedWf_dictLoadSubjects: "trackedWf (dictLoadSubjects b file)"
  by (simp add: dictLoadSubjects_def trackedWf_noTracked trackedWf_dictLoadLines split: option.splits)

lemma dictEnsureLabel_Some:
  "\<exists>ns. map_of (subjectsByLabel (dictEnsureLabel label t)) label = Some ns"
  by (cases "map_of (subjectsByLabel t) label") (auto simp: dictEnsureLabel_def update_conv')

lemma trackedWf_dictTrackCandidate:
  assumes "trackedWf t" and "singleLineCandidate c"
  shows "trackedWf (dictTrackCandidate c t)"
proof -
  let ?t1 = "dictEnsureLabel (c_label c) t"
  let ?line = "subjectLineOf (c_fromName c) (c_subject c) (c_id c)"
  have w1: "trackedWf ?t1"
    using assms by (intro trackedWf_dictEnsureLabel) (simp_all add: singleLineCandidate_def)
  show ?thesis
  proof (cases "c_fromName c \<in> set (the (map_of (subjectsByLabel ?t1) (c_label c)))")
    case True
    with w1 show ?thesis by (simp add: dictTrackCandidate_def dictTrackSubject_def Let_def)
  next
    case False
    obtain ns where ns: "map_of (subjectsByLabel ?t1) (c_label c) = Some ns"
      using dictEnsureLabel_Some by blast
    with False have nin: "c_fromName c \<notin> set ns" by simp
    have l: "CHR 0x0A \<notin> set ?line \<and> includesStr ?line sep"
      using assms(2) by (simp add: singleLineCandidate_def singleLine_def
          singleLine_subjectLineOf includesStr_subjectLineOf)
    let ?t2 = "?t1\<lparr> subjectsByLabel :=
                     AList.map_entry (c_label c) (\<lambda>names. names @ [c_fromName c])
                       (subjectsByLabel ?t1),
                   subjectLinesByLabel :=
                     AList.map_entry (c_label c) (\<lambda>ls. ls @ [?line])
                       (subjectLinesByLabel ?t1) \<rparr>"
    have "trackedWf ?t2"
    proof (rule trackedWfI)
      show "distinct (map fst (subjectsByLabel ?t2))"
        using trackedWf_keys [OF w1] by simp
    next
      fix l ns'
      assume "map_of (subjectsByLabel ?t2) l = Some ns'"
      then have "map_of (AList.map_entry (c_label c) (\<lambda>names. names @ [c_fromName c])
                (subjectsByLabel ?t1)) l = Some ns'" by simp
      from map_of_map_entry_SomeD [OF this] ns
      have "map_of (subjectsByLabel ?t1) l = Some ns' \<or> ns' = ns @ [c_fromName c]" by auto
      then show "distinct ns'"
      proof
        assume "map_of (subjectsByLabel ?t1) l = Some ns'"
        then show ?thesis by (rule trackedWf_names [OF w1])
      next
        assume "ns' = ns @ [c_fromName c]"
        with trackedWf_names [OF w1 ns] nin show ?thesis by simp
      qed
    next
      fix l
      assume "l \<in> fst ` set (subjectsByLabel ?t2)"
      then have "l \<in> fst ` set (subjectsByLabel ?t1)" by (simp add: dom_map_entry)
      then show "singleLine l" by (rule trackedWf_labels [OF w1])
    next
      fix l0 ls x
      assume "map_of (subjectLinesByLabel ?t2) l0 = Some ls" and x: "x \<in> set ls"
      then have "map_of (AList.map_entry (c_label c) (\<lambda>ls. ls @ [?line])
                (subjectLinesByLabel ?t1)) l0 = Some ls" by simp
      from map_of_map_entry_SomeD [OF this]
      have "map_of (subjectLinesByLabel ?t1) l0 = Some ls \<or>
            (\<exists>v0. map_of (subjectLinesByLabel ?t1) (c_label c) = Some v0 \<and> ls = v0 @ [?line])"
        by blast
      then show "CHR 0x0A \<notin> set x \<and> includesStr x sep"
      proof
        assume "map_of (subjectLinesByLabel ?t1) l0 = Some ls"
        then show ?thesis using x by (rule trackedWf_lines [OF w1])
      next
        assume "\<exists>v0. map_of (subjectLinesByLabel ?t1) (c_label c) = Some v0 \<and> ls = v0 @ [?line]"
        then obtain v0 where v: "map_of (subjectLinesByLabel ?t1) (c_label c) = Some v0"
          and ls: "ls = v0 @ [?line]" by blast
        from x ls have "x \<in> set v0 \<or> x = ?line" by auto
        then show ?thesis
        proof
          assume "x \<in> set v0"
          with v show ?thesis by (rule trackedWf_lines [OF w1])
        next
          assume "x = ?line"
          with l show ?thesis by simp
        qed
      qed
    qed
    with False show ?thesis
      by (simp add: dictTrackCandidate_def dictTrackSubject_def Let_def)
  qed
qed

lemma trackedWf_fold:
  "trackedWf t \<Longrightarrow> list_all singleLineCandidate cands \<Longrightarrow>
   trackedWf (fold dictTrackCandidate cands t)"
  by (induction cands arbitrary: t) (simp_all add: trackedWf_dictTrackCandidate)

subsection \<open>The lines of the sections\<close>

lemma isEntry_not_Nil: "isEntry l \<Longrightarrow> l \<noteq> []"
  by (auto simp: isEntry_def nonBlank_def)

lemma labelStep_line:
  assumes wf: "trackedWf t"
    and m: "map_of (fst (labelStep content t label ex)) n = Some l"
  shows "firstField l = n \<and> l \<noteq> [] \<and> CHR 0x0A \<notin> set l \<and>
         ((Some label, l) \<in> set (labelled (splitLines content) None) \<or>
          (n \<notin> set ex \<and> n \<in> set (snd (labelStep content t label ex))))"
proof -
  from labelStep_map_SomeD [OF m]
  show ?thesis
  proof
    assume old: "(Some label, l) \<in> set (labelled (splitLines content) None) \<and> firstField l = n"
    then have "(Some label, l) \<in> set (labelled (splitLines content) None)" by simp
    from labelled_in_lines [OF this]
    have "l \<in> set (splitLines content)" and "isEntry l" by simp_all
    with old show ?thesis
      using in_splitLines_no_LF [of l content] isEntry_not_Nil [of l] by simp
  next
    assume "\<exists>ls. map_of (subjectLinesByLabel t) label = Some ls \<and> l \<in> set ls \<and>
               firstField l = n \<and> n \<notin> set ex"
    then obtain ls where ls: "map_of (subjectLinesByLabel t) label = Some ls"
      and l: "l \<in> set ls" and k: "firstField l = n" and nin: "n \<notin> set ex"
      by blast
    from trackedWf_lines [OF wf ls l] have a: "CHR 0x0A \<notin> set l" and b: "includesStr l sep"
      by simp_all
    have "firstField l \<in> firstField ` set ls" using l by (rule imageI)
    then have "n \<in> set (snd (labelStep content t label ex))"
      using dictAddNew_existing_keys [where ls = ls
          and sm = "dictExistingLines (splitLines content) label False []" and ex = ex] ls k
      by (auto simp: labelStep_def)
    with a b k nin show ?thesis using includesStr_not_Nil [OF b] by simp
  qed
qed

lemma labelSubjects_keys:
  assumes wf: "trackedWf t"
  shows "map firstField (labelSubjects collate content t label ex) =
           filter (\<lambda>n. map_of (fst (labelStep content t label ex)) n \<noteq> None)
             (sortFromNames collate (the (map_of (subjectsByLabel t) label)))"
  unfolding labelSubjects_def
proof (rule map_filter_keys, intro allI impI)
  fix n l
  assume "map_of (fst (labelStep content t label ex)) n = Some l"
  from labelStep_line [OF wf this] show "firstField l = n \<and> l \<noteq> []" by simp
qed

lemma labelSubjects_distinct:
  assumes wf: "trackedWf t" and ns: "map_of (subjectsByLabel t) label = Some ns"
  shows "distinct (map firstField (labelSubjects collate content t label ex))"
proof -
  have "distinct ns" using wf ns by (rule trackedWf_names)
  then have "distinct (sortFromNames collate ns)" by (simp add: sortFromNames_def)
  then show ?thesis using ns by (simp add: labelSubjects_keys [OF wf])
qed

lemma labelSubjects_line:
  assumes wf: "trackedWf t" and l: "l \<in> set (labelSubjects collate content t label ex)"
  shows "CHR 0x0A \<notin> set l \<and>
         ((Some label, l) \<in> set (labelled (splitLines content) None) \<or>
          (firstField l \<notin> set ex \<and> firstField l \<in> set (snd (labelStep content t label ex))))"
proof -
  from l obtain n where "map_of (fst (labelStep content t label ex)) n = Some l"
    by (auto simp: labelSubjects_def List.map_filter_def)
  from labelStep_line [OF wf this] show ?thesis by auto
qed

lemma labelled_old_name:
  "(cur, l) \<in> set (labelled (splitLines content) None) \<Longrightarrow>
   firstField l \<in> set (contentFromNames content)"
  by (force simp: contentFromNames_labelled)

lemma sectionsOf_line:
  assumes wf: "trackedWf t"
  shows "s \<in> set (sectionsOf collate content t labels ex) \<Longrightarrow> l \<in> set (snd s) \<Longrightarrow>
         fst s \<in> set labels \<and> CHR 0x0A \<notin> set l \<and>
         ((Some (fst s), l) \<in> set (labelled (splitLines content) None) \<or>
          firstField l \<notin> set ex)"
proof (induction labels arbitrary: ex)
  case Nil
  then show ?case by simp
next
  case (Cons label labels)
  let ?ex1 = "snd (labelStep content t label ex)"
  show ?case
  proof (cases "the (map_of (subjectsByLabel t) label) \<noteq> []")
    case False
    with Cons.prems have "s \<in> set (sectionsOf collate content t labels ex)" by simp
    from Cons.IH [OF this Cons.prems(2)] show ?thesis by simp
  next
    case True
    with Cons.prems(1) have
      "s = (label, labelSubjects collate content t label ex) \<or>
       s \<in> set (sectionsOf collate content t labels ?ex1)" by simp
    then show ?thesis
    proof
      assume s: "s = (label, labelSubjects collate content t label ex)"
      with Cons.prems(2) have "l \<in> set (labelSubjects collate content t label ex)" by simp
      from labelSubjects_line [OF wf this] s show ?thesis by auto
    next
      assume "s \<in> set (sectionsOf collate content t labels ?ex1)"
      from Cons.IH [OF this Cons.prems(2)]
      have a: "fst s \<in> set labels" and b: "CHR 0x0A \<notin> set l"
        and c: "(Some (fst s), l) \<in> set (labelled (splitLines content) None) \<or>
                firstField l \<notin> set ?ex1"
        by simp_all
      have "set ex \<subseteq> set ?ex1" by (rule labelStep_existing_mono)
      with a b c show ?thesis by auto
    qed
  qed
qed

lemma sectionsOf_distinct:
  assumes wf: "trackedWf t"
    and old: "distinct (contentFromNames content)"
  shows "distinct labels \<Longrightarrow> set labels \<subseteq> fst ` set (subjectsByLabel t) \<Longrightarrow>
         set (contentFromNames content) \<subseteq> set ex \<Longrightarrow>
         distinct (concat (map (\<lambda>s. map firstField (snd s))
           (sectionsOf collate content t labels ex)))"
proof (induction labels arbitrary: ex)
  case Nil
  show ?case by simp
next
  case (Cons label labels)
  let ?ex1 = "snd (labelStep content t label ex)"
  let ?ls = "labelSubjects collate content t label ex"
  let ?rest = "sectionsOf collate content t labels ?ex1"
  have mono: "set ex \<subseteq> set ?ex1" by (rule labelStep_existing_mono)
  show ?case
  proof (cases "the (map_of (subjectsByLabel t) label) \<noteq> []")
    case False
    with Cons show ?thesis by simp
  next
    case True
    from Cons.prems(2) obtain ns where ns: "map_of (subjectsByLabel t) label = Some ns"
      by (metis list.set_intros(1) subsetD domD dom_map_of_conv_image_fst)
    have d1: "distinct (map firstField ?ls)"
      using wf ns by (rule labelSubjects_distinct)
    have d2: "distinct (concat (map (\<lambda>s. map firstField (snd s)) ?rest))"
      using Cons.prems mono by (intro Cons.IH) auto
    have cross: "firstField l \<noteq> firstField l'"
      if l: "l \<in> set ?ls" and s': "s' \<in> set ?rest" and l': "l' \<in> set (snd s')" for l s' l'
    proof
      assume eq: "firstField l = firstField l'"
      from sectionsOf_line [OF wf s' l']
      have lab: "fst s' \<in> set labels"
        and c': "(Some (fst s'), l') \<in> set (labelled (splitLines content) None) \<or>
                 firstField l' \<notin> set ?ex1"
        by simp_all
      from lab Cons.prems(1) have neq: "fst s' \<noteq> label" by auto
      from labelSubjects_line [OF wf l]
      have c: "(Some label, l) \<in> set (labelled (splitLines content) None) \<or>
               (firstField l \<notin> set ex \<and> firstField l \<in> set ?ex1)"
        by simp
      from c show False
      proof
        assume o: "(Some label, l) \<in> set (labelled (splitLines content) None)"
        from c' show False
        proof
          assume o': "(Some (fst s'), l') \<in> set (labelled (splitLines content) None)"
          have "inj_on (\<lambda>p. firstField (snd p)) (set (labelled (splitLines content) None))"
            using old by (simp add: contentFromNames_labelled distinct_map)
          from inj_onD [OF this _ o o'] eq have "(Some label, l) = (Some (fst s'), l')"
            by simp
          with neq show False by simp
        next
          assume "firstField l' \<notin> set ?ex1"
          moreover have "firstField l \<in> set ?ex1"
            using labelled_old_name [OF o] Cons.prems(3) mono by auto
          ultimately show False using eq by simp
        qed
      next
        assume n: "firstField l \<notin> set ex \<and> firstField l \<in> set ?ex1"
        from c' show False
        proof
          assume o': "(Some (fst s'), l') \<in> set (labelled (splitLines content) None)"
          have "firstField l' \<in> set ex"
            using labelled_old_name [OF o'] Cons.prems(3) by auto
          with n eq show False by simp
        next
          assume "firstField l' \<notin> set ?ex1"
          with n eq show False by simp
        qed
      qed
    qed
    have "set (map firstField ?ls) \<inter>
          set (concat (map (\<lambda>s. map firstField (snd s)) ?rest)) = {}"
      using cross by auto
    with d1 d2 True show ?thesis by simp
  qed
qed

subsection \<open>Reading the rewritten file\<close>

lemma filter_isEntry_sectionLines:
  assumes "singleLine (fst s)"
  shows "filter isEntry (sectionLines s) = filter isEntry (snd s)"
  using not_isEntry_header [OF isHeader_headerLine [OF assms]]
  by (simp add: sectionLines_def)

lemma entryLines_renderFile:
  assumes "secs \<noteq> []"
    and "\<forall>s\<in>set secs. singleLine (fst s) \<and> (\<forall>l\<in>set (snd s). CHR 0x0A \<notin> set l)"
  shows "entryLines (renderFile secs) = filter isEntry (concat (map snd secs))"
proof -
  have "splitLines (renderFile secs) = fileLines secs"
    using assms by (intro splitLines_renderFile) (auto simp: singleLine_def)
  then have "entryLines (renderFile secs) = concat (map (\<lambda>s. filter isEntry (sectionLines s)) secs)"
    by (simp add: entryLines_def fileLines_def filter_concat comp_def)
  also have "\<dots> = concat (map (\<lambda>s. filter isEntry (snd s)) secs)"
    using assms(2) by (intro arg_cong [where f = concat] map_cong refl)
      (simp add: filter_isEntry_sectionLines)
  finally show ?thesis by (simp add: filter_concat comp_def)
qed

lemma sectionsOf_label:
  "s \<in> set (sectionsOf collate content t labels ex) \<Longrightarrow> fst s \<in> set labels"
  by (induction labels arbitrary: ex) (auto split: if_splits)

section \<open>The merge on dictionaries\<close>

lemma dictMerge_sections:
  "dictMerge collate subjectsFile exclusionsFile candidates =
     (let secs = mergedSections collate subjectsFile exclusionsFile
                   (fold dictTrackCandidate candidates (dictLoadSubjects True subjectsFile))
      in if secs \<noteq> [] then Some (renderFile secs) else None)"
  by (simp add: dictMerge_def dictSaveSubjects_sections Let_def)

lemma dictMerge_adds_only_new_senders:
  assumes cands: "list_all singleLineCandidate candidates"
    and after: "after = dictFileAfter subjectsFile
                  (dictMerge collate subjectsFile exclusionsFile candidates)"
  shows "(\<forall>l\<in>set (entryLines (orEmpty after)).
            l \<in> set (entryLines (orEmpty subjectsFile)) \<or>
            (firstField l \<notin> set (contentFromNames (orEmpty subjectsFile)) \<and>
             firstField l \<notin> set (contentFromNames (orEmpty exclusionsFile)))) \<and>
         (distinct (contentFromNames (orEmpty subjectsFile) @
                    contentFromNames (orEmpty exclusionsFile)) \<longrightarrow>
          distinct (contentFromNames (orEmpty after) @
                    contentFromNames (orEmpty exclusionsFile)))"
proof -
  define t where "t = fold dictTrackCandidate candidates (dictLoadSubjects True subjectsFile)"
  define secs where "secs = mergedSections collate subjectsFile exclusionsFile t"
  define content where "content = orEmpty subjectsFile"
  define ex0 where "ex0 = existingFromNames0 subjectsFile exclusionsFile"
  define labels where "labels = sort (map fst (subjectsByLabel t))"
  have wf: "trackedWf t"
    unfolding t_def using trackedWf_dictLoadSubjects cands by (rule trackedWf_fold)
  have secs: "secs = sectionsOf collate content t labels ex0"
    by (simp add: secs_def mergedSections_def content_def ex0_def labels_def)
  have ex0: "set ex0 = set (contentFromNames content) \<union>
                       set (contentFromNames (orEmpty exclusionsFile))"
    by (simp add: ex0_def content_def set_existingFromNames0)
  have dl: "distinct labels"
    using trackedWf_keys [OF wf] by (simp add: labels_def)
  have sl: "set labels \<subseteq> fst ` set (subjectsByLabel t)"
    by (simp add: labels_def)
  show ?thesis
  proof (cases "secs = []")
    case True
    then have "after = subjectsFile"
      using after by (simp add: dictMerge_sections secs_def t_def dictFileAfter_def)
    then show ?thesis by simp
  next
    case False
    then have a: "orEmpty after = renderFile secs"
      using after by (simp add: dictMerge_sections secs_def t_def dictFileAfter_def Let_def)
    have line: "fst s \<in> set labels \<and> CHR 0x0A \<notin> set l \<and>
         ((Some (fst s), l) \<in> set (labelled (splitLines content) None) \<or>
          firstField l \<notin> set ex0)"
      if "s \<in> set secs" and "l \<in> set (snd s)" for s l
      using sectionsOf_line [OF wf that(1) [unfolded secs] that(2)] .
    have "\<forall>s\<in>set secs. singleLine (fst s) \<and> (\<forall>l\<in>set (snd s). CHR 0x0A \<notin> set l)"
    proof (intro ballI conjI)
      fix s
      assume s: "s \<in> set secs"
      have "fst s \<in> set labels"
        using s sl by (cases "snd s") (auto simp: secs dest: sectionsOf_label)
      then show "singleLine (fst s)"
        using sl trackedWf_labels [OF wf] by blast
    next
      fix s l
      assume "s \<in> set secs" and "l \<in> set (snd s)"
      then show "CHR 0x0A \<notin> set l" using line by blast
    qed
    with False have el: "entryLines (renderFile secs) = filter isEntry (concat (map snd secs))"
      by (rule entryLines_renderFile)
    have part1: "\<forall>l\<in>set (entryLines (orEmpty after)).
            l \<in> set (entryLines content) \<or>
            (firstField l \<notin> set (contentFromNames content) \<and>
             firstField l \<notin> set (contentFromNames (orEmpty exclusionsFile)))"
    proof
      fix l
      assume "l \<in> set (entryLines (orEmpty after))"
      then obtain s where s: "s \<in> set secs" and l: "l \<in> set (snd s)"
        using a el by auto
      from line [OF s l]
      have "(Some (fst s), l) \<in> set (labelled (splitLines content) None) \<or>
            firstField l \<notin> set ex0" by simp
      then show "l \<in> set (entryLines content) \<or>
            (firstField l \<notin> set (contentFromNames content) \<and>
             firstField l \<notin> set (contentFromNames (orEmpty exclusionsFile)))"
      proof
        assume "(Some (fst s), l) \<in> set (labelled (splitLines content) None)"
        from labelled_in_lines [OF this] show ?thesis by (simp add: entryLines_def)
      next
        assume "firstField l \<notin> set ex0"
        then show ?thesis by (simp add: ex0)
      qed
    qed
    have part2: "distinct (contentFromNames (orEmpty after) @
                    contentFromNames (orEmpty exclusionsFile))"
      if d: "distinct (contentFromNames content @ contentFromNames (orEmpty exclusionsFile))"
    proof -
      from d have d1: "distinct (contentFromNames content)"
        and d2: "distinct (contentFromNames (orEmpty exclusionsFile))"
        and d3: "set (contentFromNames content) \<inter>
                 set (contentFromNames (orEmpty exclusionsFile)) = {}"
        by simp_all
      have "distinct (concat (map (\<lambda>s. map firstField (snd s)) secs))"
        unfolding secs using wf d1 dl sl by (rule sectionsOf_distinct) (simp add: ex0)
      then have "distinct (map firstField (concat (map snd secs)))"
        by (simp add: map_concat comp_def)
      then have da: "distinct (contentFromNames (orEmpty after))"
        by (simp add: contentFromNames_entryLines a el distinct_map_filter)
      have "set (contentFromNames (orEmpty after)) \<inter>
            set (contentFromNames (orEmpty exclusionsFile)) = {}"
      proof (rule ccontr)
        assume "set (contentFromNames (orEmpty after)) \<inter>
                set (contentFromNames (orEmpty exclusionsFile)) \<noteq> {}"
        then obtain l where l: "l \<in> set (entryLines (orEmpty after))"
          and x: "firstField l \<in> set (contentFromNames (orEmpty exclusionsFile))"
          by (auto simp: contentFromNames_entryLines)
        from part1 l x have "l \<in> set (entryLines content)" by blast
        then have "firstField l \<in> set (contentFromNames content)"
          by (simp add: contentFromNames_entryLines)
        with x d3 show False by blast
      qed
      with da d2 show ?thesis by simp
    qed
    from part1 part2 show ?thesis by (simp add: content_def)
  qed
qed

subsection \<open>Reading a rewritten file again\<close>

lemma isEntry_D: "isEntry l \<Longrightarrow> \<not> isHeader l \<and> nonBlank l \<and> includesStr l sep"
  by (simp add: isEntry_def)

lemma not_isHeader_Nil [simp]: "\<not> isHeader []"
  by (simp add: isHeader_def)

lemma not_nonBlank_Nil [simp]: "\<not> nonBlank []"
  by (simp add: nonBlank_def)

lemma labelled_entries:
  "\<forall>l\<in>set ls. isEntry l \<Longrightarrow>
   labelled (ls @ rest) cur = map (Pair cur) ls @ labelled rest cur"
  by (induction ls) (auto simp: isEntry_def)

lemma labelled_section:
  assumes "plainLabel (fst s)" and "\<forall>l\<in>set (snd s). isEntry l"
  shows "labelled (sectionLines s @ rest) cur =
           map (Pair (Some (fst s))) (snd s) @ labelled rest (Some (fst s))"
proof -
  have h: "isHeader (headerLine (fst s))"
    using assms(1) by (intro isHeader_headerLine) (simp add: plainLabel_def)
  have l: "labelOf (headerLine (fst s)) = fst s"
    using assms(1) by (rule labelOf_headerLine)
  have "labelled (sectionLines s @ rest) cur =
          labelled ((if snd s = [] then [[]] else snd s) @ [] # rest) (Some (fst s))"
    using h l by (simp add: sectionLines_def)
  also have "\<dots> = map (Pair (Some (fst s))) (snd s) @ labelled ([] # rest) (Some (fst s))"
    using labelled_entries [OF assms(2), of "[] # rest" "Some (fst s)"]
    by (cases "snd s = []") simp_all
  finally show ?thesis by simp
qed

lemma labelled_fileLines:
  "\<forall>s\<in>set secs. plainLabel (fst s) \<and> (\<forall>l\<in>set (snd s). isEntry l) \<Longrightarrow>
   labelled (fileLines secs) cur =
     concat (map (\<lambda>s. map (Pair (Some (fst s))) (snd s)) secs)"
proof (induction secs arbitrary: cur)
  case Nil
  show ?case by (simp add: fileLines_def)
next
  case (Cons s secs)
  have "labelled (fileLines (s # secs)) cur = labelled (sectionLines s @ fileLines secs) cur"
    by (simp add: fileLines_def)
  also have "\<dots> = map (Pair (Some (fst s))) (snd s) @ labelled (fileLines secs) (Some (fst s))"
    using Cons.prems by (intro labelled_section) simp_all
  finally show ?case using Cons by simp
qed

lemma update_append_new:
  "k \<notin> fst ` set al \<Longrightarrow> AList.update k v al = al @ [(k, v)]"
  by (induction al) auto

lemma map_entry_append_last:
  "k \<notin> fst ` set al \<Longrightarrow> AList.map_entry k f (al @ [(k, v)]) = al @ [(k, f v)]"
  by (induction al) auto

lemma dictLoadLines_entries:
  assumes "label \<noteq> []" and "label \<notin> fst ` set al"
  shows "\<forall>l\<in>set ls. isEntry l \<Longrightarrow> distinct (ns @ map firstField ls) \<Longrightarrow>
         dictLoadLines (ls @ rest) (Some label)
           \<lparr> subjectsByLabel = al @ [(label, ns)], subjectLinesByLabel = sl \<rparr> =
         dictLoadLines rest (Some label)
           \<lparr> subjectsByLabel = al @ [(label, ns @ map firstField ls)],
             subjectLinesByLabel = sl \<rparr>"
proof (induction ls arbitrary: ns)
  case Nil
  show ?case by simp
next
  case (Cons l ls)
  from Cons.prems(1) have e: "\<not> isHeader l" "nonBlank l" "includesStr l sep"
    by (simp_all add: isEntry_def)
  from Cons.prems(2) have nin: "firstField l \<notin> set ns"
    and d: "distinct ((ns @ [firstField l]) @ map firstField ls)" by auto
  have "dictLoadLines ((l # ls) @ rest) (Some label)
          \<lparr> subjectsByLabel = al @ [(label, ns)], subjectLinesByLabel = sl \<rparr> =
        dictLoadLines (ls @ rest) (Some label)
          \<lparr> subjectsByLabel = al @ [(label, ns @ [firstField l])], subjectLinesByLabel = sl \<rparr>"
    using e assms nin by (simp add: map_entry_append_last setAdd_def)
  also have "\<dots> = dictLoadLines rest (Some label)
          \<lparr> subjectsByLabel = al @ [(label, (ns @ [firstField l]) @ map firstField ls)],
            subjectLinesByLabel = sl \<rparr>"
    using Cons.prems(1) d by (intro Cons.IH) simp_all
  finally show ?case by simp
qed

lemma dictLoadLines_section:
  assumes pl: "plainLabel (fst s)" and en: "\<forall>l\<in>set (snd s). isEntry l"
    and d: "distinct (map firstField (snd s))"
    and k1: "fst s \<notin> fst ` set al"
    and k2: "fst s \<notin> fst ` set sl"
  shows "dictLoadLines (sectionLines s @ rest) cur
           \<lparr> subjectsByLabel = al, subjectLinesByLabel = sl \<rparr> =
         dictLoadLines rest (Some (fst s))
           \<lparr> subjectsByLabel = al @ [(fst s, map firstField (snd s))],
             subjectLinesByLabel = sl @ [(fst s, [])] \<rparr>"
proof -
  let ?L = "fst s"
  have h: "isHeader (headerLine ?L)"
    using pl by (intro isHeader_headerLine) (simp add: plainLabel_def)
  have l: "labelOf (headerLine ?L) = ?L" using pl by (rule labelOf_headerLine)
  have ne: "?L \<noteq> []" using pl by (simp add: plainLabel_def)
  have none: "map_of al ?L = None"
    using k1 by (simp add: map_of_eq_None_iff)
  have el: "dictEnsureLabel ?L \<lparr> subjectsByLabel = al, subjectLinesByLabel = sl \<rparr> =
              \<lparr> subjectsByLabel = al @ [(?L, [])], subjectLinesByLabel = sl @ [(?L, [])] \<rparr>"
    using none k1 k2 by (simp add: dictEnsureLabel_def update_append_new)
  have "dictLoadLines (sectionLines s @ rest) cur \<lparr> subjectsByLabel = al, subjectLinesByLabel = sl \<rparr> =
          dictLoadLines ((if snd s = [] then [[]] else snd s) @ [] # rest) (Some ?L)
            \<lparr> subjectsByLabel = al @ [(?L, [])], subjectLinesByLabel = sl @ [(?L, [])] \<rparr>"
    using h l el by (simp add: sectionLines_def)
  also have "\<dots> = dictLoadLines ([] # rest) (Some ?L)
            \<lparr> subjectsByLabel = al @ [(?L, [] @ map firstField (snd s))],
              subjectLinesByLabel = sl @ [(?L, [])] \<rparr>"
  proof (cases "snd s = []")
    case True
    then show ?thesis by simp
  next
    case False
    have "dictLoadLines (snd s @ [] # rest) (Some ?L)
            \<lparr> subjectsByLabel = al @ [(?L, [])], subjectLinesByLabel = sl @ [(?L, [])] \<rparr> =
          dictLoadLines ([] # rest) (Some ?L)
            \<lparr> subjectsByLabel = al @ [(?L, [] @ map firstField (snd s))],
              subjectLinesByLabel = sl @ [(?L, [])] \<rparr>"
      using ne k1 en d by (intro dictLoadLines_entries) simp_all
    with False show ?thesis by simp
  qed
  finally show ?thesis by simp
qed

lemma dictLoadLines_fileLines:
  "\<forall>s\<in>set secs. plainLabel (fst s) \<and> (\<forall>l\<in>set (snd s). isEntry l) \<and>
      distinct (map firstField (snd s)) \<Longrightarrow>
   distinct (map fst al @ map fst secs) \<Longrightarrow>
   distinct (map fst sl @ map fst secs) \<Longrightarrow>
   dictLoadLines (fileLines secs) cur \<lparr> subjectsByLabel = al, subjectLinesByLabel = sl \<rparr> =
     \<lparr> subjectsByLabel = al @ map (\<lambda>s. (fst s, map firstField (snd s))) secs,
       subjectLinesByLabel = sl @ map (\<lambda>s. (fst s, [])) secs \<rparr>"
proof (induction secs arbitrary: cur al sl)
  case Nil
  show ?case by (simp add: fileLines_def)
next
  case (Cons s secs)
  have "dictLoadLines (fileLines (s # secs)) cur \<lparr> subjectsByLabel = al, subjectLinesByLabel = sl \<rparr> =
        dictLoadLines (sectionLines s @ fileLines secs) cur
          \<lparr> subjectsByLabel = al, subjectLinesByLabel = sl \<rparr>"
    by (simp add: fileLines_def)
  also have "\<dots> = dictLoadLines (fileLines secs) (Some (fst s))
          \<lparr> subjectsByLabel = al @ [(fst s, map firstField (snd s))],
            subjectLinesByLabel = sl @ [(fst s, [])] \<rparr>"
    using Cons.prems by (intro dictLoadLines_section) auto
  also have "\<dots> = \<lparr> subjectsByLabel =
          (al @ [(fst s, map firstField (snd s))]) @
            map (\<lambda>s. (fst s, map firstField (snd s))) secs,
        subjectLinesByLabel = (sl @ [(fst s, [])]) @ map (\<lambda>s. (fst s, [])) secs \<rparr>"
    using Cons.prems by (intro Cons.IH) auto
  finally show ?case by simp
qed

lemma dictLoadSubjects_renderFile:
  assumes "secs \<noteq> []"
    and "\<forall>s\<in>set secs. plainLabel (fst s) \<and> (\<forall>l\<in>set (snd s). isEntry l \<and> CHR 0x0A \<notin> set l) \<and>
           distinct (map firstField (snd s))"
    and "distinct (map fst secs)"
  shows "dictLoadSubjects True (Some (renderFile secs)) =
     \<lparr> subjectsByLabel = map (\<lambda>s. (fst s, map firstField (snd s))) secs,
       subjectLinesByLabel = map (\<lambda>s. (fst s, [])) secs \<rparr>"
proof -
  have "splitLines (renderFile secs) = fileLines secs"
    using assms(1,2) by (intro splitLines_renderFile) (auto simp: plainLabel_def singleLine_def)
  moreover have "dictLoadLines (fileLines secs) None
       \<lparr> subjectsByLabel = [], subjectLinesByLabel = [] \<rparr> =
     \<lparr> subjectsByLabel = [] @ map (\<lambda>s. (fst s, map firstField (snd s))) secs,
       subjectLinesByLabel = [] @ map (\<lambda>s. (fst s, [])) secs \<rparr>"
    using assms(2,3) by (intro dictLoadLines_fileLines) auto
  ultimately show ?thesis by (simp add: dictLoadSubjects_def noTracked_def)
qed

lemma labelled_renderFile:
  assumes "secs \<noteq> []"
    and "\<forall>s\<in>set secs. plainLabel (fst s) \<and> (\<forall>l\<in>set (snd s). isEntry l \<and> CHR 0x0A \<notin> set l)"
  shows "labelled (splitLines (renderFile secs)) None =
           concat (map (\<lambda>s. map (Pair (Some (fst s))) (snd s)) secs)"
proof -
  have "splitLines (renderFile secs) = fileLines secs"
    using assms by (intro splitLines_renderFile) (auto simp: plainLabel_def singleLine_def)
  then show ?thesis using assms(2) by (simp add: labelled_fileLines)
qed

subsection \<open>A second rewrite of a rewritten file\<close>

lemma map_of_keyed_line:
  assumes "distinct (map firstField ls)" and "l \<in> set ls"
  shows "map_of (map (\<lambda>l. (firstField l, l)) ls) (firstField l) = Some l"
proof -
  have "distinct (map fst (map (\<lambda>l. (firstField l, l)) ls))"
    using assms(1) by (simp add: comp_def)
  moreover have "(firstField l, l) \<in> set (map (\<lambda>l. (firstField l, l)) ls)"
    using assms(2) by auto
  ultimately show ?thesis by (rule map_of_is_SomeI)
qed

lemma map_of_keyed_dom:
  "map_of (map (\<lambda>l. (firstField l, l)) ls) n \<noteq> None \<longleftrightarrow> n \<in> set (map firstField ls)"
proof -
  have "map_of (map (\<lambda>l. (firstField l, l)) ls) n = None \<longleftrightarrow>
          n \<notin> fst ` set (map (\<lambda>l. (firstField l, l)) ls)"
    by (rule map_of_eq_None_iff)
  then show ?thesis by (simp add: image_image)
qed

lemma filter_prefix_distinct:
  assumes "prefix ks ns" and "distinct ns"
  shows "filter (\<lambda>n. n \<in> set ks) ns = ks"
proof -
  from assms(1) obtain xs where ns: "ns = ks @ xs" by (auto simp: prefix_def)
  with assms(2) have "set ks \<inter> set xs = {}" by simp
  then have "filter (\<lambda>n. n \<in> set ks) xs = []" by (auto simp: filter_empty_conv)
  with ns show ?thesis by simp
qed

lemma replay_subjects:
  assumes ns: "map_of (subjectsByLabel t) label = Some ns"
    and d: "distinct ns" and p: "prefix (map firstField ls) ns"
    and m: "map_of sm = map_of (map (\<lambda>l. (firstField l, l)) ls)"
    and dk: "distinct (map firstField ls)"
    and so: "sorted (map (\<lambda>l. collate (toLowerCase (firstField l))) ls)"
    and ne: "[] \<notin> set ls"
  shows "filter (\<lambda>l. l \<noteq> [])
           (List.map_filter (map_of sm)
              (sortFromNames collate (the (map_of (subjectsByLabel t) label)))) = ls"
proof -
  let ?k = "\<lambda>n. collate (toLowerCase n)"
  let ?M = "map_of (map (\<lambda>l. (firstField l, l)) ls)"
  let ?keys = "map firstField ls"
  have "filter (\<lambda>n. ?M n \<noteq> None) (sort_key ?k ns) =
          sort_key ?k (filter (\<lambda>n. ?M n \<noteq> None) ns)"
    by (rule filter_sort)
  also have "filter (\<lambda>n. ?M n \<noteq> None) ns = filter (\<lambda>n. n \<in> set ?keys) ns"
    by (simp only: map_of_keyed_dom)
  also have "\<dots> = ?keys" using p d by (rule filter_prefix_distinct)
  also have "sort_key ?k ?keys = ?keys"
    using so by (intro sort_key_id_if_sorted) (simp add: comp_def)
  finally have f: "filter (\<lambda>n. ?M n \<noteq> None) (sort_key ?k ns) = ?keys" .
  have "List.map_filter ?M (sort_key ?k ns) = map (the \<circ> ?M) ?keys"
    by (simp only: List.map_filter_def f)
  also have "\<dots> = map (\<lambda>l. the (?M (firstField l))) ls" by (simp add: comp_def)
  also have "\<dots> = map (\<lambda>l. l) ls"
    using map_of_keyed_line [OF dk] by (intro map_cong refl) simp
  finally have "List.map_filter ?M (sort_key ?k ns) = ls" by simp
  moreover have "\<forall>x\<in>set ls. x \<noteq> []" using ne by auto
  ultimately show ?thesis
    using ns m by (simp add: sortFromNames_def filter_id_conv)
qed

text \<open>
  What makes a run rewrite a list of sections as it is: each label has its names, with
  the from names of its lines in front; its lines are sorted, with distinct names; the
  file has exactly these lines under the label; and no subject line of the run is new.
\<close>

lemma replay_sections:
  assumes all: "\<And>s. s \<in> set secs \<Longrightarrow>
      (\<exists>ns. map_of (subjectsByLabel t) (fst s) = Some ns \<and> ns \<noteq> [] \<and> distinct ns \<and>
            prefix (map firstField (snd s)) ns) \<and>
      (\<forall>ls l. map_of (subjectLinesByLabel t) (fst s) = Some ls \<longrightarrow> l \<in> set ls \<longrightarrow>
            firstField l \<in> set ex) \<and>
      map_of (dictExistingLines (splitLines content) (fst s) False []) =
        map_of (map (\<lambda>l. (firstField l, l)) (snd s)) \<and>
      distinct (map firstField (snd s)) \<and>
      sorted (map (\<lambda>l. collate (toLowerCase (firstField l))) (snd s)) \<and>
      [] \<notin> set (snd s)"
  shows "set ss \<subseteq> set secs \<Longrightarrow> sectionsOf collate content t (map fst ss) ex = ss"
proof (induction ss)
  case Nil
  show ?case by simp
next
  case (Cons s ss)
  from Cons.prems have s: "s \<in> set secs" by simp
  from all [OF s] obtain ns where ns: "map_of (subjectsByLabel t) (fst s) = Some ns"
    and nne: "ns \<noteq> []" and d: "distinct ns" and p: "prefix (map firstField (snd s)) ns"
    by blast
  from all [OF s] have known: "\<forall>ls l. map_of (subjectLinesByLabel t) (fst s) = Some ls \<longrightarrow>
        l \<in> set ls \<longrightarrow> firstField l \<in> set ex"
    and m: "map_of (dictExistingLines (splitLines content) (fst s) False []) =
              map_of (map (\<lambda>l. (firstField l, l)) (snd s))"
    and dk: "distinct (map firstField (snd s))"
    and so: "sorted (map (\<lambda>l. collate (toLowerCase (firstField l))) (snd s))"
    and ne: "[] \<notin> set (snd s)"
    by blast+
  have "firstField ` set (case map_of (subjectLinesByLabel t) (fst s) of
                            None \<Rightarrow> [] | Some ls \<Rightarrow> ls) \<subseteq> set ex"
  proof (cases "map_of (subjectLinesByLabel t) (fst s)")
    case None
    then show ?thesis by simp
  next
    case (Some ls)
    with known have "\<forall>l. l \<in> set ls \<longrightarrow> firstField l \<in> set ex" by blast
    with Some show ?thesis by auto
  qed
  then have step: "labelStep content t (fst s) ex =
                     (dictExistingLines (splitLines content) (fst s) False [], ex)"
    unfolding labelStep_def by (rule dictAddNew_all_known)
  have "labelSubjects collate content t (fst s) ex = snd s"
    unfolding labelSubjects_def step fst_conv
    using ns d p m dk so ne by (rule replay_subjects)
  moreover have "sectionsOf collate content t (map fst ss) ex = ss"
    using Cons.prems by (intro Cons.IH) simp
  ultimately show ?case using ns nne step by simp
qed

subsection \<open>How the recorded names and lines grow\<close>

lemma dictTrackCandidate_cases:
  "dictTrackCandidate c t = dictEnsureLabel (c_label c) t \<or>
   (c_fromName c \<notin> set (the (map_of (subjectsByLabel (dictEnsureLabel (c_label c) t)) (c_label c))) \<and>
    dictTrackCandidate c t =
      (dictEnsureLabel (c_label c) t)
        \<lparr> subjectsByLabel :=
            AList.map_entry (c_label c) (\<lambda>names. names @ [c_fromName c])
              (subjectsByLabel (dictEnsureLabel (c_label c) t)),
          subjectLinesByLabel :=
            AList.map_entry (c_label c) (\<lambda>ls. ls @ [lineOf c])
              (subjectLinesByLabel (dictEnsureLabel (c_label c) t)) \<rparr>)"
  by (simp add: dictTrackCandidate_def dictTrackSubject_def Let_def lineOf_def)

lemma dictEnsureLabel_names:
  "map_of (subjectsByLabel (dictEnsureLabel label t)) l =
     (if l = label \<and> map_of (subjectsByLabel t) label = None then Some []
      else map_of (subjectsByLabel t) l)"
  by (simp add: dictEnsureLabel_def update_conv')

lemma dictEnsureLabel_lines:
  "map_of (subjectLinesByLabel (dictEnsureLabel label t)) l =
     (if l = label \<and> map_of (subjectsByLabel t) label = None then Some []
      else map_of (subjectLinesByLabel t) l)"
  by (simp add: dictEnsureLabel_def update_conv')

lemma dictEnsureLabel_keys:
  "fst ` set (subjectsByLabel (dictEnsureLabel label t)) = insert label (fst ` set (subjectsByLabel t))"
proof (cases "map_of (subjectsByLabel t) label")
  case None
  then show ?thesis by (simp add: dictEnsureLabel_def dom_update)
next
  case (Some ns)
  then have "label \<in> fst ` set (subjectsByLabel t)"
    by (metis domI dom_map_of_conv_image_fst)
  with Some show ?thesis by (auto simp: dictEnsureLabel_def)
qed

lemma dictEnsureLabel_known:
  "label \<in> fst ` set (subjectsByLabel t) \<Longrightarrow> dictEnsureLabel label t = t"
  by (simp add: dictEnsureLabel_def map_of_eq_None_iff)

lemma map_entry_lookup:
  "map_of (AList.map_entry k f al) x =
     (if x = k then map_option f (map_of al k) else map_of al x)"
  by (simp add: map_of_map_entry split: option.splits)

text \<open>The names of a label after one candidate.\<close>

lemma dictTrackCandidate_names:
  assumes "map_of (subjectsByLabel t) label = Some ns"
  shows "map_of (subjectsByLabel (dictTrackCandidate c t)) label = Some ns \<or>
         (label = c_label c \<and> c_fromName c \<notin> set ns \<and>
          map_of (subjectsByLabel (dictTrackCandidate c t)) label = Some (ns @ [c_fromName c]))"
proof -
  let ?t1 = "dictEnsureLabel (c_label c) t"
  have 1: "map_of (subjectsByLabel ?t1) label = Some ns"
    using assms by (auto simp: dictEnsureLabel_names)
  from dictTrackCandidate_cases [of c t] show ?thesis
  proof
    assume "dictTrackCandidate c t = ?t1"
    with 1 show ?thesis by simp
  next
    assume a: "c_fromName c \<notin> set (the (map_of (subjectsByLabel ?t1) (c_label c))) \<and>
      dictTrackCandidate c t = ?t1
        \<lparr> subjectsByLabel :=
            AList.map_entry (c_label c) (\<lambda>names. names @ [c_fromName c]) (subjectsByLabel ?t1),
          subjectLinesByLabel :=
            AList.map_entry (c_label c) (\<lambda>ls. ls @ [lineOf c]) (subjectLinesByLabel ?t1) \<rparr>"
    show ?thesis
    proof (cases "label = c_label c")
      case True
      with a 1 show ?thesis by (simp add: map_entry_lookup)
    next
      case False
      with a 1 show ?thesis by (simp add: map_entry_lookup)
    qed
  qed
qed

lemma dictTrackCandidate_names_prefix:
  assumes "map_of (subjectsByLabel t) label = Some ns"
  shows "\<exists>ns'. map_of (subjectsByLabel (dictTrackCandidate c t)) label = Some ns' \<and> prefix ns ns'"
  using dictTrackCandidate_names [OF assms, of c] by auto

lemma fold_track_names_prefix:
  "map_of (subjectsByLabel t) label = Some ns \<Longrightarrow>
   \<exists>ns'. map_of (subjectsByLabel (fold dictTrackCandidate cands t)) label = Some ns' \<and> prefix ns ns'"
proof (induction cands arbitrary: t ns)
  case Nil
  then show ?case by simp
next
  case (Cons c cands)
  from dictTrackCandidate_names_prefix [OF Cons.prems, of c] obtain ns1 where
    1: "map_of (subjectsByLabel (dictTrackCandidate c t)) label = Some ns1" and p: "prefix ns ns1"
    by blast
  from Cons.IH [OF 1] obtain ns' where
    "map_of (subjectsByLabel (fold dictTrackCandidate cands (dictTrackCandidate c t))) label = Some ns'"
    and "prefix ns1 ns'" by blast
  with p show ?case by (auto intro: prefix_order.trans)
qed

lemma dictTrackCandidate_has_name:
  "\<exists>ns. map_of (subjectsByLabel (dictTrackCandidate c t)) (c_label c) = Some ns \<and> c_fromName c \<in> set ns"
proof -
  let ?t1 = "dictEnsureLabel (c_label c) t"
  obtain ns where ns: "map_of (subjectsByLabel ?t1) (c_label c) = Some ns"
    using dictEnsureLabel_Some by blast
  from dictTrackCandidate_cases [of c t] show ?thesis
  proof
    assume a: "dictTrackCandidate c t = ?t1"
    show ?thesis
    proof (cases "c_fromName c \<in> set ns")
      case True
      with a ns show ?thesis by simp
    next
      case False
      from False ns have "subjectsByLabel (dictTrackCandidate c t) =
          AList.map_entry (c_label c) (\<lambda>names. names @ [c_fromName c]) (subjectsByLabel ?t1)"
        by (simp add: dictTrackCandidate_def dictTrackSubject_def Let_def)
      with ns show ?thesis by (simp add: map_entry_lookup)
    qed
  next
    assume "c_fromName c \<notin> set (the (map_of (subjectsByLabel ?t1) (c_label c))) \<and>
      dictTrackCandidate c t = ?t1
        \<lparr> subjectsByLabel :=
            AList.map_entry (c_label c) (\<lambda>names. names @ [c_fromName c]) (subjectsByLabel ?t1),
          subjectLinesByLabel :=
            AList.map_entry (c_label c) (\<lambda>ls. ls @ [lineOf c]) (subjectLinesByLabel ?t1) \<rparr>"
    with ns show ?thesis by (simp add: map_entry_lookup)
  qed
qed

lemma fold_track_has_name:
  "c \<in> set cands \<Longrightarrow>
   \<exists>ns. map_of (subjectsByLabel (fold dictTrackCandidate cands t)) (c_label c) = Some ns \<and>
        c_fromName c \<in> set ns"
proof (induction cands arbitrary: t)
  case Nil
  then show ?case by simp
next
  case (Cons c0 cands)
  show ?case
  proof (cases "c \<in> set cands")
    case True
    from Cons.IH [OF this] show ?thesis by simp
  next
    case False
    with Cons.prems have c: "c = c0" by simp
    from dictTrackCandidate_has_name [of c t] obtain ns where
      ns: "map_of (subjectsByLabel (dictTrackCandidate c t)) (c_label c) = Some ns"
      and n: "c_fromName c \<in> set ns" by blast
    from fold_track_names_prefix [OF ns, of cands] obtain ns' where
      "map_of (subjectsByLabel (fold dictTrackCandidate cands (dictTrackCandidate c t))) (c_label c) =
         Some ns'" and "prefix ns ns'" by blast
    with n c show ?thesis by (auto dest: set_mono_prefix)
  qed
qed

lemma dictTrackCandidate_keys:
  "fst ` set (subjectsByLabel (dictTrackCandidate c t)) =
     insert (c_label c) (fst ` set (subjectsByLabel t))"
proof -
  have "fst ` set (subjectsByLabel (dictTrackCandidate c t)) =
        fst ` set (subjectsByLabel (dictEnsureLabel (c_label c) t))"
    using dictTrackCandidate_cases [of c t]
  proof
    assume "dictTrackCandidate c t = dictEnsureLabel (c_label c) t"
    then show ?thesis by simp
  next
    assume "c_fromName c \<notin> set (the (map_of (subjectsByLabel (dictEnsureLabel (c_label c) t)) (c_label c))) \<and>
      dictTrackCandidate c t =
      (dictEnsureLabel (c_label c) t)
        \<lparr> subjectsByLabel :=
            AList.map_entry (c_label c) (\<lambda>names. names @ [c_fromName c])
              (subjectsByLabel (dictEnsureLabel (c_label c) t)),
          subjectLinesByLabel :=
            AList.map_entry (c_label c) (\<lambda>ls. ls @ [lineOf c])
              (subjectLinesByLabel (dictEnsureLabel (c_label c) t)) \<rparr>"
    then have "subjectsByLabel (dictTrackCandidate c t) =
        AList.map_entry (c_label c) (\<lambda>names. names @ [c_fromName c])
              (subjectsByLabel (dictEnsureLabel (c_label c) t))" by simp
    then show ?thesis by (simp only: dom_map_entry)
  qed
  then show ?thesis by (simp only: dictEnsureLabel_keys)
qed

lemma dictTrackCandidate_keys_known:
  assumes "c_label c \<in> fst ` set (subjectsByLabel t)"
  shows "map fst (subjectsByLabel (dictTrackCandidate c t)) = map fst (subjectsByLabel t)"
proof -
  have e: "dictEnsureLabel (c_label c) t = t" by (rule dictEnsureLabel_known [OF assms])
  from dictTrackCandidate_cases [of c t] show ?thesis
  proof
    assume "dictTrackCandidate c t = dictEnsureLabel (c_label c) t"
    with e show ?thesis by simp
  next
    assume "c_fromName c \<notin> set (the (map_of (subjectsByLabel (dictEnsureLabel (c_label c) t)) (c_label c))) \<and>
      dictTrackCandidate c t =
      (dictEnsureLabel (c_label c) t)
        \<lparr> subjectsByLabel :=
            AList.map_entry (c_label c) (\<lambda>names. names @ [c_fromName c])
              (subjectsByLabel (dictEnsureLabel (c_label c) t)),
          subjectLinesByLabel :=
            AList.map_entry (c_label c) (\<lambda>ls. ls @ [lineOf c])
              (subjectLinesByLabel (dictEnsureLabel (c_label c) t)) \<rparr>"
    then have "subjectsByLabel (dictTrackCandidate c t) =
        AList.map_entry (c_label c) (\<lambda>names. names @ [c_fromName c])
              (subjectsByLabel (dictEnsureLabel (c_label c) t))" by simp
    with e show ?thesis by (simp add: keys_map_entry)
  qed
qed

lemma fold_track_keys_known:
  "\<forall>c\<in>set cands. c_label c \<in> fst ` set (subjectsByLabel t) \<Longrightarrow>
   map fst (subjectsByLabel (fold dictTrackCandidate cands t)) = map fst (subjectsByLabel t)"
proof (induction cands arbitrary: t)
  case Nil
  show ?case by simp
next
  case (Cons c cands)
  have k: "map fst (subjectsByLabel (dictTrackCandidate c t)) = map fst (subjectsByLabel t)"
    using Cons.prems by (intro dictTrackCandidate_keys_known) simp
  then have "fst ` set (subjectsByLabel (dictTrackCandidate c t)) = fst ` set (subjectsByLabel t)"
    by (metis set_map)
  with Cons.prems have "\<forall>c'\<in>set cands. c_label c' \<in> fst ` set (subjectsByLabel (dictTrackCandidate c t))"
    by simp
  from Cons.IH [OF this] k show ?case by simp
qed

text \<open>The lines of a label after one candidate.\<close>

lemma dictTrackCandidate_lines:
  assumes "map_of (subjectLinesByLabel (dictTrackCandidate c t)) label = Some ls" and "l \<in> set ls"
  shows "(\<exists>ls0. map_of (subjectLinesByLabel t) label = Some ls0 \<and> l \<in> set ls0) \<or>
         (label = c_label c \<and> l = lineOf c)"
proof -
  let ?t1 = "dictEnsureLabel (c_label c) t"
  have e: "(\<exists>ls0. map_of (subjectLinesByLabel t) label = Some ls0 \<and> l \<in> set ls0)"
    if "map_of (subjectLinesByLabel ?t1) label = Some ls1" and "l \<in> set ls1" for ls1
    using that by (auto simp: dictEnsureLabel_lines split: if_splits)
  from dictTrackCandidate_cases [of c t] show ?thesis
  proof
    assume "dictTrackCandidate c t = ?t1"
    with assms e show ?thesis by simp
  next
    assume a: "c_fromName c \<notin> set (the (map_of (subjectsByLabel ?t1) (c_label c))) \<and>
      dictTrackCandidate c t = ?t1
        \<lparr> subjectsByLabel :=
            AList.map_entry (c_label c) (\<lambda>names. names @ [c_fromName c]) (subjectsByLabel ?t1),
          subjectLinesByLabel :=
            AList.map_entry (c_label c) (\<lambda>ls. ls @ [lineOf c]) (subjectLinesByLabel ?t1) \<rparr>"
    then have "map_of (AList.map_entry (c_label c) (\<lambda>ls. ls @ [lineOf c])
                 (subjectLinesByLabel ?t1)) label = Some ls"
      using assms(1) by simp
    from map_of_map_entry_SomeD [OF this]
    have "map_of (subjectLinesByLabel ?t1) label = Some ls \<or>
          (label = c_label c \<and>
           (\<exists>v0. map_of (subjectLinesByLabel ?t1) (c_label c) = Some v0 \<and> ls = v0 @ [lineOf c]))"
      by blast
    then show ?thesis
    proof
      assume "map_of (subjectLinesByLabel ?t1) label = Some ls"
      from e [OF this assms(2)] show ?thesis by simp
    next
      assume "label = c_label c \<and>
           (\<exists>v0. map_of (subjectLinesByLabel ?t1) (c_label c) = Some v0 \<and> ls = v0 @ [lineOf c])"
      then obtain v0 where lab: "label = c_label c"
        and v: "map_of (subjectLinesByLabel ?t1) label = Some v0" and ls: "ls = v0 @ [lineOf c]"
        by auto
      from assms(2) ls have "l \<in> set v0 \<or> l = lineOf c" by auto
      then show ?thesis
      proof
        assume "l \<in> set v0"
        from e [OF v this] show ?thesis by simp
      next
        assume "l = lineOf c"
        with lab show ?thesis by simp
      qed
    qed
  qed
qed

lemma fold_track_lines:
  "map_of (subjectLinesByLabel (fold dictTrackCandidate cands t)) label = Some ls \<Longrightarrow> l \<in> set ls \<Longrightarrow>
   (\<exists>ls0. map_of (subjectLinesByLabel t) label = Some ls0 \<and> l \<in> set ls0) \<or>
   (\<exists>c\<in>set cands. label = c_label c \<and> l = lineOf c)"
proof (induction cands arbitrary: t)
  case Nil
  then show ?case by auto
next
  case (Cons c cands)
  from Cons.IH [of "dictTrackCandidate c t"] Cons.prems
  have "(\<exists>ls0. map_of (subjectLinesByLabel (dictTrackCandidate c t)) label = Some ls0 \<and> l \<in> set ls0) \<or>
        (\<exists>c\<in>set cands. label = c_label c \<and> l = lineOf c)" by simp
  then show ?case
  proof
    assume "\<exists>ls0. map_of (subjectLinesByLabel (dictTrackCandidate c t)) label = Some ls0 \<and> l \<in> set ls0"
    then obtain ls0 where "map_of (subjectLinesByLabel (dictTrackCandidate c t)) label = Some ls0"
      and "l \<in> set ls0" by blast
    from dictTrackCandidate_lines [OF this] show ?thesis by auto
  next
    assume "\<exists>c\<in>set cands. label = c_label c \<and> l = lineOf c"
    then show ?thesis by auto
  qed
qed

subsection \<open>The names and lines of a run with plain candidates\<close>

lemma trackedPlainI:
  assumes "fst ` set (subjectLinesByLabel t) = fst ` set (subjectsByLabel t)"
    and "\<And>label. label \<in> fst ` set (subjectsByLabel t) \<Longrightarrow> label = [] \<or> plainLabel label"
    and "\<And>ns. map_of (subjectsByLabel t) [] = Some ns \<Longrightarrow> ns = []"
    and "\<And>label ls l. map_of (subjectLinesByLabel t) label = Some ls \<Longrightarrow> l \<in> set ls \<Longrightarrow>
           isEntry l \<and> (\<exists>ns. map_of (subjectsByLabel t) label = Some ns \<and> firstField l \<in> set ns)"
  shows "trackedPlain t"
  unfolding trackedPlain_def using assms by blast

lemma trackedPlain_sync:
  "trackedPlain t \<Longrightarrow> fst ` set (subjectLinesByLabel t) = fst ` set (subjectsByLabel t)"
  by (simp add: trackedPlain_def)

lemma trackedPlain_label:
  "trackedPlain t \<Longrightarrow> label \<in> fst ` set (subjectsByLabel t) \<Longrightarrow> label = [] \<or> plainLabel label"
  unfolding trackedPlain_def by blast

lemma trackedPlain_empty:
  "trackedPlain t \<Longrightarrow> map_of (subjectsByLabel t) [] = Some ns \<Longrightarrow> ns = []"
  unfolding trackedPlain_def by blast

lemma trackedPlain_line:
  "trackedPlain t \<Longrightarrow> map_of (subjectLinesByLabel t) label = Some ls \<Longrightarrow> l \<in> set ls \<Longrightarrow>
   isEntry l \<and> (\<exists>ns. map_of (subjectsByLabel t) label = Some ns \<and> firstField l \<in> set ns)"
  unfolding trackedPlain_def by blast

lemma trackedPlain_noTracked: "trackedPlain noTracked"
  by (simp add: trackedPlain_def noTracked_def)

lemma trackedPlain_has_lines:
  assumes "trackedPlain t" and "map_of (subjectsByLabel t) label = Some ns"
  shows "\<exists>ls. map_of (subjectLinesByLabel t) label = Some ls"
proof -
  from assms(2) have "label \<in> fst ` set (subjectsByLabel t)"
    by (metis domI dom_map_of_conv_image_fst)
  then have "label \<in> fst ` set (subjectLinesByLabel t)"
    by (simp only: trackedPlain_sync [OF assms(1)])
  then have "map_of (subjectLinesByLabel t) label \<noteq> None"
    by (simp only: map_of_eq_None_iff) simp
  then show ?thesis by blast
qed

lemma dictEnsureLabel_line_keys:
  "fst ` set (subjectLinesByLabel (dictEnsureLabel label t)) =
     (if map_of (subjectsByLabel t) label = None
      then insert label (fst ` set (subjectLinesByLabel t))
      else fst ` set (subjectLinesByLabel t))"
  by (simp add: dictEnsureLabel_def dom_update)

lemma trackedPlain_dictEnsureLabel:
  assumes pl: "trackedPlain t" and lab: "label = [] \<or> plainLabel label"
  shows "trackedPlain (dictEnsureLabel label t)" (is "trackedPlain ?t")
proof (cases "map_of (subjectsByLabel t) label")
  case (Some ns)
  then have "?t = t" by (simp add: dictEnsureLabel_def)
  with pl show ?thesis by simp
next
  case None
  show ?thesis
  proof (rule trackedPlainI)
    show "fst ` set (subjectLinesByLabel ?t) = fst ` set (subjectsByLabel ?t)"
      using None by (simp only: dictEnsureLabel_line_keys dictEnsureLabel_keys trackedPlain_sync [OF pl]) simp
  next
    fix l
    assume "l \<in> fst ` set (subjectsByLabel ?t)"
    then have "l = label \<or> l \<in> fst ` set (subjectsByLabel t)"
      by (simp only: dictEnsureLabel_keys) simp
    then show "l = [] \<or> plainLabel l"
    proof
      assume "l = label"
      with lab show ?thesis by simp
    next
      assume "l \<in> fst ` set (subjectsByLabel t)"
      then show ?thesis by (rule trackedPlain_label [OF pl])
    qed
  next
    fix ns
    assume a: "map_of (subjectsByLabel ?t) [] = Some ns"
    show "ns = []"
    proof (cases "label = []")
      case True
      with a None show ?thesis by (simp add: dictEnsureLabel_names)
    next
      case False
      with a have "map_of (subjectsByLabel t) [] = Some ns"
        by (simp add: dictEnsureLabel_names split: if_splits)
      then show ?thesis by (rule trackedPlain_empty [OF pl])
    qed
  next
    fix l ls x
    assume a: "map_of (subjectLinesByLabel ?t) l = Some ls" and x: "x \<in> set ls"
    have l: "l \<noteq> label"
    proof
      assume "l = label"
      with a None have "ls = []" by (simp add: dictEnsureLabel_lines)
      with x show False by simp
    qed
    with a have "map_of (subjectLinesByLabel t) l = Some ls"
      by (simp add: dictEnsureLabel_lines split: if_splits)
    from trackedPlain_line [OF pl this x] l
    show "isEntry x \<and> (\<exists>ns. map_of (subjectsByLabel ?t) l = Some ns \<and> firstField x \<in> set ns)"
      by (simp add: dictEnsureLabel_names)
  qed
qed

lemma trackedPlain_add_name:
  assumes pl: "trackedPlain t" and lab: "label \<noteq> []" and f: "\<And>ns. set ns \<subseteq> set (f ns)"
  shows "trackedPlain (t\<lparr> subjectsByLabel := AList.map_entry label f (subjectsByLabel t) \<rparr>)"
    (is "trackedPlain ?t")
proof (rule trackedPlainI)
  show "fst ` set (subjectLinesByLabel ?t) = fst ` set (subjectsByLabel ?t)"
    using trackedPlain_sync [OF pl] by (simp add: dom_map_entry)
next
  fix l
  assume "l \<in> fst ` set (subjectsByLabel ?t)"
  then have "l \<in> fst ` set (subjectsByLabel t)" by (simp add: dom_map_entry)
  then show "l = [] \<or> plainLabel l" by (rule trackedPlain_label [OF pl])
next
  fix ns
  assume "map_of (subjectsByLabel ?t) [] = Some ns"
  with lab have "map_of (subjectsByLabel t) [] = Some ns"
    by (simp add: map_entry_lookup split: if_splits)
  then show "ns = []" by (rule trackedPlain_empty [OF pl])
next
  fix l ls x
  assume "map_of (subjectLinesByLabel ?t) l = Some ls" and x: "x \<in> set ls"
  then have "map_of (subjectLinesByLabel t) l = Some ls" by simp
  from trackedPlain_line [OF pl this x] obtain ns where
    e: "isEntry x" and ns: "map_of (subjectsByLabel t) l = Some ns" and k: "firstField x \<in> set ns"
    by blast
  show "isEntry x \<and> (\<exists>ns. map_of (subjectsByLabel ?t) l = Some ns \<and> firstField x \<in> set ns)"
  proof (cases "l = label")
    case True
    with ns have "map_of (subjectsByLabel ?t) l = Some (f ns)" by (simp add: map_entry_lookup)
    moreover from k f [of ns] have "firstField x \<in> set (f ns)" by blast
    ultimately show ?thesis using e by blast
  next
    case False
    with ns have "map_of (subjectsByLabel ?t) l = Some ns" by (simp add: map_entry_lookup)
    with k e show ?thesis by blast
  qed
qed

lemma trackedPlain_add_line:
  assumes pl: "trackedPlain t" and e: "isEntry x"
    and ns: "map_of (subjectsByLabel t) label = Some ns" and k: "firstField x \<in> set ns"
  shows "trackedPlain (t\<lparr> subjectLinesByLabel :=
           AList.map_entry label (\<lambda>ls. ls @ [x]) (subjectLinesByLabel t) \<rparr>)"
    (is "trackedPlain ?t")
proof (rule trackedPlainI)
  show "fst ` set (subjectLinesByLabel ?t) = fst ` set (subjectsByLabel ?t)"
    using trackedPlain_sync [OF pl] by (simp add: dom_map_entry)
next
  fix l
  assume "l \<in> fst ` set (subjectsByLabel ?t)"
  then have "l \<in> fst ` set (subjectsByLabel t)" by simp
  then show "l = [] \<or> plainLabel l" by (rule trackedPlain_label [OF pl])
next
  fix ns
  assume "map_of (subjectsByLabel ?t) [] = Some ns"
  then have "map_of (subjectsByLabel t) [] = Some ns" by simp
  then show "ns = []" by (rule trackedPlain_empty [OF pl])
next
  fix l ls y
  assume "map_of (subjectLinesByLabel ?t) l = Some ls" and y: "y \<in> set ls"
  then have "map_of (AList.map_entry label (\<lambda>ls. ls @ [x]) (subjectLinesByLabel t)) l = Some ls"
    by simp
  from map_of_map_entry_SomeD [OF this]
  have "map_of (subjectLinesByLabel t) l = Some ls \<or>
        (l = label \<and> (\<exists>v0. map_of (subjectLinesByLabel t) label = Some v0 \<and> ls = v0 @ [x]))"
    by blast
  then have "(\<exists>ls0. map_of (subjectLinesByLabel t) l = Some ls0 \<and> y \<in> set ls0) \<or>
             (l = label \<and> y = x)"
    using y by auto
  then have "isEntry y \<and> (\<exists>ns. map_of (subjectsByLabel t) l = Some ns \<and> firstField y \<in> set ns)"
  proof
    assume "\<exists>ls0. map_of (subjectLinesByLabel t) l = Some ls0 \<and> y \<in> set ls0"
    then obtain ls0 where "map_of (subjectLinesByLabel t) l = Some ls0" and "y \<in> set ls0" by blast
    then show ?thesis by (rule trackedPlain_line [OF pl])
  next
    assume "l = label \<and> y = x"
    with e ns k show ?thesis by simp
  qed
  then show "isEntry y \<and> (\<exists>ns. map_of (subjectsByLabel ?t) l = Some ns \<and> firstField y \<in> set ns)"
    by simp
qed

lemma truthy_orEmpty: "truthy cur \<Longrightarrow> cur = Some (orEmpty cur) \<and> orEmpty cur \<noteq> []"
  by (cases cur) auto

lemma trackedPlain_dictLoadLines:
  "trackedPlain t \<Longrightarrow> trackedPlain (dictLoadLines ls cur t)"
proof (induction ls arbitrary: cur t)
  case Nil
  then show ?case by simp
next
  case (Cons line ls)
  show ?case
  proof (cases "isHeader line")
    case True
    have "labelOf line = [] \<or> plainLabel (labelOf line)"
      using plainLabel_labelOf [OF True] by blast
    with Cons.prems have "trackedPlain (dictEnsureLabel (labelOf line) t)"
      by (rule trackedPlain_dictEnsureLabel)
    from Cons.IH [OF this] True show ?thesis by simp
  next
    case False
    show ?thesis
    proof (cases "nonBlank line \<and> truthy cur \<and> includesStr line sep")
      case True
      then have "orEmpty cur \<noteq> []" by (simp add: truthy_orEmpty)
      with Cons.prems have "trackedPlain (t\<lparr> subjectsByLabel :=
              AList.map_entry (orEmpty cur) (setAdd (firstField line)) (subjectsByLabel t) \<rparr>)"
        by (rule trackedPlain_add_name) (auto simp: setAdd_def)
      from Cons.IH [OF this] False True show ?thesis by simp
    next
      case no: False
      with False Cons.IH [OF Cons.prems] show ?thesis by auto
    qed
  qed
qed

lemma trackedPlain_dictLoadSubjects: "trackedPlain (dictLoadSubjects b file)"
  by (simp add: dictLoadSubjects_def trackedPlain_noTracked trackedPlain_dictLoadLines split: option.splits)

lemma isEntry_lineOf: "plainCandidate c \<Longrightarrow> isEntry (lineOf c) \<and> firstField (lineOf c) = c_fromName c"
  by (simp add: plainCandidate_def lineOf_def isEntry_def nonBlank_subjectLineOf
      includesStr_subjectLineOf firstField_subjectLineOf)

lemma trackedPlain_dictTrackCandidate:
  assumes pl: "trackedPlain t" and c: "plainCandidate c"
  shows "trackedPlain (dictTrackCandidate c t)"
proof -
  let ?t1 = "dictEnsureLabel (c_label c) t"
  let ?t2 = "?t1\<lparr> subjectsByLabel :=
            AList.map_entry (c_label c) (\<lambda>names. names @ [c_fromName c]) (subjectsByLabel ?t1) \<rparr>"
  have lab: "plainLabel (c_label c)" using c by (simp add: plainCandidate_def)
  then have ne: "c_label c \<noteq> []" by (simp add: plainLabel_def)
  have 1: "trackedPlain ?t1" using pl lab by (intro trackedPlain_dictEnsureLabel) simp_all
  from dictTrackCandidate_cases [of c t] show ?thesis
  proof
    assume "dictTrackCandidate c t = ?t1"
    with 1 show ?thesis by simp
  next
    assume a: "c_fromName c \<notin> set (the (map_of (subjectsByLabel ?t1) (c_label c))) \<and>
      dictTrackCandidate c t = ?t1
        \<lparr> subjectsByLabel :=
            AList.map_entry (c_label c) (\<lambda>names. names @ [c_fromName c]) (subjectsByLabel ?t1),
          subjectLinesByLabel :=
            AList.map_entry (c_label c) (\<lambda>ls. ls @ [lineOf c]) (subjectLinesByLabel ?t1) \<rparr>"
    have 2: "trackedPlain ?t2" using 1 ne by (rule trackedPlain_add_name) auto
    obtain ns where ns: "map_of (subjectsByLabel ?t1) (c_label c) = Some ns"
      using dictEnsureLabel_Some by blast
    then have ns2: "map_of (subjectsByLabel ?t2) (c_label c) = Some (ns @ [c_fromName c])"
      by (simp add: map_entry_lookup)
    have "trackedPlain (?t2\<lparr> subjectLinesByLabel :=
           AList.map_entry (c_label c) (\<lambda>ls. ls @ [lineOf c]) (subjectLinesByLabel ?t2) \<rparr>)"
      using 2 _ ns2
    proof (rule trackedPlain_add_line)
      show "isEntry (lineOf c)" using isEntry_lineOf [OF c] by simp
      show "firstField (lineOf c) \<in> set (ns @ [c_fromName c])" using isEntry_lineOf [OF c] by simp
    qed
    with a show ?thesis by simp
  qed
qed

lemma trackedPlain_fold:
  "trackedPlain t \<Longrightarrow> list_all plainCandidate cands \<Longrightarrow>
   trackedPlain (fold dictTrackCandidate cands t)"
proof (induction cands arbitrary: t)
  case Nil
  then show ?case by simp
next
  case (Cons c cands)
  from Cons.prems have "trackedPlain (dictTrackCandidate c t)"
    by (intro trackedPlain_dictTrackCandidate) simp_all
  from Cons.IH [OF this] Cons.prems show ?case by simp
qed

text \<open>A recorded name was there before, or a candidate brought it with its line.\<close>

lemma dictTrackCandidate_keeps_line:
  assumes pl: "trackedPlain t" and ls: "map_of (subjectLinesByLabel t) label = Some ls"
    and x: "x \<in> set ls"
  shows "\<exists>ls'. map_of (subjectLinesByLabel (dictTrackCandidate c t)) label = Some ls' \<and> x \<in> set ls'"
proof -
  let ?t1 = "dictEnsureLabel (c_label c) t"
  from trackedPlain_line [OF pl ls x] obtain ns where "map_of (subjectsByLabel t) label = Some ns"
    by blast
  with ls have 1: "map_of (subjectLinesByLabel ?t1) label = Some ls"
    by (auto simp: dictEnsureLabel_lines)
  from dictTrackCandidate_cases [of c t] show ?thesis
  proof
    assume "dictTrackCandidate c t = ?t1"
    with 1 x show ?thesis by simp
  next
    assume a: "c_fromName c \<notin> set (the (map_of (subjectsByLabel ?t1) (c_label c))) \<and>
      dictTrackCandidate c t = ?t1
        \<lparr> subjectsByLabel :=
            AList.map_entry (c_label c) (\<lambda>names. names @ [c_fromName c]) (subjectsByLabel ?t1),
          subjectLinesByLabel :=
            AList.map_entry (c_label c) (\<lambda>ls. ls @ [lineOf c]) (subjectLinesByLabel ?t1) \<rparr>"
    show ?thesis
    proof (cases "label = c_label c")
      case True
      with a 1 x show ?thesis by (simp add: map_entry_lookup)
    next
      case False
      with a 1 x show ?thesis by (simp add: map_entry_lookup)
    qed
  qed
qed

lemma fold_track_keeps_line:
  "trackedPlain t \<Longrightarrow> list_all plainCandidate cands \<Longrightarrow>
   map_of (subjectLinesByLabel t) label = Some ls \<Longrightarrow> x \<in> set ls \<Longrightarrow>
   \<exists>ls'. map_of (subjectLinesByLabel (fold dictTrackCandidate cands t)) label = Some ls' \<and> x \<in> set ls'"
proof (induction cands arbitrary: t ls)
  case Nil
  then show ?case by simp
next
  case (Cons c cands)
  from Cons.prems(1,2) have pl: "trackedPlain (dictTrackCandidate c t)"
    by (intro trackedPlain_dictTrackCandidate) simp_all
  from dictTrackCandidate_keeps_line [OF Cons.prems(1,3,4), of c] obtain ls1 where
    1: "map_of (subjectLinesByLabel (dictTrackCandidate c t)) label = Some ls1" and 2: "x \<in> set ls1"
    by blast
  from Cons.prems(2) have "list_all plainCandidate cands" by simp
  from Cons.IH [OF pl this 1 2] show ?case by simp
qed

lemma dictTrackCandidate_name_origin:
  assumes pl: "trackedPlain t" and c: "plainCandidate c"
    and ns: "map_of (subjectsByLabel (dictTrackCandidate c t)) label = Some ns" and n: "n \<in> set ns"
  shows "(\<exists>ns0. map_of (subjectsByLabel t) label = Some ns0 \<and> n \<in> set ns0) \<or>
         (label = c_label c \<and> n = c_fromName c \<and>
          (\<exists>ls. map_of (subjectLinesByLabel (dictTrackCandidate c t)) label = Some ls \<and>
                lineOf c \<in> set ls))"
proof -
  let ?t1 = "dictEnsureLabel (c_label c) t"
  have lab: "c_label c = [] \<or> plainLabel (c_label c)" using c by (simp add: plainCandidate_def)
  have pl1: "trackedPlain ?t1" using pl lab by (rule trackedPlain_dictEnsureLabel)
  have e: "\<exists>ns0. map_of (subjectsByLabel t) label = Some ns0 \<and> n \<in> set ns0"
    if "map_of (subjectsByLabel ?t1) label = Some ns1" and "n \<in> set ns1" for ns1
    using that by (auto simp: dictEnsureLabel_names split: if_splits)
  from dictTrackCandidate_cases [of c t] show ?thesis
  proof
    assume "dictTrackCandidate c t = ?t1"
    with ns n e show ?thesis by simp
  next
    assume a: "c_fromName c \<notin> set (the (map_of (subjectsByLabel ?t1) (c_label c))) \<and>
      dictTrackCandidate c t = ?t1
        \<lparr> subjectsByLabel :=
            AList.map_entry (c_label c) (\<lambda>names. names @ [c_fromName c]) (subjectsByLabel ?t1),
          subjectLinesByLabel :=
            AList.map_entry (c_label c) (\<lambda>ls. ls @ [lineOf c]) (subjectLinesByLabel ?t1) \<rparr>"
    then have "map_of (AList.map_entry (c_label c) (\<lambda>names. names @ [c_fromName c])
                 (subjectsByLabel ?t1)) label = Some ns"
      using ns by simp
    from map_of_map_entry_SomeD [OF this]
    have "map_of (subjectsByLabel ?t1) label = Some ns \<or>
          (label = c_label c \<and>
           (\<exists>v0. map_of (subjectsByLabel ?t1) (c_label c) = Some v0 \<and> ns = v0 @ [c_fromName c]))"
      by blast
    then show ?thesis
    proof
      assume "map_of (subjectsByLabel ?t1) label = Some ns"
      from e [OF this n] show ?thesis by simp
    next
      assume "label = c_label c \<and>
           (\<exists>v0. map_of (subjectsByLabel ?t1) (c_label c) = Some v0 \<and> ns = v0 @ [c_fromName c])"
      then obtain v0 where l: "label = c_label c"
        and v0: "map_of (subjectsByLabel ?t1) label = Some v0" and nsv: "ns = v0 @ [c_fromName c]"
        by auto
      from n nsv have "n \<in> set v0 \<or> n = c_fromName c" by auto
      then show ?thesis
      proof
        assume "n \<in> set v0"
        from e [OF v0 this] show ?thesis by simp
      next
        assume nn: "n = c_fromName c"
        from trackedPlain_has_lines [OF pl1 v0] obtain ls1 where
          "map_of (subjectLinesByLabel ?t1) label = Some ls1" by blast
        with a l have "map_of (subjectLinesByLabel (dictTrackCandidate c t)) label =
            Some (ls1 @ [lineOf c])"
          by (simp add: map_entry_lookup)
        with l nn show ?thesis by simp
      qed
    qed
  qed
qed

lemma fold_track_name_origin:
  "trackedPlain t \<Longrightarrow> list_all plainCandidate cands \<Longrightarrow>
   map_of (subjectsByLabel (fold dictTrackCandidate cands t)) label = Some ns \<Longrightarrow> n \<in> set ns \<Longrightarrow>
   (\<exists>ns0. map_of (subjectsByLabel t) label = Some ns0 \<and> n \<in> set ns0) \<or>
   (\<exists>c\<in>set cands. label = c_label c \<and> n = c_fromName c \<and>
      (\<exists>ls. map_of (subjectLinesByLabel (fold dictTrackCandidate cands t)) label = Some ls \<and>
            lineOf c \<in> set ls))"
proof (induction cands arbitrary: t)
  case Nil
  then show ?case by auto
next
  case (Cons c cands)
  from Cons.prems(2) have c: "plainCandidate c" and cs: "list_all plainCandidate cands" by simp_all
  have pl: "trackedPlain (dictTrackCandidate c t)"
    using Cons.prems(1) c by (rule trackedPlain_dictTrackCandidate)
  from Cons.prems(3,4) have
    "map_of (subjectsByLabel (fold dictTrackCandidate cands (dictTrackCandidate c t))) label = Some ns"
    and "n \<in> set ns" by simp_all
  from Cons.IH [OF pl cs this]
  have "(\<exists>ns0. map_of (subjectsByLabel (dictTrackCandidate c t)) label = Some ns0 \<and> n \<in> set ns0) \<or>
        (\<exists>c'\<in>set cands. label = c_label c' \<and> n = c_fromName c' \<and>
          (\<exists>ls. map_of (subjectLinesByLabel (fold dictTrackCandidate cands (dictTrackCandidate c t))) label =
                  Some ls \<and> lineOf c' \<in> set ls))" .
  then show ?case
  proof
    assume "\<exists>ns0. map_of (subjectsByLabel (dictTrackCandidate c t)) label = Some ns0 \<and> n \<in> set ns0"
    then obtain ns0 where "map_of (subjectsByLabel (dictTrackCandidate c t)) label = Some ns0"
      and "n \<in> set ns0" by blast
    from dictTrackCandidate_name_origin [OF Cons.prems(1) c this]
    show ?thesis
    proof
      assume "\<exists>ns0. map_of (subjectsByLabel t) label = Some ns0 \<and> n \<in> set ns0"
      then show ?thesis by simp
    next
      assume "label = c_label c \<and> n = c_fromName c \<and>
          (\<exists>ls. map_of (subjectLinesByLabel (dictTrackCandidate c t)) label = Some ls \<and>
                lineOf c \<in> set ls)"
      then obtain ls where l: "label = c_label c" "n = c_fromName c"
        and ls: "map_of (subjectLinesByLabel (dictTrackCandidate c t)) label = Some ls"
        and x: "lineOf c \<in> set ls" by blast
      from fold_track_keeps_line [OF pl cs ls x] l show ?thesis by auto
    qed
  next
    assume "\<exists>c'\<in>set cands. label = c_label c' \<and> n = c_fromName c' \<and>
          (\<exists>ls. map_of (subjectLinesByLabel (fold dictTrackCandidate cands (dictTrackCandidate c t))) label =
                  Some ls \<and> lineOf c' \<in> set ls)"
    then show ?thesis by auto
  qed
qed

subsection \<open>The names that loading records\<close>

lemma dictLoadLines_names_mono:
  "map_of (subjectsByLabel t) label = Some ns0 \<Longrightarrow>
   \<exists>ns. map_of (subjectsByLabel (dictLoadLines ls cur t)) label = Some ns \<and> set ns0 \<subseteq> set ns"
proof (induction ls arbitrary: cur t ns0)
  case Nil
  then show ?case by simp
next
  case (Cons line ls)
  show ?case
  proof (cases "isHeader line")
    case True
    from Cons.prems have "map_of (subjectsByLabel (dictEnsureLabel (labelOf line) t)) label = Some ns0"
      by (auto simp: dictEnsureLabel_names)
    from Cons.IH [OF this] True show ?thesis by simp
  next
    case False
    show ?thesis
    proof (cases "nonBlank line \<and> truthy cur \<and> includesStr line sep")
      case True
      let ?t = "t\<lparr> subjectsByLabel :=
              AList.map_entry (orEmpty cur) (setAdd (firstField line)) (subjectsByLabel t) \<rparr>"
      have "\<exists>ns1. map_of (subjectsByLabel ?t) label = Some ns1 \<and> set ns0 \<subseteq> set ns1"
      proof (cases "label = orEmpty cur")
        case True
        with Cons.prems have "map_of (subjectsByLabel ?t) label = Some (setAdd (firstField line) ns0)"
          by (simp add: map_entry_lookup)
        moreover have "set ns0 \<subseteq> set (setAdd (firstField line) ns0)"
          by (auto simp: setAdd_def)
        ultimately show ?thesis by blast
      next
        case False
        with Cons.prems show ?thesis by (simp add: map_entry_lookup)
      qed
      then obtain ns1 where 1: "map_of (subjectsByLabel ?t) label = Some ns1"
        and 2: "set ns0 \<subseteq> set ns1" by blast
      from Cons.IH [OF 1] obtain ns where
        "map_of (subjectsByLabel (dictLoadLines ls cur ?t)) label = Some ns" and "set ns1 \<subseteq> set ns"
        by blast
      with 2 False True show ?thesis by auto
    next
      case no: False
      with False Cons.IH [OF Cons.prems] show ?thesis by auto
    qed
  qed
qed

lemma dictLoadLines_name_origin:
  "map_of (subjectsByLabel (dictLoadLines ls cur t)) label = Some ns \<Longrightarrow> n \<in> set ns \<Longrightarrow>
   (\<exists>ns0. map_of (subjectsByLabel t) label = Some ns0 \<and> n \<in> set ns0) \<or>
   (\<exists>l. (Some label, l) \<in> set (labelled ls cur) \<and> firstField l = n)"
proof (induction ls arbitrary: cur t)
  case Nil
  then show ?case by simp
next
  case (Cons line ls)
  show ?case
  proof (cases "isHeader line")
    case True
    let ?t = "dictEnsureLabel (labelOf line) t"
    from Cons.prems True have
      "map_of (subjectsByLabel (dictLoadLines ls (Some (labelOf line)) ?t)) label = Some ns" by simp
    from Cons.IH [OF this Cons.prems(2)]
    have "(\<exists>ns0. map_of (subjectsByLabel ?t) label = Some ns0 \<and> n \<in> set ns0) \<or>
          (\<exists>l. (Some label, l) \<in> set (labelled ls (Some (labelOf line))) \<and> firstField l = n)" .
    then show ?thesis
    proof
      assume "\<exists>ns0. map_of (subjectsByLabel ?t) label = Some ns0 \<and> n \<in> set ns0"
      then have "\<exists>ns0. map_of (subjectsByLabel t) label = Some ns0 \<and> n \<in> set ns0"
        by (auto simp: dictEnsureLabel_names split: if_splits)
      then show ?thesis by simp
    next
      assume "\<exists>l. (Some label, l) \<in> set (labelled ls (Some (labelOf line))) \<and> firstField l = n"
      with True show ?thesis by simp
    qed
  next
    case False
    show ?thesis
    proof (cases "nonBlank line \<and> truthy cur \<and> includesStr line sep")
      case True
      let ?t = "t\<lparr> subjectsByLabel :=
              AList.map_entry (orEmpty cur) (setAdd (firstField line)) (subjectsByLabel t) \<rparr>"
      from Cons.prems False True have
        "map_of (subjectsByLabel (dictLoadLines ls cur ?t)) label = Some ns" by simp
      from Cons.IH [OF this Cons.prems(2)]
      have "(\<exists>ns0. map_of (subjectsByLabel ?t) label = Some ns0 \<and> n \<in> set ns0) \<or>
            (\<exists>l. (Some label, l) \<in> set (labelled ls cur) \<and> firstField l = n)" .
      then show ?thesis
      proof
        assume "\<exists>ns0. map_of (subjectsByLabel ?t) label = Some ns0 \<and> n \<in> set ns0"
        then obtain ns0 where
          "map_of (AList.map_entry (orEmpty cur) (setAdd (firstField line)) (subjectsByLabel t))
             label = Some ns0" and n0: "n \<in> set ns0" by auto
        from map_of_map_entry_SomeD [OF this(1)]
        have "map_of (subjectsByLabel t) label = Some ns0 \<or>
              (label = orEmpty cur \<and>
               (\<exists>v0. map_of (subjectsByLabel t) (orEmpty cur) = Some v0 \<and>
                     ns0 = setAdd (firstField line) v0))" by blast
        then show ?thesis
        proof
          assume "map_of (subjectsByLabel t) label = Some ns0"
          with n0 show ?thesis by simp
        next
          assume "label = orEmpty cur \<and>
               (\<exists>v0. map_of (subjectsByLabel t) (orEmpty cur) = Some v0 \<and>
                     ns0 = setAdd (firstField line) v0)"
          then obtain v0 where l: "label = orEmpty cur"
            and v0: "map_of (subjectsByLabel t) label = Some v0"
            and s: "ns0 = setAdd (firstField line) v0" by auto
          from n0 s have "n \<in> set v0 \<or> n = firstField line"
            by (auto simp: setAdd_def split: if_splits)
          then show ?thesis
          proof
            assume "n \<in> set v0"
            with v0 show ?thesis by simp
          next
            assume nn: "n = firstField line"
            from True l have "cur = Some label" using truthy_orEmpty [of cur] by simp
            with False True nn show ?thesis by auto
          qed
        qed
      next
        assume "\<exists>l. (Some label, l) \<in> set (labelled ls cur) \<and> firstField l = n"
        with False True show ?thesis by auto
      qed
    next
      case no: False
      with False Cons.prems have
        "map_of (subjectsByLabel (dictLoadLines ls cur t)) label = Some ns" by auto
      from Cons.IH [OF this Cons.prems(2)]
      have "(\<exists>ns0. map_of (subjectsByLabel t) label = Some ns0 \<and> n \<in> set ns0) \<or>
            (\<exists>l. (Some label, l) \<in> set (labelled ls cur) \<and> firstField l = n)" .
      then show ?thesis
      proof
        assume "\<exists>ns0. map_of (subjectsByLabel t) label = Some ns0 \<and> n \<in> set ns0"
        then show ?thesis by simp
      next
        assume "\<exists>l. (Some label, l) \<in> set (labelled ls cur) \<and> firstField l = n"
        then obtain l where "(Some label, l) \<in> set (labelled ls cur)" and "firstField l = n"
          by blast
        then have "(Some label, l) \<in> set (labelled (line # ls) cur)"
          using False by simp
        with \<open>firstField l = n\<close> show ?thesis by blast
      qed
    qed
  qed
qed

lemma dictLoadLines_has_name:
  "(Some label, l) \<in> set (labelled ls cur) \<Longrightarrow> label \<noteq> [] \<Longrightarrow>
   (cur = Some label \<longrightarrow> label \<in> fst ` set (subjectsByLabel t)) \<Longrightarrow>
   \<exists>ns. map_of (subjectsByLabel (dictLoadLines ls cur t)) label = Some ns \<and> firstField l \<in> set ns"
proof (induction ls arbitrary: cur t)
  case Nil
  then show ?case by simp
next
  case (Cons line ls)
  show ?case
  proof (cases "isHeader line")
    case True
    let ?t = "dictEnsureLabel (labelOf line) t"
    from Cons.prems(1) True have 1: "(Some label, l) \<in> set (labelled ls (Some (labelOf line)))"
      by simp
    have 2: "Some (labelOf line) = Some label \<longrightarrow> label \<in> fst ` set (subjectsByLabel ?t)"
      by (simp only: dictEnsureLabel_keys) simp
    from Cons.IH [OF 1 Cons.prems(2) 2] True show ?thesis by simp
  next
    case False
    show ?thesis
    proof (cases "nonBlank line \<and> includesStr line sep")
      case entry: True
      show ?thesis
      proof (cases "truthy cur")
        case True
        let ?t = "t\<lparr> subjectsByLabel :=
              AList.map_entry (orEmpty cur) (setAdd (firstField line)) (subjectsByLabel t) \<rparr>"
        have eq: "dictLoadLines (line # ls) cur t = dictLoadLines ls cur ?t"
          using False entry True by simp
        have 2: "cur = Some label \<longrightarrow> label \<in> fst ` set (subjectsByLabel ?t)"
          using Cons.prems(3) by (simp add: dom_map_entry)
        from Cons.prems(1) False entry
        have "(Some label, l) = (cur, line) \<or> (Some label, l) \<in> set (labelled ls cur)" by simp
        then show ?thesis
        proof
          assume a: "(Some label, l) = (cur, line)"
          then have cur: "cur = Some label" and l: "l = line" by simp_all
          with Cons.prems(3) have "map_of (subjectsByLabel t) label \<noteq> None"
            by (simp only: map_of_eq_None_iff) simp
          then obtain v0 where "map_of (subjectsByLabel t) label = Some v0" by blast
          with cur have "map_of (subjectsByLabel ?t) label = Some (setAdd (firstField line) v0)"
            by (simp add: map_entry_lookup)
          from dictLoadLines_names_mono [OF this, of ls cur] l
          show ?thesis by (simp only: eq) (auto simp: setAdd_def split: if_splits)
        next
          assume "(Some label, l) \<in> set (labelled ls cur)"
          from Cons.IH [OF this Cons.prems(2) 2] show ?thesis by (simp only: eq)
        qed
      next
        case nt: False
        have eq: "dictLoadLines (line # ls) cur t = dictLoadLines ls cur t"
          using False nt by simp
        from nt Cons.prems(2) have "cur \<noteq> Some label" by auto
        with Cons.prems(1) False entry have "(Some label, l) \<in> set (labelled ls cur)" by auto
        from Cons.IH [OF this Cons.prems(2,3)] show ?thesis by (simp only: eq)
      qed
    next
      case no: False
      have eq: "dictLoadLines (line # ls) cur t = dictLoadLines ls cur t"
        using False no by auto
      from Cons.prems(1) False no have "(Some label, l) \<in> set (labelled ls cur)" by auto
      from Cons.IH [OF this Cons.prems(2,3)] show ?thesis by (simp only: eq)
    qed
  qed
qed

subsection \<open>The sections of a run with plain candidates\<close>

lemma sectionsOf_labels:
  "map fst (sectionsOf collate content t labels ex) =
     filter (\<lambda>label. the (map_of (subjectsByLabel t) label) \<noteq> []) labels"
  by (induction labels arbitrary: ex) simp_all

lemma sectionsOf_has_label:
  assumes "label \<in> set labels" and "the (map_of (subjectsByLabel t) label) \<noteq> []"
  shows "\<exists>s\<in>set (sectionsOf collate content t labels ex). fst s = label"
proof -
  from assms have "label \<in> set (map fst (sectionsOf collate content t labels ex))"
    by (simp only: sectionsOf_labels) simp
  then show ?thesis by auto
qed

lemma set_sortFromNames [simp]: "set (sortFromNames collate ns) = set ns"
  by (simp add: sortFromNames_def)

lemma defined_emitted:
  assumes wf: "trackedWf t" and ns: "map_of (subjectsByLabel t) label = Some ns"
    and n: "n \<in> set ns" and m: "map_of (fst (labelStep content t label ex)) n = Some l"
  shows "n \<in> set (map firstField (labelSubjects collate content t label ex))"
  using ns n m by (simp only: labelSubjects_keys [OF wf]) simp

lemma accepted_emitted:
  assumes wf: "trackedWf t" and pl: "trackedPlain t"
    and n: "n \<in> set (snd (labelStep content t label ex))" and nin: "n \<notin> set ex"
  shows "n \<in> set (map firstField (labelSubjects collate content t label ex))"
proof -
  let ?ls = "case map_of (subjectLinesByLabel t) label of None \<Rightarrow> [] | Some ls \<Rightarrow> ls"
  let ?old = "dictExistingLines (splitLines content) label False []"
  from n have n': "n \<in> set (snd (dictAddNew ?ls (?old, ex)))" by (simp add: labelStep_def)
  from dictAddNew_accepted_in_map [OF n' nin] obtain l where
    m: "map_of (fst (labelStep content t label ex)) n = Some l" by (auto simp: labelStep_def)
  from n' nin dictAddNew_existing_upper [of ?ls ?old ex] have "n \<in> firstField ` set ?ls" by blast
  then obtain x where x: "x \<in> set ?ls" and k: "firstField x = n" by auto
  from x obtain ls where ls: "map_of (subjectLinesByLabel t) label = Some ls" and "x \<in> set ls"
    by (cases "map_of (subjectLinesByLabel t) label") auto
  from trackedPlain_line [OF pl this] k obtain ns where
    "map_of (subjectsByLabel t) label = Some ns" and "n \<in> set ns" by auto
  from defined_emitted [OF wf this m] show ?thesis .
qed

lemma sectionNames_Cons [simp]:
  "sectionNames (s # secs) = map firstField (snd s) @ sectionNames secs"
  by (simp add: sectionNames_def)

lemma sectionNames_mem:
  "s \<in> set secs \<Longrightarrow> l \<in> set (snd s) \<Longrightarrow> firstField l \<in> set (sectionNames secs)"
  by (auto simp: sectionNames_def)

lemma sectionsOf_origin:
  assumes wf: "trackedWf t" and pl: "trackedPlain t"
  shows "s \<in> set (sectionsOf collate content t labels ex) \<Longrightarrow>
         \<exists>ex1. snd s = labelSubjects collate content t (fst s) ex1 \<and>
               the (map_of (subjectsByLabel t) (fst s)) \<noteq> [] \<and>
               set ex \<subseteq> set ex1 \<and>
               set (snd (labelStep content t (fst s) ex1)) \<subseteq>
                 set ex \<union> set (sectionNames (sectionsOf collate content t labels ex))"
proof (induction labels arbitrary: ex)
  case Nil
  then show ?case by simp
next
  case (Cons label labels)
  let ?ex1 = "snd (labelStep content t label ex)"
  let ?ls = "labelSubjects collate content t label ex"
  show ?case
  proof (cases "the (map_of (subjectsByLabel t) label) \<noteq> []")
    case False
    with Cons.prems have "s \<in> set (sectionsOf collate content t labels ex)" by simp
    from Cons.IH [OF this] False show ?thesis by simp
  next
    case True
    then have eq: "sectionsOf collate content t (label # labels) ex =
        (label, ?ls) # sectionsOf collate content t labels ?ex1" by simp
    have acc: "set ?ex1 \<subseteq> set ex \<union> set (map firstField ?ls)"
    proof
      fix n
      assume "n \<in> set ?ex1"
      then show "n \<in> set ex \<union> set (map firstField ?ls)"
        using accepted_emitted [OF wf pl, of n content label ex collate] by blast
    qed
    from Cons.prems eq have "s = (label, ?ls) \<or> s \<in> set (sectionsOf collate content t labels ?ex1)"
      by simp
    then show ?thesis
    proof
      assume s: "s = (label, ?ls)"
      have "snd s = labelSubjects collate content t (fst s) ex \<and>
            the (map_of (subjectsByLabel t) (fst s)) \<noteq> [] \<and> set ex \<subseteq> set ex \<and>
            set (snd (labelStep content t (fst s) ex)) \<subseteq>
              set ex \<union> set (sectionNames (sectionsOf collate content t (label # labels) ex))"
        using s True acc by (simp only: eq) auto
      then show ?thesis by blast
    next
      assume "s \<in> set (sectionsOf collate content t labels ?ex1)"
      from Cons.IH [OF this] obtain ex2 where
        a: "snd s = labelSubjects collate content t (fst s) ex2"
        and b: "the (map_of (subjectsByLabel t) (fst s)) \<noteq> []"
        and c: "set ?ex1 \<subseteq> set ex2"
        and d: "set (snd (labelStep content t (fst s) ex2)) \<subseteq>
                 set ?ex1 \<union> set (sectionNames (sectionsOf collate content t labels ?ex1))"
        by blast
      have "set ex \<subseteq> set ?ex1" by (rule labelStep_existing_mono)
      with c have c': "set ex \<subseteq> set ex2" by blast
      from d acc have "set (snd (labelStep content t (fst s) ex2)) \<subseteq>
          set ex \<union> set (sectionNames (sectionsOf collate content t (label # labels) ex))"
        by (simp only: eq) auto
      with a b c' show ?thesis by blast
    qed
  qed
qed

lemma labelSubjects_sorted:
  assumes wf: "trackedWf t"
  shows "sorted (map (\<lambda>l. collate (toLowerCase (firstField l)))
           (labelSubjects collate content t label ex))"
proof -
  let ?k = "\<lambda>n. collate (toLowerCase n)"
  have "map (\<lambda>l. ?k (firstField l)) (labelSubjects collate content t label ex) =
        map ?k (map firstField (labelSubjects collate content t label ex))"
    by simp
  also have "\<dots> = map ?k (filter (\<lambda>n. map_of (fst (labelStep content t label ex)) n \<noteq> None)
             (sort_key ?k (the (map_of (subjectsByLabel t) label))))"
    by (simp only: labelSubjects_keys [OF wf] sortFromNames_def)
  finally show ?thesis by (simp only: sorted_filter sorted_sort_key)
qed

lemma labelSubjects_isEntry:
  assumes wf: "trackedWf t" and pl: "trackedPlain t"
    and l: "l \<in> set (labelSubjects collate content t label ex)"
  shows "isEntry l \<and> l \<noteq> [] \<and> CHR 0x0A \<notin> set l \<and>
         (\<exists>n. map_of (fst (labelStep content t label ex)) n = Some l)"
proof -
  from l obtain n where m: "map_of (fst (labelStep content t label ex)) n = Some l"
    by (auto simp: labelSubjects_def List.map_filter_def)
  from labelStep_map_SomeD [OF m] have "isEntry l"
  proof
    assume "(Some label, l) \<in> set (labelled (splitLines content) None) \<and> firstField l = n"
    then have "(Some label, l) \<in> set (labelled (splitLines content) None)" by simp
    from labelled_in_lines [OF this] show ?thesis by simp
  next
    assume "\<exists>ls. map_of (subjectLinesByLabel t) label = Some ls \<and> l \<in> set ls \<and>
               firstField l = n \<and> n \<notin> set ex"
    then obtain ls where "map_of (subjectLinesByLabel t) label = Some ls" and "l \<in> set ls"
      by blast
    from trackedPlain_line [OF pl this] show ?thesis by simp
  qed
  with labelStep_line [OF wf m] m show ?thesis by blast
qed

lemma labelSubjects_names:
  assumes wf: "trackedWf t" and ns: "map_of (subjectsByLabel t) label = Some ns"
  shows "set (map firstField (labelSubjects collate content t label ex)) \<subseteq> set ns"
  using ns by (simp only: labelSubjects_keys [OF wf]) auto

subsection \<open>What the first run writes\<close>

lemma dictLoadSubjects_dictLoadLines:
  "dictLoadSubjects True file = dictLoadLines (splitLines (orEmpty file)) None noTracked"
  by (cases "file") (simp_all add: dictLoadSubjects_def)

lemma map_of_in_keys: "map_of al k = Some v \<Longrightarrow> k \<in> fst ` set al"
  by (metis domI dom_map_of_conv_image_fst)

lemma in_keys_map_of: "k \<in> fst ` set al \<Longrightarrow> \<exists>v. map_of al k = Some v"
  by (metis domD dom_map_of_conv_image_fst)

lemma loaded_name_is_old:
  assumes "map_of (subjectsByLabel (dictLoadSubjects True file)) label = Some ns" and "n \<in> set ns"
  shows "\<exists>l. (Some label, l) \<in> set (labelled (splitLines (orEmpty file)) None) \<and> firstField l = n"
proof -
  from assms(1) have
    "map_of (subjectsByLabel (dictLoadLines (splitLines (orEmpty file)) None noTracked)) label = Some ns"
    by (simp only: dictLoadSubjects_dictLoadLines)
  from dictLoadLines_name_origin [OF this assms(2)] show ?thesis by (simp add: noTracked_def)
qed

lemma old_name_is_loaded:
  assumes "(Some label, l) \<in> set (labelled (splitLines (orEmpty file)) None)" and "label \<noteq> []"
  shows "\<exists>ns. map_of (subjectsByLabel (dictLoadSubjects True file)) label = Some ns \<and>
              firstField l \<in> set ns"
proof -
  have "None = Some label \<longrightarrow> label \<in> fst ` set (subjectsByLabel noTracked)" by simp
  from dictLoadLines_has_name [OF assms this] show ?thesis by (simp only: dictLoadSubjects_dictLoadLines)
qed

lemma old_emitted:
  assumes wf: "trackedWf t" and pl: "trackedPlain t"
    and old: "(Some label, l) \<in> set (labelled (splitLines content) None)"
    and lab: "label \<in> set labels"
    and ns: "map_of (subjectsByLabel t) label = Some ns" and n: "firstField l \<in> set ns"
  shows "firstField l \<in> set (sectionNames (sectionsOf collate content t labels ex))"
proof -
  from ns n have "the (map_of (subjectsByLabel t) label) \<noteq> []" by auto
  from sectionsOf_has_label [OF lab this] obtain s where
    s: "s \<in> set (sectionsOf collate content t labels ex)" and f: "fst s = label" by blast
  from sectionsOf_origin [OF wf pl s] f obtain ex1 where
    e: "snd s = labelSubjects collate content t label ex1" by auto
  from labelStep_old_in_map [OF old] obtain l' where
    "map_of (fst (labelStep content t label ex1)) (firstField l) = Some l'" by blast
  from defined_emitted [OF wf ns n this]
  have "firstField l \<in> set (map firstField (snd s))" by (simp only: e)
  with s show ?thesis by (auto simp: sectionNames_def)
qed

lemma plain_is_singleLine: "list_all plainCandidate cands \<Longrightarrow> list_all singleLineCandidate cands"
  by (induction cands) (simp_all add: plainCandidate_def)

lemma sorted_keys_mem:
  "map_of (subjectsByLabel t) label = Some ns \<Longrightarrow> label \<in> set (sort (map fst (subjectsByLabel t)))"
  using map_of_in_keys [of "subjectsByLabel t" label ns] by simp

lemma first_run_old_names:
  assumes no: "noOrphans subjectsFile" and cs: "list_all plainCandidate cands"
    and n: "n \<in> set (contentFromNames (orEmpty subjectsFile))"
  shows "n \<in> set (sectionNames (mergedSections collate subjectsFile exclusionsFile
           (fold dictTrackCandidate cands (dictLoadSubjects True subjectsFile))))"
proof -
  let ?t0 = "dictLoadSubjects True subjectsFile"
  let ?t1 = "fold dictTrackCandidate cands ?t0"
  have wf: "trackedWf ?t1"
    using trackedWf_dictLoadSubjects plain_is_singleLine [OF cs] by (rule trackedWf_fold)
  have pl: "trackedPlain ?t1" using trackedPlain_dictLoadSubjects cs by (rule trackedPlain_fold)
  from n obtain p where p: "p \<in> set (labelled (splitLines (orEmpty subjectsFile)) None)"
    and k: "n = firstField (snd p)" by (auto simp: contentFromNames_labelled)
  from no p have "truthy (fst p)" by (simp add: noOrphans_def list_all_iff)
  then obtain label where f: "fst p = Some label" and ne: "label \<noteq> []"
    using truthy_orEmpty [of "fst p"] by blast
  from p f have old: "(Some label, snd p) \<in> set (labelled (splitLines (orEmpty subjectsFile)) None)"
    by (metis prod.collapse)
  from old_name_is_loaded [OF old ne] obtain ns0 where
    ns0: "map_of (subjectsByLabel ?t0) label = Some ns0" and n0: "firstField (snd p) \<in> set ns0"
    by blast
  from fold_track_names_prefix [OF ns0, of cands] obtain ns where
    ns: "map_of (subjectsByLabel ?t1) label = Some ns" and "prefix ns0 ns" by blast
  with n0 have n1: "firstField (snd p) \<in> set ns" by (auto dest: set_mono_prefix)
  have "firstField (snd p) \<in> set (sectionNames (sectionsOf collate (orEmpty subjectsFile) ?t1
          (sort (map fst (subjectsByLabel ?t1))) (existingFromNames0 subjectsFile exclusionsFile)))"
    using wf pl old sorted_keys_mem [OF ns] ns n1 by (rule old_emitted)
  then show ?thesis by (simp only: k mergedSections_def)
qed

text \<open>
  After the first run the from name of every candidate stands in the rewritten file or in
  the exclusions file.
\<close>

lemma first_run_absorbs:
  assumes no: "noOrphans subjectsFile" and cs: "list_all plainCandidate cands"
    and c: "c \<in> set cands"
  shows "c_fromName c \<in>
           set (sectionNames (mergedSections collate subjectsFile exclusionsFile
                  (fold dictTrackCandidate cands (dictLoadSubjects True subjectsFile)))) \<union>
           set (contentFromNames (orEmpty exclusionsFile))"
proof -
  let ?t0 = "dictLoadSubjects True subjectsFile"
  let ?t1 = "fold dictTrackCandidate cands ?t0"
  let ?content = "orEmpty subjectsFile"
  let ?ex0 = "existingFromNames0 subjectsFile exclusionsFile"
  let ?labels = "sort (map fst (subjectsByLabel ?t1))"
  let ?secs = "sectionsOf collate ?content ?t1 ?labels ?ex0"
  let ?n = "c_fromName c"
  let ?L = "c_label c"
  have secs: "mergedSections collate subjectsFile exclusionsFile ?t1 = ?secs"
    by (simp only: mergedSections_def)
  have wf: "trackedWf ?t1"
    using trackedWf_dictLoadSubjects plain_is_singleLine [OF cs] by (rule trackedWf_fold)
  have pl: "trackedPlain ?t1" using trackedPlain_dictLoadSubjects cs by (rule trackedPlain_fold)
  from fold_track_has_name [OF c] obtain ns where
    ns: "map_of (subjectsByLabel ?t1) ?L = Some ns" and n: "?n \<in> set ns" by blast
  then have "the (map_of (subjectsByLabel ?t1) ?L) \<noteq> []" by auto
  from sectionsOf_has_label [OF sorted_keys_mem [OF ns] this] obtain s where
    s: "s \<in> set ?secs" and f: "fst s = ?L" by blast
  from sectionsOf_origin [OF wf pl s] f obtain ex1 where
    e: "snd s = labelSubjects collate ?content ?t1 ?L ex1"
    and up: "set (snd (labelStep ?content ?t1 ?L ex1)) \<subseteq> set ?ex0 \<union> set (sectionNames ?secs)"
    by auto
  have "?n \<in> set (sectionNames ?secs) \<union> set (contentFromNames (orEmpty exclusionsFile))"
  proof (cases "map_of (fst (labelStep ?content ?t1 ?L ex1)) ?n")
    case (Some l')
    from defined_emitted [OF wf ns n this]
    have "?n \<in> set (map firstField (snd s))" by (simp only: e)
    with s show ?thesis by (auto simp: sectionNames_def)
  next
    case None
    from fold_track_name_origin [OF trackedPlain_dictLoadSubjects cs ns n]
    have "(\<exists>ns0. map_of (subjectsByLabel ?t0) ?L = Some ns0 \<and> ?n \<in> set ns0) \<or>
          (\<exists>c'\<in>set cands. ?L = c_label c' \<and> ?n = c_fromName c' \<and>
             (\<exists>ls. map_of (subjectLinesByLabel ?t1) ?L = Some ls \<and> lineOf c' \<in> set ls))" .
    then show ?thesis
    proof
      assume "\<exists>ns0. map_of (subjectsByLabel ?t0) ?L = Some ns0 \<and> ?n \<in> set ns0"
      then obtain ns0 where "map_of (subjectsByLabel ?t0) ?L = Some ns0" and "?n \<in> set ns0"
        by blast
      from loaded_name_is_old [OF this] obtain l where
        old: "(Some ?L, l) \<in> set (labelled (splitLines ?content) None)" and k: "firstField l = ?n"
        by blast
      from labelStep_old_in_map [OF old, of ?t1 ex1] k None show ?thesis by simp
    next
      assume "\<exists>c'\<in>set cands. ?L = c_label c' \<and> ?n = c_fromName c' \<and>
             (\<exists>ls. map_of (subjectLinesByLabel ?t1) ?L = Some ls \<and> lineOf c' \<in> set ls)"
      then obtain c' ls where c': "c' \<in> set cands" and nn: "?n = c_fromName c'"
        and ls: "map_of (subjectLinesByLabel ?t1) ?L = Some ls" and x: "lineOf c' \<in> set ls"
        by blast
      from cs c' have "plainCandidate c'" by (simp add: list_all_iff)
      from isEntry_lineOf [OF this] nn have k: "firstField (lineOf c') = ?n" by simp
      have "firstField (lineOf c') \<in> firstField ` set ls" using x by (rule imageI)
      then have "?n \<in> set (snd (labelStep ?content ?t1 ?L ex1))"
        using dictAddNew_existing_keys [where ls = ls
            and sm = "dictExistingLines (splitLines ?content) ?L False []" and ex = ex1] ls k
        by (auto simp: labelStep_def)
      with up have "?n \<in> set ?ex0 \<or> ?n \<in> set (sectionNames ?secs)" by blast
      then show ?thesis
      proof
        assume "?n \<in> set ?ex0"
        then have "?n \<in> set (contentFromNames ?content) \<or>
                   ?n \<in> set (contentFromNames (orEmpty exclusionsFile))"
          by (simp only: set_existingFromNames0) simp
        then show ?thesis
        proof
          assume "?n \<in> set (contentFromNames ?content)"
          from first_run_old_names [OF no cs this, of collate exclusionsFile]
          show ?thesis by (simp only: secs) simp
        next
          assume "?n \<in> set (contentFromNames (orEmpty exclusionsFile))"
          then show ?thesis by simp
        qed
      next
        assume "?n \<in> set (sectionNames ?secs)"
        then show ?thesis by simp
      qed
    qed
  qed
  then show ?thesis by (simp only: secs)
qed

text \<open>The shape of the sections.\<close>

lemma sectionsOf_shape:
  assumes wf: "trackedWf t" and pl: "trackedPlain t"
    and labels: "set labels \<subseteq> fst ` set (subjectsByLabel t)"
    and s: "s \<in> set (sectionsOf collate content t labels ex)"
  shows "plainLabel (fst s)"
    and "l \<in> set (snd s) \<Longrightarrow> isEntry l \<and> l \<noteq> [] \<and> CHR 0x0A \<notin> set l"
    and "distinct (map firstField (snd s))"
    and "sorted (map (\<lambda>l. collate (toLowerCase (firstField l))) (snd s))"
proof -
  from sectionsOf_origin [OF wf pl s] obtain ex1 where
    e: "snd s = labelSubjects collate content t (fst s) ex1"
    and ne: "the (map_of (subjectsByLabel t) (fst s)) \<noteq> []" by blast
  from sectionsOf_label [OF s] labels have k: "fst s \<in> fst ` set (subjectsByLabel t)" by blast
  from in_keys_map_of [OF k] obtain ns where ns: "map_of (subjectsByLabel t) (fst s) = Some ns"
    by blast
  with ne have "ns \<noteq> []" by simp
  have "fst s \<noteq> []"
  proof
    assume "fst s = []"
    with ns have "map_of (subjectsByLabel t) [] = Some ns" by simp
    from trackedPlain_empty [OF pl this] \<open>ns \<noteq> []\<close> show False by simp
  qed
  with trackedPlain_label [OF pl k] show "plainLabel (fst s)" by simp
  show "distinct (map firstField (snd s))"
    using labelSubjects_distinct [OF wf ns] by (simp only: e)
  show "sorted (map (\<lambda>l. collate (toLowerCase (firstField l))) (snd s))"
    using labelSubjects_sorted [OF wf] by (simp only: e)
  show "isEntry l \<and> l \<noteq> [] \<and> CHR 0x0A \<notin> set l" if "l \<in> set (snd s)"
  proof -
    from that have "l \<in> set (labelSubjects collate content t (fst s) ex1)" by (simp only: e)
    from labelSubjects_isEntry [OF wf pl this] show ?thesis by simp
  qed
qed

lemma sectionsOf_sorted_labels:
  assumes wf: "trackedWf t"
  shows "distinct (map fst (sectionsOf collate content t (sort (map fst (subjectsByLabel t))) ex))"
    and "sorted (map fst (sectionsOf collate content t (sort (map fst (subjectsByLabel t))) ex))"
proof -
  show "distinct (map fst (sectionsOf collate content t (sort (map fst (subjectsByLabel t))) ex))"
    using trackedWf_keys [OF wf] by (simp only: sectionsOf_labels) simp
  have "sorted (map (\<lambda>x. x) (filter (\<lambda>label. the (map_of (subjectsByLabel t) label) \<noteq> [])
          (sort (map fst (subjectsByLabel t)))))"
    by (rule sorted_filter) simp
  then show "sorted (map fst (sectionsOf collate content t (sort (map fst (subjectsByLabel t))) ex))"
    by (simp only: sectionsOf_labels) simp
qed

subsection \<open>Reading the rewritten file\<close>

lemma under_append: "under label (xs @ ys) = under label xs @ under label ys"
  by (simp add: under_def)

lemma under_section:
  "under label (map (Pair (Some label')) ls) = (if label = label' then map (Pair (Some label)) ls else [])"
  by (induction ls) (auto simp: under_def)

lemma under_concat_other:
  "label \<notin> fst ` set secs \<Longrightarrow>
   under label (concat (map (\<lambda>s. map (Pair (Some (fst s))) (snd s)) secs)) = []"
proof (induction secs)
  case Nil
  show ?case by (simp add: under_def)
next
  case (Cons s secs)
  then have "label \<noteq> fst s" and "label \<notin> fst ` set secs" by auto
  with Cons.IH show ?case by (simp add: under_append under_section)
qed

lemma under_concat:
  "distinct (map fst secs) \<Longrightarrow> s \<in> set secs \<Longrightarrow>
   under (fst s) (concat (map (\<lambda>s. map (Pair (Some (fst s))) (snd s)) secs)) =
     map (Pair (Some (fst s))) (snd s)"
proof (induction secs)
  case Nil
  then show ?case by simp
next
  case (Cons s0 secs)
  show ?case
  proof (cases "s = s0")
    case True
    from Cons.prems(1) have "fst s0 \<notin> fst ` set secs" by simp
    from under_concat_other [OF this] True show ?thesis
      by (simp add: under_append under_section)
  next
    case False
    with Cons.prems have s: "s \<in> set secs" and d: "distinct (map fst secs)" by simp_all
    from s have "fst s \<in> fst ` set secs" by (rule imageI)
    moreover from Cons.prems(1) have "fst s0 \<notin> fst ` set secs" by simp
    ultimately have "fst s \<noteq> fst s0" by metis
    with Cons.IH [OF d s] show ?thesis by (simp add: under_append under_section)
  qed
qed

lemma keyed_section: "keyed (map (Pair (Some label)) ls) = map (\<lambda>l. (firstField l, l)) ls"
  by (simp add: keyed_def)

lemma oldLines_renderFile:
  assumes "secs \<noteq> []"
    and "\<forall>s\<in>set secs. plainLabel (fst s) \<and> (\<forall>l\<in>set (snd s). isEntry l \<and> CHR 0x0A \<notin> set l)"
    and "distinct (map fst secs)" and "s \<in> set secs"
  shows "map_of (dictExistingLines (splitLines (renderFile secs)) (fst s) False []) =
           map_of (map (\<lambda>l. (firstField l, l)) (snd s))"
  by (simp only: oldLines_map_of labelled_renderFile [OF assms(1,2)]
      under_concat [OF assms(3,4)] keyed_section)

lemma contentFromNames_renderFile:
  assumes "secs \<noteq> []"
    and "\<forall>s\<in>set secs. plainLabel (fst s) \<and> (\<forall>l\<in>set (snd s). isEntry l \<and> CHR 0x0A \<notin> set l)"
  shows "contentFromNames (renderFile secs) = sectionNames secs"
  by (simp add: contentFromNames_labelled labelled_renderFile [OF assms] sectionNames_def
      map_concat comp_def)

lemma map_of_sections:
  assumes "distinct (map fst secs)" and "s \<in> set secs"
  shows "map_of (map (\<lambda>s. (fst s, f s)) secs) (fst s) = Some (f s)"
proof -
  have "distinct (map fst (map (\<lambda>s. (fst s, f s)) secs))"
    using assms(1) by (simp add: comp_def)
  moreover have "(fst s, f s) \<in> set (map (\<lambda>s. (fst s, f s)) secs)"
    using assms(2) by auto
  ultimately show ?thesis by (rule map_of_is_SomeI)
qed

lemma map_of_no_lines:
  "map_of (map (\<lambda>s. (fst s, [])) secs) label = Some ls \<Longrightarrow> ls = []"
  by (auto dest: map_of_SomeD)

subsection \<open>The second run\<close>

lemma second_run_sections:
  assumes no: "noOrphans subjectsFile" and cs: "list_all plainCandidate cands"
    and secs: "secs = mergedSections collate subjectsFile exclusionsFile
                 (fold dictTrackCandidate cands (dictLoadSubjects True subjectsFile))"
    and ne: "secs \<noteq> []"
  shows "mergedSections collate (Some (renderFile secs)) exclusionsFile
           (fold dictTrackCandidate cands (dictLoadSubjects True (Some (renderFile secs)))) = secs"
proof -
  let ?t0 = "dictLoadSubjects True subjectsFile"
  let ?t1 = "fold dictTrackCandidate cands ?t0"
  let ?content = "orEmpty subjectsFile"
  let ?ex0 = "existingFromNames0 subjectsFile exclusionsFile"
  let ?labels = "sort (map fst (subjectsByLabel ?t1))"
  have secs': "secs = sectionsOf collate ?content ?t1 ?labels ?ex0"
    by (simp only: secs mergedSections_def)
  have wf1: "trackedWf ?t1"
    using trackedWf_dictLoadSubjects plain_is_singleLine [OF cs] by (rule trackedWf_fold)
  have pl1: "trackedPlain ?t1" using trackedPlain_dictLoadSubjects cs by (rule trackedPlain_fold)
  have lab: "set ?labels \<subseteq> fst ` set (subjectsByLabel ?t1)" by simp
  have sec: "s \<in> set (sectionsOf collate ?content ?t1 ?labels ?ex0)" if "s \<in> set secs" for s
    using that by (simp only: secs' [symmetric])
  have d: "distinct (map fst secs)"
    using sectionsOf_sorted_labels(1) [OF wf1, of collate ?content ?ex0]
    by (simp only: secs' [symmetric])
  have so: "sorted (map fst secs)"
    using sectionsOf_sorted_labels(2) [OF wf1, of collate ?content ?ex0]
    by (simp only: secs' [symmetric])
  have sh1: "\<forall>s\<in>set secs. plainLabel (fst s) \<and>
               (\<forall>l\<in>set (snd s). isEntry l \<and> CHR 0x0A \<notin> set l) \<and>
               distinct (map firstField (snd s))"
  proof (intro ballI conjI)
    fix s assume s: "s \<in> set secs"
    show "plainLabel (fst s)" by (rule sectionsOf_shape(1) [OF wf1 pl1 lab sec [OF s]])
    show "distinct (map firstField (snd s))"
      by (rule sectionsOf_shape(3) [OF wf1 pl1 lab sec [OF s]])
    fix l assume l: "l \<in> set (snd s)"
    from sectionsOf_shape(2) [OF wf1 pl1 lab sec [OF s] l]
    show "isEntry l" and "CHR 0x0A \<notin> set l" by simp_all
  qed
  then have sh2: "\<forall>s\<in>set secs. plainLabel (fst s) \<and>
               (\<forall>l\<in>set (snd s). isEntry l \<and> CHR 0x0A \<notin> set l)"
    by blast
  let ?t0' = "\<lparr> subjectsByLabel = map (\<lambda>s. (fst s, map firstField (snd s))) secs,
               subjectLinesByLabel = map (\<lambda>s. (fst s, [])) secs \<rparr>"
  let ?t2 = "fold dictTrackCandidate cands ?t0'"
  let ?ex2 = "existingFromNames0 (Some (renderFile secs)) exclusionsFile"
  have load: "dictLoadSubjects True (Some (renderFile secs)) = ?t0'"
    using ne sh1 d by (rule dictLoadSubjects_renderFile)
  have "trackedWf (dictLoadSubjects True (Some (renderFile secs)))" by (rule trackedWf_dictLoadSubjects)
  then have "trackedWf ?t0'" by (simp only: load)
  then have wf2: "trackedWf ?t2" using plain_is_singleLine [OF cs] by (rule trackedWf_fold)
  have ex2: "set ?ex2 = set (sectionNames secs) \<union> set (contentFromNames (orEmpty exclusionsFile))"
    by (simp only: set_existingFromNames0 orEmpty.simps contentFromNames_renderFile [OF ne sh2])
  have keys0: "fst ` set (subjectsByLabel ?t0') = fst ` set secs"
    by (simp add: image_image)
  have candlabel: "\<forall>c\<in>set cands. c_label c \<in> fst ` set (subjectsByLabel ?t0')"
  proof
    fix c assume c: "c \<in> set cands"
    from fold_track_has_name [OF c] obtain ns where
      ns: "map_of (subjectsByLabel ?t1) (c_label c) = Some ns" and n: "c_fromName c \<in> set ns"
      by blast
    then have "the (map_of (subjectsByLabel ?t1) (c_label c)) \<noteq> []" by auto
    from sectionsOf_has_label [OF sorted_keys_mem [OF ns] this, of collate ?content ?ex0]
    obtain s where s: "s \<in> set secs" and f: "fst s = c_label c"
      by (auto simp only: secs' [symmetric])
    from s have "fst s \<in> fst ` set secs" by (rule imageI)
    then have "c_label c \<in> fst ` set secs" by (simp only: f)
    then show "c_label c \<in> fst ` set (subjectsByLabel ?t0')" by (simp only: keys0)
  qed
  have "map fst (subjectsByLabel ?t2) = map fst (subjectsByLabel ?t0')"
    using candlabel by (rule fold_track_keys_known)
  then have keys2: "map fst (subjectsByLabel ?t2) = map fst secs" by (simp add: comp_def)
  have "sort (map fst secs) = map fst secs"
    using so sort_key_id_if_sorted [of "\<lambda>x. x" "map fst secs"] by simp
  then have labels2: "sort (map fst (subjectsByLabel ?t2)) = map fst secs" by (simp only: keys2)
  have all: "(\<exists>ns. map_of (subjectsByLabel ?t2) (fst s) = Some ns \<and> ns \<noteq> [] \<and> distinct ns \<and>
                   prefix (map firstField (snd s)) ns) \<and>
             (\<forall>ls l. map_of (subjectLinesByLabel ?t2) (fst s) = Some ls \<longrightarrow> l \<in> set ls \<longrightarrow>
                   firstField l \<in> set ?ex2) \<and>
             map_of (dictExistingLines (splitLines (renderFile secs)) (fst s) False []) =
               map_of (map (\<lambda>l. (firstField l, l)) (snd s)) \<and>
             distinct (map firstField (snd s)) \<and>
             sorted (map (\<lambda>l. collate (toLowerCase (firstField l))) (snd s)) \<and>
             [] \<notin> set (snd s)" if s: "s \<in> set secs" for s
  proof (intro conjI)
    have "map_of (map (\<lambda>s. (fst s, map firstField (snd s))) secs) (fst s) =
            Some (map firstField (snd s))"
      using d s by (rule map_of_sections)
    then have m0: "map_of (subjectsByLabel ?t0') (fst s) = Some (map firstField (snd s))" by simp
    from fold_track_names_prefix [OF m0, of cands] obtain ns2 where
      ns2: "map_of (subjectsByLabel ?t2) (fst s) = Some ns2"
      and pre: "prefix (map firstField (snd s)) ns2" by blast
    have dist: "distinct ns2" using wf2 ns2 by (rule trackedWf_names)
    from sectionsOf_origin [OF wf1 pl1 sec [OF s]] obtain ex1 where
      e: "snd s = labelSubjects collate ?content ?t1 (fst s) ex1"
      and nz1: "the (map_of (subjectsByLabel ?t1) (fst s)) \<noteq> []" by blast
    from sectionsOf_label [OF sec [OF s]] lab have "fst s \<in> fst ` set (subjectsByLabel ?t1)"
      by blast
    from in_keys_map_of [OF this] obtain ns1 where
      ns1: "map_of (subjectsByLabel ?t1) (fst s) = Some ns1" by blast
    with nz1 have "ns1 \<noteq> []" by simp
    then obtain n where n: "n \<in> set ns1" by (cases ns1) auto
    from fold_track_name_origin [OF trackedPlain_dictLoadSubjects cs ns1 n]
    have "(\<exists>ns0. map_of (subjectsByLabel ?t0) (fst s) = Some ns0 \<and> n \<in> set ns0) \<or>
          (\<exists>c\<in>set cands. fst s = c_label c \<and> n = c_fromName c \<and>
             (\<exists>ls. map_of (subjectLinesByLabel ?t1) (fst s) = Some ls \<and> lineOf c \<in> set ls))" .
    then have nz: "ns2 \<noteq> []"
    proof
      assume "\<exists>ns0. map_of (subjectsByLabel ?t0) (fst s) = Some ns0 \<and> n \<in> set ns0"
      then obtain ns0 where "map_of (subjectsByLabel ?t0) (fst s) = Some ns0" and "n \<in> set ns0"
        by blast
      from loaded_name_is_old [OF this] obtain l where
        old: "(Some (fst s), l) \<in> set (labelled (splitLines ?content) None)"
        and k: "firstField l = n" by blast
      from labelStep_old_in_map [OF old, of ?t1 ex1] k obtain l' where
        "map_of (fst (labelStep ?content ?t1 (fst s) ex1)) n = Some l'" by auto
      from defined_emitted [OF wf1 ns1 n this]
      have "n \<in> set (map firstField (snd s))" by (simp only: e)
      then have "map firstField (snd s) \<noteq> []" by auto
      with pre show ?thesis by auto
    next
      assume "\<exists>c\<in>set cands. fst s = c_label c \<and> n = c_fromName c \<and>
             (\<exists>ls. map_of (subjectLinesByLabel ?t1) (fst s) = Some ls \<and> lineOf c \<in> set ls)"
      then obtain c where c: "c \<in> set cands" and l: "fst s = c_label c" by blast
      from fold_track_has_name [OF c, of ?t0'] l ns2 show ?thesis by auto
    qed
    from ns2 nz dist pre
    show "\<exists>ns. map_of (subjectsByLabel ?t2) (fst s) = Some ns \<and> ns \<noteq> [] \<and> distinct ns \<and>
               prefix (map firstField (snd s)) ns" by blast
  next
    show "\<forall>ls l. map_of (subjectLinesByLabel ?t2) (fst s) = Some ls \<longrightarrow> l \<in> set ls \<longrightarrow>
            firstField l \<in> set ?ex2"
    proof (intro allI impI)
      fix ls l
      assume "map_of (subjectLinesByLabel ?t2) (fst s) = Some ls" and "l \<in> set ls"
      from fold_track_lines [OF this]
      have "(\<exists>ls0. map_of (subjectLinesByLabel ?t0') (fst s) = Some ls0 \<and> l \<in> set ls0) \<or>
            (\<exists>c\<in>set cands. fst s = c_label c \<and> l = lineOf c)" .
      then show "firstField l \<in> set ?ex2"
      proof
        assume "\<exists>ls0. map_of (subjectLinesByLabel ?t0') (fst s) = Some ls0 \<and> l \<in> set ls0"
        then obtain ls0 where "map_of (map (\<lambda>s. (fst s, [])) secs) (fst s) = Some ls0"
          and l0: "l \<in> set ls0" by auto
        from map_of_no_lines [OF this(1)] l0 show ?thesis by simp
      next
        assume "\<exists>c\<in>set cands. fst s = c_label c \<and> l = lineOf c"
        then obtain c where c: "c \<in> set cands" and l: "l = lineOf c" by blast
        from cs c have "plainCandidate c" by (simp add: list_all_iff)
        from isEntry_lineOf [OF this] l have k: "firstField l = c_fromName c" by simp
        from first_run_absorbs [OF no cs c, of collate exclusionsFile]
        have "c_fromName c \<in> set (sectionNames secs) \<union>
                set (contentFromNames (orEmpty exclusionsFile))"
          by (simp only: secs [symmetric])
        then show ?thesis by (simp only: k ex2)
      qed
    qed
  next
    show "map_of (dictExistingLines (splitLines (renderFile secs)) (fst s) False []) =
            map_of (map (\<lambda>l. (firstField l, l)) (snd s))"
      using ne sh2 d s by (rule oldLines_renderFile)
  next
    show "distinct (map firstField (snd s))"
      by (rule sectionsOf_shape(3) [OF wf1 pl1 lab sec [OF s]])
  next
    show "sorted (map (\<lambda>l. collate (toLowerCase (firstField l))) (snd s))"
      by (rule sectionsOf_shape(4) [OF wf1 pl1 lab sec [OF s]])
  next
    show "[] \<notin> set (snd s)"
      using sectionsOf_shape(2) [OF wf1 pl1 lab sec [OF s], of "[]"] by blast
  qed
  have "set secs \<subseteq> set secs" by simp
  with all have "sectionsOf collate (renderFile secs) ?t2 (map fst secs) ?ex2 = secs"
    by (rule replay_sections [where t = ?t2 and content = "renderFile secs" and ex = ?ex2])
  then show ?thesis by (simp only: mergedSections_def load orEmpty.simps labels2)
qed

lemma dictMerge_idempotent:
  assumes "noOrphans subjectsFile" and "list_all plainCandidate candidates"
    and "first = dictFileAfter subjectsFile
                   (dictMerge collate subjectsFile exclusionsFile candidates)"
  shows "dictFileAfter first (dictMerge collate first exclusionsFile candidates) = first"
proof -
  define secs where "secs = mergedSections collate subjectsFile exclusionsFile
      (fold dictTrackCandidate candidates (dictLoadSubjects True subjectsFile))"
  have run1: "dictMerge collate subjectsFile exclusionsFile candidates =
      (if secs \<noteq> [] then Some (renderFile secs) else None)"
    by (simp only: dictMerge_sections secs_def Let_def)
  show ?thesis
  proof (cases "secs = []")
    case True
    with run1 assms(3) have "first = subjectsFile" by (simp add: dictFileAfter_def)
    with run1 True show ?thesis by (simp add: dictFileAfter_def)
  next
    case False
    with run1 assms(3) have first: "first = Some (renderFile secs)" by (simp add: dictFileAfter_def)
    have "mergedSections collate (Some (renderFile secs)) exclusionsFile
           (fold dictTrackCandidate candidates (dictLoadSubjects True (Some (renderFile secs)))) = secs"
      using assms(1,2) secs_def False by (rule second_run_sections)
    then have "dictMerge collate (Some (renderFile secs)) exclusionsFile candidates =
        Some (renderFile secs)"
      using False by (simp only: dictMerge_sections Let_def) simp
    then show ?thesis by (simp add: first dictFileAfter_def)
  qed
qed

section \<open>The two forms of the ledger\<close>

subsection \<open>Plain objects\<close>

lemma proto_is_protoName [simp]: "''__proto__'' \<in> set protoNames"
  by (simp add: protoNames_def)

lemma getProp_plain:
  "k \<notin> set protoNames \<Longrightarrow>
   getProp obj k = (case map_of obj k of None \<Rightarrow> Undefined | Some v \<Rightarrow> Own v)"
  by (simp add: getProp_def split: option.splits)

lemma getProp_Own: "getProp obj k = Own v \<longleftrightarrow> map_of obj k = Some v"
  by (simp add: getProp_def split: option.splits)

lemma getProp_Undefined:
  "getProp obj k = Undefined \<longleftrightarrow> map_of obj k = None \<and> k \<notin> set protoNames"
  by (simp add: getProp_def split: option.splits)

lemma getProp_Inherited:
  "getProp obj k = Inherited n \<longleftrightarrow> map_of obj k = None \<and> k \<in> set protoNames \<and> n = k"
  by (auto simp: getProp_def split: option.splits)

lemma setProp_plain: "k \<notin> set protoNames \<Longrightarrow> setProp k v obj = AList.update k v obj"
  by (auto simp: setProp_def)

lemma map_of_setProp:
  "map_of (setProp k v obj) x =
     (if k = ''__proto__'' \<and> map_of obj k = None then map_of obj x
      else if x = k then Some v else map_of obj x)"
  by (auto simp: setProp_def update_conv')

lemma map_of_noProto:
  "map_of (noProto al) k = (if k \<in> set protoNames then None else map_of al k)"
  by (induction al) (auto simp: noProto_def)

lemma noProto_update:
  "noProto (AList.update k v al) =
     (if k \<in> set protoNames then noProto al else AList.update k v (noProto al))"
  by (induction al) (auto simp: noProto_def)

lemma noProto_map_entry:
  "noProto (AList.map_entry k f al) =
     (if k \<in> set protoNames then noProto al else AList.map_entry k f (noProto al))"
  by (induction al) (auto simp: noProto_def)

lemma keys_noProto: "map fst (noProto al) = filter (\<lambda>k. k \<notin> set protoNames) (map fst al)"
  by (induction al) (auto simp: noProto_def)

lemma noProto_Nil_keys: "fst ` set (noProto al) \<inter> set protoNames = {}"
  by (auto simp: noProto_def)

lemma noProto_id: "fst ` set al \<inter> set protoNames = {} \<Longrightarrow> noProto al = al"
  by (induction al) (auto simp: noProto_def)

lemma protoText_lines:
  "list_all (\<lambda>n. \<not> includesStr (protoText n) sep \<and> CHR 0x0A \<notin> set (protoText n) \<and>
                 protoText n \<noteq> []) protoNames"
  by code_simp

lemma protoText_no_entry:
  assumes "l \<in> protoText ` set protoNames"
  shows "\<not> isEntry l" and "CHR 0x0A \<notin> set l"
proof -
  from assms obtain n where n: "n \<in> set protoNames" and l: "l = protoText n" by auto
  from protoText_lines n have "\<not> includesStr (protoText n) sep \<and> CHR 0x0A \<notin> set (protoText n)"
    by (simp add: list_all_iff)
  with l show "\<not> isEntry l" and "CHR 0x0A \<notin> set l" by (simp_all add: isEntry_def)
qed

subsection \<open>A run that does not throw\<close>

lemma simTracked_noTracked: "simTracked noTracked noTracked"
  by (simp add: simTracked_def noTracked_def noProto_def)

lemma simTrackedD:
  assumes "simTracked tf td"
  shows "subjectsByLabel tf = noProto (subjectsByLabel td)"
    and "subjectLinesByLabel tf = noProto (subjectLinesByLabel td)"
    and "k \<in> set protoNames \<Longrightarrow> map_of (subjectsByLabel td) k = Some ns \<Longrightarrow> ns = []"
  using assms unfolding simTracked_def by blast+

lemma simTrackedI:
  assumes "subjectsByLabel tf = noProto (subjectsByLabel td)"
    and "subjectLinesByLabel tf = noProto (subjectLinesByLabel td)"
    and "\<And>k ns. k \<in> set protoNames \<Longrightarrow> map_of (subjectsByLabel td) k = Some ns \<Longrightarrow> ns = []"
  shows "simTracked tf td"
  unfolding simTracked_def using assms by blast

lemma sim_ensureLabel:
  assumes sim: "simTracked tf td"
  shows "simTracked (ensureLabel label tf) (dictEnsureLabel label td)"
proof (cases "label \<in> set protoNames")
  case True
  then have f: "ensureLabel label tf = tf"
    by (simp add: ensureLabel_def getProp_def simTrackedD(1) [OF sim] map_of_noProto)
  show ?thesis
  proof (cases "map_of (subjectsByLabel td) label")
    case (Some ns)
    then have "dictEnsureLabel label td = td" by (simp add: dictEnsureLabel_def)
    with f sim show ?thesis by simp
  next
    case None
    then have d: "dictEnsureLabel label td =
        td\<lparr> subjectsByLabel := AList.update label [] (subjectsByLabel td),
            subjectLinesByLabel := AList.update label [] (subjectLinesByLabel td) \<rparr>"
      by (simp add: dictEnsureLabel_def)
    show ?thesis
    proof (rule simTrackedI)
      show "subjectsByLabel (ensureLabel label tf) =
            noProto (subjectsByLabel (dictEnsureLabel label td))"
        using True by (simp add: f d noProto_update simTrackedD(1) [OF sim])
      show "subjectLinesByLabel (ensureLabel label tf) =
            noProto (subjectLinesByLabel (dictEnsureLabel label td))"
        using True by (simp add: f d noProto_update simTrackedD(2) [OF sim])
    next
      fix k ns
      assume k: "k \<in> set protoNames"
        and m: "map_of (subjectsByLabel (dictEnsureLabel label td)) k = Some ns"
      show "ns = []"
      proof (cases "k = label")
        case True
        with m show ?thesis by (simp add: d update_conv')
      next
        case False
        with m have "map_of (subjectsByLabel td) k = Some ns" by (simp add: d update_conv')
        from simTrackedD(3) [OF sim k this] show ?thesis .
      qed
    qed
  qed
next
  case False
  show ?thesis
  proof (cases "map_of (subjectsByLabel td) label")
    case (Some ns)
    then have "dictEnsureLabel label td = td" by (simp add: dictEnsureLabel_def)
    moreover from Some False have "ensureLabel label tf = tf"
      by (simp add: ensureLabel_def getProp_def simTrackedD(1) [OF sim] map_of_noProto)
    ultimately show ?thesis using sim by simp
  next
    case None
    then have d: "dictEnsureLabel label td =
        td\<lparr> subjectsByLabel := AList.update label [] (subjectsByLabel td),
            subjectLinesByLabel := AList.update label [] (subjectLinesByLabel td) \<rparr>"
      by (simp add: dictEnsureLabel_def)
    from None False have f: "ensureLabel label tf =
        tf\<lparr> subjectsByLabel := AList.update label [] (subjectsByLabel tf),
            subjectLinesByLabel := AList.update label [] (subjectLinesByLabel tf) \<rparr>"
      by (simp add: ensureLabel_def getProp_def simTrackedD(1) [OF sim] map_of_noProto
          setProp_plain)
    show ?thesis
    proof (rule simTrackedI)
      show "subjectsByLabel (ensureLabel label tf) =
            noProto (subjectsByLabel (dictEnsureLabel label td))"
        using False by (simp add: f d noProto_update simTrackedD(1) [OF sim])
      show "subjectLinesByLabel (ensureLabel label tf) =
            noProto (subjectLinesByLabel (dictEnsureLabel label td))"
        using False by (simp add: f d noProto_update simTrackedD(2) [OF sim])
    next
      fix k ns
      assume k: "k \<in> set protoNames"
        and m: "map_of (subjectsByLabel (dictEnsureLabel label td)) k = Some ns"
      from k False have "k \<noteq> label" by auto
      with m have "map_of (subjectsByLabel td) k = Some ns" by (simp add: d update_conv')
      from simTrackedD(3) [OF sim k this] show "ns = []" .
    qed
  qed
qed

lemma sim_map_entry:
  assumes sim: "simTracked tf td" and l: "label \<notin> set protoNames"
  shows "simTracked (tf\<lparr> subjectsByLabel := AList.map_entry label f (subjectsByLabel tf) \<rparr>)
           (td\<lparr> subjectsByLabel := AList.map_entry label f (subjectsByLabel td) \<rparr>)"
proof (rule simTrackedI)
  show "subjectsByLabel (tf\<lparr> subjectsByLabel := AList.map_entry label f (subjectsByLabel tf) \<rparr>) =
        noProto (subjectsByLabel
          (td\<lparr> subjectsByLabel := AList.map_entry label f (subjectsByLabel td) \<rparr>))"
    using l by (simp add: noProto_map_entry simTrackedD(1) [OF sim])
  show "subjectLinesByLabel
          (tf\<lparr> subjectsByLabel := AList.map_entry label f (subjectsByLabel tf) \<rparr>) =
        noProto (subjectLinesByLabel
          (td\<lparr> subjectsByLabel := AList.map_entry label f (subjectsByLabel td) \<rparr>))"
    by (simp add: simTrackedD(2) [OF sim])
next
  fix k ns
  assume k: "k \<in> set protoNames"
    and m: "map_of (subjectsByLabel
              (td\<lparr> subjectsByLabel := AList.map_entry label f (subjectsByLabel td) \<rparr>)) k =
            Some ns"
  from k l have "k \<noteq> label" by auto
  with m have "map_of (subjectsByLabel td) k = Some ns" by (simp add: map_entry_lookup)
  from simTrackedD(3) [OF sim k this] show "ns = []" .
qed

lemma addName_Inr:
  assumes "addName label n t = Inr t'"
  shows "(\<exists>names. map_of (subjectsByLabel t) label = Some names) \<and>
         t' = t\<lparr> subjectsByLabel := AList.map_entry label (setAdd n) (subjectsByLabel t) \<rparr>"
  using assms by (auto simp: addName_def getProp_def split: option.splits if_splits)

lemma sim_own_label:
  assumes sim: "simTracked tf td" and m: "map_of (subjectsByLabel tf) label = Some names"
  shows "label \<notin> set protoNames" and "map_of (subjectsByLabel td) label = Some names"
  using m by (simp_all add: simTrackedD(1) [OF sim] map_of_noProto split: if_splits)

lemma sim_loadLines:
  "simTracked tf td \<Longrightarrow> loadLines ls cur tf = Inr tf' \<Longrightarrow>
   simTracked tf' (dictLoadLines ls cur td)"
proof (induction ls arbitrary: cur tf td)
  case Nil
  then show ?case by simp
next
  case (Cons line ls)
  show ?case
  proof (cases "isHeader line")
    case True
    from Cons.prems(2) True have
      "loadLines ls (Some (labelOf line)) (ensureLabel (labelOf line) tf) = Inr tf'" by simp
    from Cons.IH [OF sim_ensureLabel [OF Cons.prems(1)] this] True show ?thesis by simp
  next
    case False
    show ?thesis
    proof (cases "nonBlank line \<and> truthy cur \<and> includesStr line sep")
      case True
      with False Cons.prems(2) obtain t1 where
        a: "addName (orEmpty cur) (firstField line) tf = Inr t1"
        and l: "loadLines ls cur t1 = Inr tf'"
        by (cases "addName (orEmpty cur) (firstField line) tf") simp_all
      from addName_Inr [OF a] obtain names where
        m: "map_of (subjectsByLabel tf) (orEmpty cur) = Some names"
        and t1: "t1 = tf\<lparr> subjectsByLabel :=
                   AList.map_entry (orEmpty cur) (setAdd (firstField line)) (subjectsByLabel tf) \<rparr>"
        by blast
      have "simTracked t1 (td\<lparr> subjectsByLabel :=
              AList.map_entry (orEmpty cur) (setAdd (firstField line)) (subjectsByLabel td) \<rparr>)"
        unfolding t1 using Cons.prems(1) sim_own_label(1) [OF Cons.prems(1) m]
        by (rule sim_map_entry)
      from Cons.IH [OF this l] False True show ?thesis by simp
    next
      case no: False
      with False Cons.prems(2) have "loadLines ls cur tf = Inr tf'" by auto
      from Cons.IH [OF Cons.prems(1) this] False no show ?thesis by auto
    qed
  qed
qed

lemma sim_loadSubjects:
  "loadSubjects b file = Inr tf \<Longrightarrow> simTracked tf (dictLoadSubjects b file)"
  by (auto simp: loadSubjects_def dictLoadSubjects_def simTracked_noTracked
      intro: sim_loadLines [OF simTracked_noTracked] split: if_splits option.splits)

lemma sim_map_entry2:
  assumes sim: "simTracked tf td" and l: "label \<notin> set protoNames"
  shows "simTracked
           (tf\<lparr> subjectsByLabel := AList.map_entry label f (subjectsByLabel tf),
               subjectLinesByLabel := AList.map_entry label g (subjectLinesByLabel tf) \<rparr>)
           (td\<lparr> subjectsByLabel := AList.map_entry label f (subjectsByLabel td),
               subjectLinesByLabel := AList.map_entry label g (subjectLinesByLabel td) \<rparr>)"
proof (rule simTrackedI)
  show "subjectsByLabel
          (tf\<lparr> subjectsByLabel := AList.map_entry label f (subjectsByLabel tf),
              subjectLinesByLabel := AList.map_entry label g (subjectLinesByLabel tf) \<rparr>) =
        noProto (subjectsByLabel
          (td\<lparr> subjectsByLabel := AList.map_entry label f (subjectsByLabel td),
              subjectLinesByLabel := AList.map_entry label g (subjectLinesByLabel td) \<rparr>))"
    using l by (simp add: noProto_map_entry simTrackedD(1) [OF sim])
  show "subjectLinesByLabel
          (tf\<lparr> subjectsByLabel := AList.map_entry label f (subjectsByLabel tf),
              subjectLinesByLabel := AList.map_entry label g (subjectLinesByLabel tf) \<rparr>) =
        noProto (subjectLinesByLabel
          (td\<lparr> subjectsByLabel := AList.map_entry label f (subjectsByLabel td),
              subjectLinesByLabel := AList.map_entry label g (subjectLinesByLabel td) \<rparr>))"
    using l by (simp add: noProto_map_entry simTrackedD(2) [OF sim])
next
  fix k ns
  assume k: "k \<in> set protoNames"
    and m: "map_of (subjectsByLabel
              (td\<lparr> subjectsByLabel := AList.map_entry label f (subjectsByLabel td),
                  subjectLinesByLabel := AList.map_entry label g (subjectLinesByLabel td) \<rparr>)) k =
            Some ns"
  from k l have "k \<noteq> label" by auto
  with m have "map_of (subjectsByLabel td) k = Some ns" by (simp add: map_entry_lookup)
  from simTrackedD(3) [OF sim k this] show "ns = []" .
qed

lemma trackSubject_Inr:
  assumes "trackSubject label n subject ident t = Inr t'"
  shows "\<exists>names. map_of (subjectsByLabel (ensureLabel label t)) label = Some names \<and>
           (if n \<in> set names then t' = ensureLabel label t
            else t' = (ensureLabel label t)
                   \<lparr> subjectsByLabel :=
                       AList.map_entry label (\<lambda>names. names @ [n])
                         (subjectsByLabel (ensureLabel label t)),
                     subjectLinesByLabel :=
                       AList.map_entry label (\<lambda>ls. ls @ [subjectLineOf n subject ident])
                         (subjectLinesByLabel (ensureLabel label t)) \<rparr>)"
proof (cases "getProp (subjectsByLabel (ensureLabel label t)) label")
  case Undefined
  with assms show ?thesis by (simp add: trackSubject_def Let_def)
next
  case (Inherited name)
  with assms show ?thesis by (simp add: trackSubject_def Let_def)
next
  case (Own names)
  then have m: "map_of (subjectsByLabel (ensureLabel label t)) label = Some names"
    by (simp add: getProp_Own)
  show ?thesis
  proof (cases "n \<in> set names")
    case True
    with assms Own m show ?thesis by (simp add: trackSubject_def Let_def)
  next
    case False
    with assms Own m show ?thesis
      by (cases "getProp (subjectLinesByLabel (ensureLabel label t)) label")
        (simp_all add: trackSubject_def Let_def)
  qed
qed

lemma sim_trackCandidate:
  assumes sim: "simTracked tf td" and tr: "trackCandidate c tf = Inr tf'"
  shows "simTracked tf' (dictTrackCandidate c td)"
proof -
  let ?f1 = "ensureLabel (c_label c) tf"
  let ?d1 = "dictEnsureLabel (c_label c) td"
  have sim1: "simTracked ?f1 ?d1" using sim by (rule sim_ensureLabel)
  from tr have "trackSubject (c_label c) (c_fromName c) (c_subject c) (c_id c) tf = Inr tf'"
    by (simp add: trackCandidate_def)
  from trackSubject_Inr [OF this] obtain names where
    m: "map_of (subjectsByLabel ?f1) (c_label c) = Some names"
    and r: "if c_fromName c \<in> set names then tf' = ?f1
            else tf' = ?f1
                   \<lparr> subjectsByLabel :=
                       AList.map_entry (c_label c) (\<lambda>names. names @ [c_fromName c])
                         (subjectsByLabel ?f1),
                     subjectLinesByLabel :=
                       AList.map_entry (c_label c)
                         (\<lambda>ls. ls @ [subjectLineOf (c_fromName c) (c_subject c) (c_id c)])
                         (subjectLinesByLabel ?f1) \<rparr>"
    by blast
  note own = sim_own_label [OF sim1 m]
  show ?thesis
  proof (cases "c_fromName c \<in> set names")
    case True
    with r have "tf' = ?f1" by simp
    moreover from True own(2) have "dictTrackCandidate c td = ?d1"
      by (simp add: dictTrackCandidate_def dictTrackSubject_def Let_def)
    ultimately show ?thesis using sim1 by simp
  next
    case False
    with r have f: "tf' = ?f1
                   \<lparr> subjectsByLabel :=
                       AList.map_entry (c_label c) (\<lambda>names. names @ [c_fromName c])
                         (subjectsByLabel ?f1),
                     subjectLinesByLabel :=
                       AList.map_entry (c_label c)
                         (\<lambda>ls. ls @ [subjectLineOf (c_fromName c) (c_subject c) (c_id c)])
                         (subjectLinesByLabel ?f1) \<rparr>"
      by simp
    from False own(2) have d: "dictTrackCandidate c td = ?d1
                   \<lparr> subjectsByLabel :=
                       AList.map_entry (c_label c) (\<lambda>names. names @ [c_fromName c])
                         (subjectsByLabel ?d1),
                     subjectLinesByLabel :=
                       AList.map_entry (c_label c)
                         (\<lambda>ls. ls @ [subjectLineOf (c_fromName c) (c_subject c) (c_id c)])
                         (subjectLinesByLabel ?d1) \<rparr>"
      by (simp add: dictTrackCandidate_def dictTrackSubject_def Let_def)
    show ?thesis unfolding f d using sim1 own(1) by (rule sim_map_entry2)
  qed
qed

lemma sim_trackAll:
  "simTracked tf td \<Longrightarrow> trackAll cs tf = Inr tf' \<Longrightarrow>
   simTracked tf' (fold dictTrackCandidate cs td)"
proof (induction cs arbitrary: tf td)
  case Nil
  then show ?case by simp
next
  case (Cons c cs)
  from Cons.prems(2) obtain t1 where a: "trackCandidate c tf = Inr t1"
    and b: "trackAll cs t1 = Inr tf'"
    by (cases "trackCandidate c tf") simp_all
  from Cons.IH [OF sim_trackCandidate [OF Cons.prems(1) a] b] show ?case by simp
qed

subsection \<open>\<^verbatim>\<open>subjectMap\<close> and its dictionary\<close>

lemma objRelI:
  assumes "\<And>k. k \<notin> set protoNames \<Longrightarrow> map_of smF k = map_of smD k"
    and "\<And>k v. map_of smF k = Some v \<Longrightarrow> map_of smD k = Some v"
  shows "objRel smF smD"
  unfolding objRel_def using assms by blast

lemma objRelD:
  assumes "objRel smF smD"
  shows "k \<notin> set protoNames \<Longrightarrow> map_of smF k = map_of smD k"
    and "map_of smF k = Some v \<Longrightarrow> map_of smD k = Some v"
  using assms unfolding objRel_def by blast+

lemma objRel_Nil: "objRel [] []"
  by (simp add: objRel_def)

lemma objRel_skip:
  assumes rel: "objRel smF smD" and k: "k \<in> set protoNames" and n: "map_of smF k = None"
  shows "objRel smF (AList.update k v smD)"
proof (rule objRelI)
  fix x
  assume x: "x \<notin> set protoNames"
  with k have "x \<noteq> k" by auto
  with objRelD(1) [OF rel x] show "map_of smF x = map_of (AList.update k v smD) x"
    by (simp add: update_conv')
next
  fix x w
  assume m: "map_of smF x = Some w"
  with n have "x \<noteq> k" by auto
  with objRelD(2) [OF rel m] show "map_of (AList.update k v smD) x = Some w"
    by (simp add: update_conv')
qed

lemma setProp_ignored:
  "k = ''__proto__'' \<Longrightarrow> map_of obj k = None \<Longrightarrow> setProp k v obj = obj"
  by (simp add: setProp_def)

lemma setProp_update:
  "\<not> (k = ''__proto__'' \<and> map_of obj k = None) \<Longrightarrow> setProp k v obj = AList.update k v obj"
  by (auto simp: setProp_def)

lemma objRel_update:
  assumes rel: "objRel smF smD"
  shows "objRel (AList.update k v smF) (AList.update k v smD)"
proof (rule objRelI)
  fix x
  assume "x \<notin> set protoNames"
  from objRelD(1) [OF rel this]
  show "map_of (AList.update k v smF) x = map_of (AList.update k v smD) x"
    by (simp add: update_conv')
next
  fix x w
  assume m: "map_of (AList.update k v smF) x = Some w"
  show "map_of (AList.update k v smD) x = Some w"
  proof (cases "x = k")
    case True
    with m show ?thesis by (simp add: update_conv')
  next
    case False
    with m have "map_of smF x = Some w" by (simp add: update_conv')
    from objRelD(2) [OF rel this] False show ?thesis by (simp add: update_conv')
  qed
qed

lemma objRel_setProp:
  assumes rel: "objRel smF smD"
  shows "objRel (setProp k v smF) (AList.update k v smD)"
proof (cases "k = ''__proto__'' \<and> map_of smF k = None")
  case True
  then have "setProp k v smF = smF" using setProp_ignored [of k smF v] by blast
  moreover have "objRel smF (AList.update k v smD)"
    using rel _ conjunct2 [OF True]
  proof (rule objRel_skip)
    from True proto_is_protoName show "k \<in> set protoNames" by blast
  qed
  ultimately show ?thesis by simp
next
  case False
  then have "setProp k v smF = AList.update k v smF" by (rule setProp_update)
  with objRel_update [OF rel] show ?thesis by simp
qed

text \<open>One line of the loop that fills \<^verbatim>\<open>subjectMap\<close>.\<close>

lemma existing_step_rel:
  assumes rel: "objRel smF smD" and ne0: "\<forall>k v. map_of smF k = Some v \<longrightarrow> v \<noteq> []"
    and line: "line \<noteq> []"
  shows "objRel
           (case getProp smF k of
              Undefined \<Rightarrow> setProp k line smF
            | Own v \<Rightarrow> if v = [] then setProp k line smF else smF
            | Inherited name \<Rightarrow> smF)
           (if map_of smD k = None then AList.update k line smD else smD)"
    (is "objRel ?F ?D")
    and "map_of
           (case getProp smF k of
              Undefined \<Rightarrow> setProp k line smF
            | Own v \<Rightarrow> if v = [] then setProp k line smF else smF
            | Inherited name \<Rightarrow> smF) x = Some w \<Longrightarrow> w \<noteq> []"
proof -
  have ne: "\<And>k v. map_of smF k = Some v \<Longrightarrow> v \<noteq> []" using ne0 by blast
  show "objRel ?F ?D"
  proof (cases "map_of smF k")
    case (Some v)
    then have "v \<noteq> []" by (rule ne)
    with Some have f: "?F = smF" by (simp add: getProp_def)
    from objRelD(2) [OF rel Some] have "?D = smD" by simp
    with f rel show ?thesis by simp
  next
    case None
    show ?thesis
    proof (cases "k \<in> set protoNames")
      case True
      with None have f: "?F = smF" by (simp add: getProp_def)
      show ?thesis
      proof (cases "map_of smD k")
        case d: None
        then have "?D = AList.update k line smD" by simp
        with f objRel_skip [OF rel True None] show ?thesis by simp
      next
        case (Some v)
        then have "?D = smD" by simp
        with f rel show ?thesis by simp
      qed
    next
      case False
      with None have f: "?F = setProp k line smF" by (simp add: getProp_def)
      from None objRelD(1) [OF rel False] have "map_of smD k = None" by simp
      then have "?D = AList.update k line smD" by simp
      with f objRel_setProp [OF rel] show ?thesis by simp
    qed
  qed
  show "w \<noteq> []" if m: "map_of ?F x = Some w"
  proof (cases "map_of smF k")
    case (Some v)
    then have "v \<noteq> []" by (rule ne)
    with Some have "?F = smF" by (simp add: getProp_def)
    with m have "map_of smF x = Some w" by simp
    then show ?thesis by (rule ne)
  next
    case None
    show ?thesis
    proof (cases "k \<in> set protoNames")
      case True
      with None have "?F = smF" by (simp add: getProp_def)
      with m have "map_of smF x = Some w" by simp
      then show ?thesis by (rule ne)
    next
      case False
      with None have "?F = setProp k line smF" by (simp add: getProp_def)
      with m have "map_of (setProp k line smF) x = Some w" by simp
      then have "w = line \<or> map_of smF x = Some w"
        by (auto simp: map_of_setProp split: if_splits)
      then show ?thesis
      proof
        assume "w = line"
        with line show ?thesis by simp
      next
        assume "map_of smF x = Some w"
        then show ?thesis by (rule ne)
      qed
    qed
  qed
qed

lemma existingLines_rel:
  "objRel smF smD \<Longrightarrow> (\<forall>k v. map_of smF k = Some v \<longrightarrow> v \<noteq> []) \<Longrightarrow>
   objRel (existingLines ls label b smF) (dictExistingLines ls label b smD)"
proof (induction ls arbitrary: b smF smD)
  case Nil
  then show ?case by simp
next
  case (Cons line ls)
  show ?case
  proof (cases "isHeader line")
    case True
    with Cons.IH [OF Cons.prems] show ?thesis by simp
  next
    case False
    show ?thesis
    proof (cases "b \<and> nonBlank line \<and> includesStr line sep")
      case True
      then have line: "line \<noteq> []" by auto
      let ?F = "case getProp smF (firstField line) of
              Undefined \<Rightarrow> setProp (firstField line) line smF
            | Own v \<Rightarrow> if v = [] then setProp (firstField line) line smF else smF
            | Inherited name \<Rightarrow> smF"
      let ?D = "if map_of smD (firstField line) = None
                then AList.update (firstField line) line smD else smD"
      have 1: "objRel ?F ?D" using Cons.prems line by (rule existing_step_rel(1))
      have 2: "\<forall>k v. map_of ?F k = Some v \<longrightarrow> v \<noteq> []"
        using existing_step_rel(2) [OF Cons.prems line] by blast
      from Cons.IH [OF 1 2] False True show ?thesis by simp
    next
      case no: False
      with False Cons.IH [OF Cons.prems] show ?thesis by auto
    qed
  qed
qed

lemma addNew_rel:
  "objRel smF smD \<Longrightarrow>
   objRel (fst (addNew ls (smF, ex))) (fst (dictAddNew ls (smD, ex))) \<and>
   snd (addNew ls (smF, ex)) = snd (dictAddNew ls (smD, ex))"
proof (induction ls arbitrary: smF smD ex)
  case Nil
  then show ?case by simp
next
  case (Cons l ls)
  show ?case
  proof (cases "firstField l \<in> set ex")
    case True
    with Cons.IH [OF Cons.prems] show ?thesis by simp
  next
    case False
    have "objRel (setProp (firstField l) l smF) (AList.update (firstField l) l smD)"
      using Cons.prems by (rule objRel_setProp)
    from Cons.IH [OF this] False show ?thesis by simp
  qed
qed

text \<open>The lines that are written for the names of a label.\<close>

lemma emitted_rel:
  assumes rel: "objRel smF smD"
  shows "sectionRel (label, List.map_filter (subjectOf smF) names)
           (label, filter (\<lambda>l. l \<noteq> []) (List.map_filter (map_of smD) names))"
proof -
  have "subseq (filter isEntry (List.map_filter (subjectOf smF) names))
          (filter isEntry (filter (\<lambda>l. l \<noteq> []) (List.map_filter (map_of smD) names))) \<and>
        (\<forall>l\<in>set (List.map_filter (subjectOf smF) names).
           l \<in> set (filter (\<lambda>l. l \<noteq> []) (List.map_filter (map_of smD) names)) \<or>
           l \<in> protoText ` set protoNames)"
  proof (induction names)
    case Nil
    show ?case by (simp add: List.map_filter_simps)
  next
    case (Cons n names)
    let ?lf = "List.map_filter (subjectOf smF) names"
    let ?ld = "filter (\<lambda>l. l \<noteq> []) (List.map_filter (map_of smD) names)"
    show ?case
    proof (cases "map_of smF n")
      case (Some v)
      from objRelD(2) [OF rel Some] have d: "map_of smD n = Some v" .
      from Some have f: "subjectOf smF n = (if v = [] then None else Some v)"
        by (simp add: subjectOf_def getProp_def)
      from Cons.IH f d show ?thesis by (auto simp: List.map_filter_simps)
    next
      case None
      show ?thesis
      proof (cases "n \<in> set protoNames")
        case True
        with None have f: "subjectOf smF n = Some (protoText n)"
          by (simp add: subjectOf_def getProp_def)
        have p: "protoText n \<in> protoText ` set protoNames" using True by (rule imageI)
        have ne: "\<not> isEntry (protoText n)" using p by (rule protoText_no_entry(1))
        have s: "subseq (filter isEntry ?lf)
                   (filter isEntry (filter (\<lambda>l. l \<noteq> []) (List.map_filter (map_of smD) (n # names))))"
        proof (cases "map_of smD n")
          case d: None
          with Cons.IH show ?thesis by (simp add: List.map_filter_simps)
        next
          case (Some v)
          with Cons.IH show ?thesis by (auto simp: List.map_filter_simps)
        qed
        have m: "set ?ld \<subseteq> set (filter (\<lambda>l. l \<noteq> []) (List.map_filter (map_of smD) (n # names)))"
          by (cases "map_of smD n") (auto simp: List.map_filter_simps)
        from Cons.IH s m f ne p show ?thesis
          by (auto simp: List.map_filter_simps)
      next
        case False
        from None objRelD(1) [OF rel False] have d: "map_of smD n = None" by simp
        from None False have "subjectOf smF n = None"
          by (simp add: subjectOf_def getProp_def)
        with Cons.IH d show ?thesis by (simp add: List.map_filter_simps)
      qed
    qed
  qed
  then show ?thesis by (simp add: sectionRel_def)
qed

lemma emitted_exact:
  assumes rel: "objRel smF smD" and names: "set names \<inter> set protoNames = {}"
  shows "List.map_filter (subjectOf smF) names =
           filter (\<lambda>l. l \<noteq> []) (List.map_filter (map_of smD) names)"
  using names
proof (induction names)
  case Nil
  show ?case by (simp add: List.map_filter_simps)
next
  case (Cons n names)
  then have n: "n \<notin> set protoNames" and rest: "set names \<inter> set protoNames = {}" by auto
  have "subjectOf smF n =
          (case map_of smD n of None \<Rightarrow> None | Some v \<Rightarrow> if v = [] then None else Some v)"
    using objRelD(1) [OF rel n] n
    by (simp add: subjectOf_def getProp_def split: option.splits)
  with Cons.IH [OF rest] show ?case
    by (simp add: List.map_filter_simps split: option.splits)
qed

subsection \<open>The sections of the two rewrites\<close>

lemma newLines_same:
  assumes "map_of (subjectLinesByLabel tf) label = map_of (subjectLinesByLabel td) label"
  shows "(case getProp (subjectLinesByLabel tf) label of
            Undefined \<Rightarrow> [] | Own ls \<Rightarrow> ls | Inherited name \<Rightarrow> []) =
         (case map_of (subjectLinesByLabel td) label of None \<Rightarrow> [] | Some ls \<Rightarrow> ls)"
  using assms by (simp add: getProp_def split: option.splits)

lemma labelStep_rel:
  assumes "map_of (subjectLinesByLabel tf) label = map_of (subjectLinesByLabel td) label"
  shows "objRel (fst (labelStepF content tf label ex)) (fst (labelStep content td label ex))"
    and "snd (labelStepF content tf label ex) = snd (labelStep content td label ex)"
proof -
  have "objRel (existingLines (splitLines content) label False [])
          (dictExistingLines (splitLines content) label False [])"
    using objRel_Nil by (rule existingLines_rel) simp
  from addNew_rel [OF this]
  show "objRel (fst (labelStepF content tf label ex)) (fst (labelStep content td label ex))"
    and "snd (labelStepF content tf label ex) = snd (labelStep content td label ex)"
    by (simp_all only: labelStepF_def labelStep_def newLines_same [OF assms])
qed

lemma sections_rel:
  "\<forall>label\<in>set labels.
      map_of (subjectsByLabel tf) label = map_of (subjectsByLabel td) label \<and>
      map_of (subjectLinesByLabel tf) label = map_of (subjectLinesByLabel td) label \<Longrightarrow>
   list_all2 sectionRel (sectionsF collate content tf labels ex)
     (sectionsOf collate content td labels ex)"
proof (induction labels arbitrary: ex)
  case Nil
  show ?case by simp
next
  case (Cons label labels)
  from Cons.prems have s: "map_of (subjectsByLabel tf) label = map_of (subjectsByLabel td) label"
    and l: "map_of (subjectLinesByLabel tf) label = map_of (subjectLinesByLabel td) label"
    and rest: "\<forall>label\<in>set labels.
      map_of (subjectsByLabel tf) label = map_of (subjectsByLabel td) label \<and>
      map_of (subjectLinesByLabel tf) label = map_of (subjectLinesByLabel td) label"
    by simp_all
  note ex1 = labelStep_rel(2) [OF l, where content = content and ex = ex]
  have r: "sectionRel (label, labelSubjectsF collate content tf label ex)
             (label, labelSubjects collate content td label ex)"
    unfolding labelSubjectsF_def labelSubjects_def s
    using labelStep_rel(1) [OF l] by (rule emitted_rel)
  show ?case
  proof (cases "the (map_of (subjectsByLabel td) label) \<noteq> []")
    case True
    with Cons.IH [OF rest, of "snd (labelStep content td label ex)"] r show ?thesis
      by (simp add: s ex1)
  next
    case False
    with Cons.IH [OF rest, of ex] show ?thesis by (simp add: s)
  qed
qed

lemma sections_exact:
  "\<forall>label\<in>set labels. set (the (map_of (subjectsByLabel t) label)) \<inter> set protoNames = {} \<Longrightarrow>
   sectionsF collate content t labels ex = sectionsOf collate content t labels ex"
proof (induction labels arbitrary: ex)
  case Nil
  show ?case by simp
next
  case (Cons label labels)
  from Cons.prems have n: "set (the (map_of (subjectsByLabel t) label)) \<inter> set protoNames = {}"
    and rest: "\<forall>label\<in>set labels.
      set (the (map_of (subjectsByLabel t) label)) \<inter> set protoNames = {}"
    by simp_all
  note ex1 = labelStep_rel(2) [OF refl, where td = t and label = label and content = content
      and ex = ex]
  have "set (sortFromNames collate (the (map_of (subjectsByLabel t) label))) \<inter>
          set protoNames = {}"
    using n by simp
  with labelStep_rel(1) [OF refl, where td = t and label = label and content = content
      and ex = ex]
  have r: "labelSubjectsF collate content t label ex = labelSubjects collate content t label ex"
    unfolding labelSubjectsF_def labelSubjects_def by (rule emitted_exact)
  show ?case
  proof (cases "the (map_of (subjectsByLabel t) label) \<noteq> []")
    case True
    with Cons.IH [OF rest, of "snd (labelStep content t label ex)"] r show ?thesis
      by (simp add: ex1)
  next
    case False
    with Cons.IH [OF rest, of ex] show ?thesis by simp
  qed
qed

lemma sectionsOf_skip:
  "\<forall>label\<in>set labels. \<not> P label \<longrightarrow> the (map_of (subjectsByLabel t) label) = [] \<Longrightarrow>
   sectionsOf collate content t (filter P labels) ex = sectionsOf collate content t labels ex"
  by (induction labels arbitrary: ex) auto

lemma buildSections_sectionsF:
  "\<forall>label\<in>set labels. label \<notin> set protoNames \<Longrightarrow>
   buildSections collate content t labels ex =
     Inr (map (\<lambda>s. renderSection (fst s) (snd s)) (sectionsF collate content t labels ex))"
proof (induction labels arbitrary: ex)
  case Nil
  show ?case by simp
next
  case (Cons label labels)
  then have l: "label \<notin> set protoNames" and rest: "\<forall>label\<in>set labels. label \<notin> set protoNames"
    by simp_all
  let ?new = "case getProp (subjectLinesByLabel t) label of
                Undefined \<Rightarrow> [] | Own ls \<Rightarrow> ls | Inherited name \<Rightarrow> []"
  have c: "(case getProp (subjectLinesByLabel t) label of
              Undefined \<Rightarrow> Inr []
            | Own ls \<Rightarrow> Inr ls
            | Inherited name \<Rightarrow> Inl TypeError) = (Inr ?new :: error + string list)"
    using l by (simp add: getProp_def split: option.splits)
  show ?case
  proof (cases "the (map_of (subjectsByLabel t) label) \<noteq> []")
    case False
    with Cons.IH [OF rest, of ex] show ?thesis by (simp add: Let_def)
  next
    case True
    then have "sortFromNames collate (the (map_of (subjectsByLabel t) label)) \<noteq> []" by simp
    then show ?thesis
      using True Cons.IH [OF rest, of "snd (labelStepF content t label ex)"]
      by (simp add: Let_def c labelStepF_def labelSubjectsF_def case_prod_unfold)
  qed
qed

lemma saveSubjects_sectionsF:
  assumes "fst ` set (subjectsByLabel t) \<inter> set protoNames = {}"
  shows "saveSubjects collate True subjectsFile exclusionsFile t =
     Inr (let secs = sectionsF collate (orEmpty subjectsFile) t
                       (sort (map fst (subjectsByLabel t)))
                       (existingFromNames0 subjectsFile exclusionsFile)
          in if secs \<noteq> [] then Some (renderFile secs) else None)"
proof -
  have "\<forall>label\<in>set (sort (map fst (subjectsByLabel t))). label \<notin> set protoNames"
    using assms by auto
  note b = buildSections_sectionsF [OF this]
  show ?thesis
  proof (cases "subjectsByLabel t = []")
    case True
    then show ?thesis by (simp add: saveSubjects_def)
  next
    case False
    then show ?thesis
      by (simp add: saveSubjects_def Let_def b existingFromNames0_def renderFile_def)
  qed
qed

subsection \<open>The merge on objects and the merge on dictionaries\<close>

lemma subseq_set_mono: "subseq xs ys \<Longrightarrow> set xs \<subseteq> set ys"
  by (auto elim: list_emb_set)

lemma subseq_distinct: "subseq xs ys \<Longrightarrow> distinct ys \<Longrightarrow> distinct xs"
  by (induct rule: list_emb.induct) (auto dest: subseq_set_mono)

lemma list_all2_left: "list_all2 P xs ys \<Longrightarrow> x \<in> set xs \<Longrightarrow> \<exists>y\<in>set ys. P x y"
  by (induction rule: list_all2_induct) auto

lemma sectionRel_entries:
  "list_all2 sectionRel secsF secsD \<Longrightarrow>
   subseq (filter isEntry (concat (map snd secsF))) (filter isEntry (concat (map snd secsD)))"
  by (induction rule: list_all2_induct) (auto simp: sectionRel_def intro: list_emb_append_mono)

lemma mergeAndPersist_Inr:
  assumes "mergeAndPersist collate subjectsFile exclusionsFile cands = Inr w"
  shows "\<exists>t0 tf. loadSubjects True subjectsFile = Inr t0 \<and> trackAll cands t0 = Inr tf \<and>
                 saveSubjects collate True subjectsFile exclusionsFile tf = Inr w"
  using assms by (auto simp: mergeAndPersist_def split: sum.splits)

text \<open>
  A merge that does not throw writes a file when the merge on dictionaries does, with
  the same labels; the entry lines that it writes are among those of the other.
\<close>

lemma merge_sim:
  assumes m: "mergeAndPersist collate subjectsFile exclusionsFile cands = Inr w"
  shows "\<exists>secsF. list_all2 sectionRel secsF
            (mergedSections collate subjectsFile exclusionsFile
               (fold dictTrackCandidate cands (dictLoadSubjects True subjectsFile))) \<and>
          w = (if secsF \<noteq> [] then Some (renderFile secsF) else None)"
proof -
  let ?td = "fold dictTrackCandidate cands (dictLoadSubjects True subjectsFile)"
  let ?P = "\<lambda>k. k \<notin> set protoNames"
  from mergeAndPersist_Inr [OF m] obtain t0 tf where
    l: "loadSubjects True subjectsFile = Inr t0" and tr: "trackAll cands t0 = Inr tf"
    and sv: "saveSubjects collate True subjectsFile exclusionsFile tf = Inr w" by blast
  have sim: "simTracked tf ?td"
    using sim_loadSubjects [OF l] tr by (rule sim_trackAll)
  let ?labels = "sort (map fst (subjectsByLabel tf))"
  let ?secsF = "sectionsF collate (orEmpty subjectsFile) tf ?labels
                  (existingFromNames0 subjectsFile exclusionsFile)"
  have keys: "fst ` set (subjectsByLabel tf) \<inter> set protoNames = {}"
    by (simp only: simTrackedD(1) [OF sim] noProto_Nil_keys)
  from sv have w: "w = (if ?secsF \<noteq> [] then Some (renderFile ?secsF) else None)"
    by (simp add: saveSubjects_sectionsF [OF keys] Let_def)
  have labels: "?labels = filter ?P (sort (map fst (subjectsByLabel ?td)))"
    by (simp only: simTrackedD(1) [OF sim] keys_noProto filter_sort)
  have same: "\<forall>label\<in>set ?labels.
      map_of (subjectsByLabel tf) label = map_of (subjectsByLabel ?td) label \<and>
      map_of (subjectLinesByLabel tf) label = map_of (subjectLinesByLabel ?td) label"
  proof
    fix label
    assume "label \<in> set ?labels"
    then have "label \<notin> set protoNames" using keys by auto
    then show "map_of (subjectsByLabel tf) label = map_of (subjectsByLabel ?td) label \<and>
      map_of (subjectLinesByLabel tf) label = map_of (subjectLinesByLabel ?td) label"
      by (simp add: simTrackedD(1,2) [OF sim] map_of_noProto)
  qed
  have empty: "\<forall>label\<in>set (sort (map fst (subjectsByLabel ?td))).
      \<not> ?P label \<longrightarrow> the (map_of (subjectsByLabel ?td) label) = []"
  proof (intro ballI impI)
    fix label
    assume "label \<in> set (sort (map fst (subjectsByLabel ?td)))" and "\<not> ?P label"
    then have k: "label \<in> fst ` set (subjectsByLabel ?td)" and p: "label \<in> set protoNames"
      by simp_all
    from in_keys_map_of [OF k] obtain ns where ns: "map_of (subjectsByLabel ?td) label = Some ns"
      by blast
    from simTrackedD(3) [OF sim p ns] ns
    show "the (map_of (subjectsByLabel ?td) label) = []" by simp
  qed
  have "list_all2 sectionRel ?secsF
          (sectionsOf collate (orEmpty subjectsFile) ?td ?labels
             (existingFromNames0 subjectsFile exclusionsFile))"
    using same by (rule sections_rel)
  then have "list_all2 sectionRel ?secsF
          (mergedSections collate subjectsFile exclusionsFile ?td)"
    by (simp only: labels sectionsOf_skip [OF empty] mergedSections_def)
  with w show ?thesis by blast
qed

lemma mergedSections_lines:
  assumes cands: "list_all singleLineCandidate cands"
    and s: "s \<in> set (mergedSections collate subjectsFile exclusionsFile
                 (fold dictTrackCandidate cands (dictLoadSubjects True subjectsFile)))"
  shows "singleLine (fst s)" and "l \<in> set (snd s) \<Longrightarrow> CHR 0x0A \<notin> set l"
proof -
  let ?t = "fold dictTrackCandidate cands (dictLoadSubjects True subjectsFile)"
  have wf: "trackedWf ?t"
    using trackedWf_dictLoadSubjects cands by (rule trackedWf_fold)
  from s have s': "s \<in> set (sectionsOf collate (orEmpty subjectsFile) ?t
                      (sort (map fst (subjectsByLabel ?t)))
                      (existingFromNames0 subjectsFile exclusionsFile))"
    by (simp only: mergedSections_def)
  from sectionsOf_label [OF s'] have "fst s \<in> fst ` set (subjectsByLabel ?t)" by simp
  then show "singleLine (fst s)" by (rule trackedWf_labels [OF wf])
  show "CHR 0x0A \<notin> set l" if "l \<in> set (snd s)"
    using sectionsOf_line [OF wf s' that] by simp
qed

text \<open>
  C2, as stated: after the merge each sender occurs at most once across both ledgers,
  for every pair of existing ledger files. The merge keeps the lines that the files
  have: a sender that \<^verbatim>\<open>subjects.txt\<close> lists under two labels before the merge is
  listed twice after it.
\<close>

theorem merge_keeps_duplicates_counterexample:
  "contentFromNames (orEmpty (fileAfter (Some twiceListed)
       (mergeAndPersist id (Some twiceListed) None someCandidates))) @
     contentFromNames (orEmpty None) = [''X'', ''X'', ''News'', ''Shop'', ''Spam Inc'']"
  by code_simp

text \<open>
  C2, amended: for candidates whose label, from name, subject and id contain no line
  break, every entry line of \<^verbatim>\<open>subjects.txt\<close> after the merge is an entry line that the
  file had before, or its sender appeared in neither ledger before; and if each sender
  occurred at most once across both ledgers before the merge, each sender occurs at most
  once across both ledgers after it.
\<close>

theorem merge_adds_only_new_senders:
  assumes cands: "list_all singleLineCandidate candidates"
    and after: "after = fileAfter subjectsFile
                  (mergeAndPersist collate subjectsFile exclusionsFile candidates)"
  shows "(\<forall>l\<in>set (entryLines (orEmpty after)).
            l \<in> set (entryLines (orEmpty subjectsFile)) \<or>
            (firstField l \<notin> set (contentFromNames (orEmpty subjectsFile)) \<and>
             firstField l \<notin> set (contentFromNames (orEmpty exclusionsFile)))) \<and>
         (distinct (contentFromNames (orEmpty subjectsFile) @
                    contentFromNames (orEmpty exclusionsFile)) \<longrightarrow>
          distinct (contentFromNames (orEmpty after) @
                    contentFromNames (orEmpty exclusionsFile)))"
proof (cases "\<exists>c. mergeAndPersist collate subjectsFile exclusionsFile candidates = Inr (Some c)")
  case False
  then have "after = subjectsFile"
    using after by (auto simp: fileAfter_def split: sum.splits option.splits)
  then show ?thesis by simp
next
  case True
  then obtain c where c: "mergeAndPersist collate subjectsFile exclusionsFile candidates =
      Inr (Some c)" by blast
  let ?secsD = "mergedSections collate subjectsFile exclusionsFile
               (fold dictTrackCandidate candidates (dictLoadSubjects True subjectsFile))"
  define afterD where "afterD = dictFileAfter subjectsFile
      (dictMerge collate subjectsFile exclusionsFile candidates)"
  note dict = dictMerge_adds_only_new_senders [OF cands afterD_def]
  from merge_sim [OF c] obtain secsF where rel: "list_all2 sectionRel secsF ?secsD"
    and w: "Some c = (if secsF \<noteq> [] then Some (renderFile secsF) else None)" by blast
  from w have nF: "secsF \<noteq> []" and cF: "c = renderFile secsF" by (simp_all split: if_splits)
  from rel nF have nD: "?secsD \<noteq> []" by auto
  have a: "orEmpty after = renderFile secsF"
    using after c cF by (simp add: fileAfter_def)
  have aD: "orEmpty afterD = renderFile ?secsD"
    using nD by (simp add: afterD_def dictMerge_sections dictFileAfter_def Let_def)
  have "\<forall>s\<in>set ?secsD. singleLine (fst s) \<and> (\<forall>l\<in>set (snd s). CHR 0x0A \<notin> set l)"
    using mergedSections_lines [OF cands] by blast
  with nD have elD: "entryLines (renderFile ?secsD) = filter isEntry (concat (map snd ?secsD))"
    by (rule entryLines_renderFile)
  have "\<forall>s\<in>set secsF. singleLine (fst s) \<and> (\<forall>l\<in>set (snd s). CHR 0x0A \<notin> set l)"
  proof (intro ballI conjI)
    fix s
    assume "s \<in> set secsF"
    from list_all2_left [OF rel this] obtain d where d: "d \<in> set ?secsD" and r: "sectionRel s d"
      by blast
    from r mergedSections_lines(1) [OF cands d] show "singleLine (fst s)"
      by (simp add: sectionRel_def)
    fix l
    assume "l \<in> set (snd s)"
    with r have "l \<in> set (snd d) \<or> l \<in> protoText ` set protoNames"
      by (simp add: sectionRel_def)
    then show "CHR 0x0A \<notin> set l"
    proof
      assume "l \<in> set (snd d)"
      then show ?thesis by (rule mergedSections_lines(2) [OF cands d])
    next
      assume "l \<in> protoText ` set protoNames"
      then show ?thesis by (rule protoText_no_entry(2))
    qed
  qed
  with nF have elF: "entryLines (renderFile secsF) = filter isEntry (concat (map snd secsF))"
    by (rule entryLines_renderFile)
  have sub: "subseq (entryLines (orEmpty after)) (entryLines (orEmpty afterD))"
    using sectionRel_entries [OF rel] by (simp only: a aD elF elD)
  have part1: "\<forall>l\<in>set (entryLines (orEmpty after)).
            l \<in> set (entryLines (orEmpty subjectsFile)) \<or>
            (firstField l \<notin> set (contentFromNames (orEmpty subjectsFile)) \<and>
             firstField l \<notin> set (contentFromNames (orEmpty exclusionsFile)))"
    using dict subseq_set_mono [OF sub] by blast
  have part2: "distinct (contentFromNames (orEmpty after) @
                    contentFromNames (orEmpty exclusionsFile))"
    if d: "distinct (contentFromNames (orEmpty subjectsFile) @
                    contentFromNames (orEmpty exclusionsFile))"
  proof -
    from dict d have dd: "distinct (contentFromNames (orEmpty afterD) @
                    contentFromNames (orEmpty exclusionsFile))" by blast
    have "subseq (contentFromNames (orEmpty after)) (contentFromNames (orEmpty afterD))"
      using sub by (simp only: contentFromNames_entryLines subseq_map)
    then have "subseq (contentFromNames (orEmpty after) @
                    contentFromNames (orEmpty exclusionsFile))
                 (contentFromNames (orEmpty afterD) @
                    contentFromNames (orEmpty exclusionsFile))"
      by (intro list_emb_append_mono) simp_all
    then show ?thesis using dd by (rule subseq_distinct)
  qed
  from part1 part2 show ?thesis by blast
qed

theorem merge_adds_only_new_senders_witness:
  "list_all singleLineCandidate someCandidates \<and>
   mergeAndPersist id (Some keptLedger) (Some excludedLedger) someCandidates =
     Inr (Some ''======= Receipts =======\<newline>News | Bill | E8\<newline>Shop | Invoice #1 | E0\<newline>\<newline>======= Updates =======\<newline>\<newline>'') \<and>
   distinct (contentFromNames (orEmpty (Some keptLedger)) @
             contentFromNames (orEmpty (Some excludedLedger))) \<and>
   distinct (contentFromNames (orEmpty (fileAfter (Some keptLedger)
               (mergeAndPersist id (Some keptLedger) (Some excludedLedger) someCandidates))) @
             contentFromNames (orEmpty (Some excludedLedger)))"
proof -
  have h: "list_all singleLineCandidate someCandidates" by code_simp
  have m: "mergeAndPersist id (Some keptLedger) (Some excludedLedger) someCandidates =
     Inr (Some ''======= Receipts =======\<newline>News | Bill | E8\<newline>Shop | Invoice #1 | E0\<newline>\<newline>======= Updates =======\<newline>\<newline>'')"
    by code_simp
  have d: "distinct (contentFromNames (orEmpty (Some keptLedger)) @
             contentFromNames (orEmpty (Some excludedLedger)))"
    by code_simp
  from merge_adds_only_new_senders [OF h refl, of "Some keptLedger" id "Some excludedLedger"] d
  have "distinct (contentFromNames (orEmpty (fileAfter (Some keptLedger)
               (mergeAndPersist id (Some keptLedger) (Some excludedLedger) someCandidates))) @
             contentFromNames (orEmpty (Some excludedLedger)))"
    by blast
  with h m d show ?thesis by blast
qed

subsection \<open>Runs without a name of \<open>protoNames\<close>\<close>

lemma ensureLabel_exact:
  "label \<notin> set protoNames \<Longrightarrow> ensureLabel label t = dictEnsureLabel label t"
  by (simp add: ensureLabel_def dictEnsureLabel_def getProp_def setProp_plain
      split: option.splits)

lemma addName_exact:
  assumes "map_of (subjectsByLabel t) label = Some names"
  shows "addName label n t =
           Inr (t\<lparr> subjectsByLabel := AList.map_entry label (setAdd n) (subjectsByLabel t) \<rparr>)"
  using assms by (simp add: addName_def getProp_def)

lemma loadLines_exact:
  "\<forall>l\<in>set ls. isHeader l \<longrightarrow> labelOf l \<notin> set protoNames \<Longrightarrow>
   truthy cur \<longrightarrow> orEmpty cur \<in> fst ` set (subjectsByLabel t) \<Longrightarrow>
   loadLines ls cur t = Inr (dictLoadLines ls cur t)"
proof (induction ls arbitrary: cur t)
  case Nil
  show ?case by simp
next
  case (Cons line ls)
  from Cons.prems(1) have rest: "\<forall>l\<in>set ls. isHeader l \<longrightarrow> labelOf l \<notin> set protoNames"
    by simp
  show ?case
  proof (cases "isHeader line")
    case True
    with Cons.prems(1) have l: "labelOf line \<notin> set protoNames" by simp
    have "truthy (Some (labelOf line)) \<longrightarrow>
          orEmpty (Some (labelOf line)) \<in>
            fst ` set (subjectsByLabel (dictEnsureLabel (labelOf line) t))"
      by (simp add: dictEnsureLabel_keys)
    from Cons.IH [OF rest this] True show ?thesis by (simp add: ensureLabel_exact [OF l])
  next
    case False
    show ?thesis
    proof (cases "nonBlank line \<and> truthy cur \<and> includesStr line sep")
      case True
      with Cons.prems(2) have "orEmpty cur \<in> fst ` set (subjectsByLabel t)" by simp
      from in_keys_map_of [OF this] obtain names where
        "map_of (subjectsByLabel t) (orEmpty cur) = Some names" by blast
      note a = addName_exact [OF this, of "firstField line"]
      have "truthy cur \<longrightarrow> orEmpty cur \<in> fst ` set (subjectsByLabel
              (t\<lparr> subjectsByLabel := AList.map_entry (orEmpty cur) (setAdd (firstField line))
                      (subjectsByLabel t) \<rparr>))"
        using Cons.prems(2) by (simp add: dom_map_entry)
      from Cons.IH [OF rest this] False True a show ?thesis by simp
    next
      case no: False
      with False Cons.IH [OF rest Cons.prems(2)] show ?thesis by auto
    qed
  qed
qed

lemma protoFreeFile_lines:
  assumes "protoFreeFile file" and "l \<in> set (splitLines (orEmpty file))"
  shows "isHeader l \<Longrightarrow> labelOf l \<notin> set protoNames"
    and "isEntry l \<Longrightarrow> firstField l \<notin> set protoNames"
  using assms by (simp_all add: protoFreeFile_def list_all_iff)

lemma loadSubjects_exact:
  assumes "protoFreeFile file"
  shows "loadSubjects True file = Inr (dictLoadSubjects True file)"
proof (cases "file")
  case None
  then show ?thesis by (simp add: loadSubjects_def dictLoadSubjects_def)
next
  case (Some content)
  have "\<forall>l\<in>set (splitLines content). isHeader l \<longrightarrow> labelOf l \<notin> set protoNames"
    using protoFreeFile_lines(1) [OF assms] Some by simp
  moreover have "truthy None \<longrightarrow> orEmpty None \<in> fst ` set (subjectsByLabel noTracked)" by simp
  ultimately have "loadLines (splitLines content) None noTracked =
      Inr (dictLoadLines (splitLines content) None noTracked)"
    by (rule loadLines_exact)
  with Some show ?thesis by (simp add: loadSubjects_def dictLoadSubjects_def)
qed

lemma trackCandidate_exact:
  assumes pl: "trackedPlain t" and c: "safeCandidate c"
  shows "trackCandidate c t = Inr (dictTrackCandidate c t)"
proof -
  let ?t1 = "dictEnsureLabel (c_label c) t"
  from c have l: "c_label c \<notin> set protoNames" and pc: "plainCandidate c"
    by (simp_all add: safeCandidate_def)
  from pc have "c_label c = [] \<or> plainLabel (c_label c)" by (simp add: plainCandidate_def)
  with pl have pl1: "trackedPlain ?t1" by (rule trackedPlain_dictEnsureLabel)
  obtain names where n: "map_of (subjectsByLabel ?t1) (c_label c) = Some names"
    using dictEnsureLabel_Some by blast
  from trackedPlain_has_lines [OF pl1 n] obtain ls where
    ls: "map_of (subjectLinesByLabel ?t1) (c_label c) = Some ls" by blast
  show ?thesis
    using n ls
    by (simp add: trackCandidate_def trackSubject_def dictTrackCandidate_def
        dictTrackSubject_def Let_def ensureLabel_exact [OF l] getProp_def)
qed

lemma trackAll_exact:
  "trackedPlain t \<Longrightarrow> list_all safeCandidate cs \<Longrightarrow>
   trackAll cs t = Inr (fold dictTrackCandidate cs t)"
proof (induction cs arbitrary: t)
  case Nil
  show ?case by simp
next
  case (Cons c cs)
  from Cons.prems(2) have c: "safeCandidate c" and rest: "list_all safeCandidate cs" by simp_all
  from c have "plainCandidate c" by (simp add: safeCandidate_def)
  with Cons.prems(1) have "trackedPlain (dictTrackCandidate c t)"
    by (rule trackedPlain_dictTrackCandidate)
  from Cons.IH [OF this rest] trackCandidate_exact [OF Cons.prems(1) c] show ?case by simp
qed

lemma safe_is_plain: "list_all safeCandidate cs \<Longrightarrow> list_all plainCandidate cs"
  by (induction cs) (simp_all add: safeCandidate_def)

text \<open>The names that such a run records.\<close>

lemma list_all_update:
  "list_all P al \<Longrightarrow> P (k, v) \<Longrightarrow> list_all P (AList.update k v al)"
  by (induction al) auto

lemma list_all_map_entry:
  "list_all P al \<Longrightarrow> (\<And>v. P (k, v) \<Longrightarrow> P (k, f v)) \<Longrightarrow> list_all P (AList.map_entry k f al)"
  by (induction al) auto

lemma safeTracked_noTracked: "safeTracked noTracked"
  by (simp add: safeTracked_def noTracked_def)

lemma safeTracked_dictEnsureLabel:
  "safeTracked t \<Longrightarrow> label \<notin> set protoNames \<Longrightarrow> safeTracked (dictEnsureLabel label t)"
  by (simp add: safeTracked_def dictEnsureLabel_def list_all_update)

lemma safeTracked_add_name:
  assumes "safeTracked t" and "n \<notin> set protoNames" and "set (f ns0) \<subseteq> insert n (set ns0)"
    and f: "\<And>ns. set (f ns) \<subseteq> insert n (set ns)"
  shows "safeTracked (t\<lparr> subjectsByLabel := AList.map_entry label f (subjectsByLabel t) \<rparr>)"
proof -
  have "list_all (\<lambda>p. fst p \<notin> set protoNames \<and> list_all (\<lambda>n. n \<notin> set protoNames) (snd p))
          (AList.map_entry label f (subjectsByLabel t))"
  proof (rule list_all_map_entry)
    show "list_all (\<lambda>p. fst p \<notin> set protoNames \<and> list_all (\<lambda>n. n \<notin> set protoNames) (snd p))
            (subjectsByLabel t)"
      using assms(1) by (simp add: safeTracked_def)
  next
    fix v
    assume "fst (label, v) \<notin> set protoNames \<and>
            list_all (\<lambda>n. n \<notin> set protoNames) (snd (label, v))"
    with f [of v] assms(2)
    show "fst (label, f v) \<notin> set protoNames \<and>
          list_all (\<lambda>n. n \<notin> set protoNames) (snd (label, f v))"
      by (auto simp: list_all_iff)
  qed
  then show ?thesis by (simp add: safeTracked_def)
qed

lemma safeTracked_dictLoadLines:
  "safeTracked t \<Longrightarrow>
   \<forall>l\<in>set ls. (isHeader l \<longrightarrow> labelOf l \<notin> set protoNames) \<and>
              (isEntry l \<longrightarrow> firstField l \<notin> set protoNames) \<Longrightarrow>
   safeTracked (dictLoadLines ls cur t)"
proof (induction ls arbitrary: cur t)
  case Nil
  then show ?case by simp
next
  case (Cons line ls)
  from Cons.prems(2) have rest: "\<forall>l\<in>set ls. (isHeader l \<longrightarrow> labelOf l \<notin> set protoNames) \<and>
              (isEntry l \<longrightarrow> firstField l \<notin> set protoNames)" by simp
  show ?case
  proof (cases "isHeader line")
    case True
    with Cons.prems(2) have "labelOf line \<notin> set protoNames" by simp
    with Cons.prems(1) have "safeTracked (dictEnsureLabel (labelOf line) t)"
      by (rule safeTracked_dictEnsureLabel)
    from Cons.IH [OF this rest] True show ?thesis by simp
  next
    case False
    show ?thesis
    proof (cases "nonBlank line \<and> truthy cur \<and> includesStr line sep")
      case True
      with False have "isEntry line" by (simp add: isEntry_def)
      with Cons.prems(2) have n: "firstField line \<notin> set protoNames" by simp
      have "safeTracked (t\<lparr> subjectsByLabel :=
              AList.map_entry (orEmpty cur) (setAdd (firstField line)) (subjectsByLabel t) \<rparr>)"
        using Cons.prems(1) n by (rule safeTracked_add_name) (auto simp: setAdd_def)
      from Cons.IH [OF this rest] False True show ?thesis by simp
    next
      case no: False
      with False Cons.IH [OF Cons.prems(1) rest] show ?thesis by auto
    qed
  qed
qed

lemma safeTracked_dictLoadSubjects:
  assumes "protoFreeFile file"
  shows "safeTracked (dictLoadSubjects True file)"
proof (cases "file")
  case None
  then show ?thesis by (simp add: dictLoadSubjects_def safeTracked_noTracked)
next
  case (Some content)
  have "\<forall>l\<in>set (splitLines content). (isHeader l \<longrightarrow> labelOf l \<notin> set protoNames) \<and>
              (isEntry l \<longrightarrow> firstField l \<notin> set protoNames)"
    using assms Some by (simp add: protoFreeFile_def list_all_iff)
  with safeTracked_noTracked have "safeTracked (dictLoadLines (splitLines content) None noTracked)"
    by (rule safeTracked_dictLoadLines)
  with Some show ?thesis by (simp add: dictLoadSubjects_def)
qed

lemma safeTracked_dictTrackCandidate:
  assumes st: "safeTracked t" and c: "safeCandidate c"
  shows "safeTracked (dictTrackCandidate c t)"
proof -
  let ?t1 = "dictEnsureLabel (c_label c) t"
  from c have l: "c_label c \<notin> set protoNames" and n: "c_fromName c \<notin> set protoNames"
    by (simp_all add: safeCandidate_def)
  have 1: "safeTracked ?t1" using st l by (rule safeTracked_dictEnsureLabel)
  from dictTrackCandidate_cases [of c t] show ?thesis
  proof
    assume "dictTrackCandidate c t = ?t1"
    with 1 show ?thesis by simp
  next
    assume a: "c_fromName c \<notin> set (the (map_of (subjectsByLabel ?t1) (c_label c))) \<and>
      dictTrackCandidate c t = ?t1
        \<lparr> subjectsByLabel :=
            AList.map_entry (c_label c) (\<lambda>names. names @ [c_fromName c]) (subjectsByLabel ?t1),
          subjectLinesByLabel :=
            AList.map_entry (c_label c) (\<lambda>ls. ls @ [lineOf c]) (subjectLinesByLabel ?t1) \<rparr>"
    have "safeTracked (?t1\<lparr> subjectsByLabel :=
            AList.map_entry (c_label c) (\<lambda>names. names @ [c_fromName c])
              (subjectsByLabel ?t1) \<rparr>)"
      using 1 n by (rule safeTracked_add_name) auto
    with a show ?thesis by (simp add: safeTracked_def)
  qed
qed

lemma safeTracked_fold:
  "safeTracked t \<Longrightarrow> list_all safeCandidate cs \<Longrightarrow>
   safeTracked (fold dictTrackCandidate cs t)"
proof (induction cs arbitrary: t)
  case Nil
  then show ?case by simp
next
  case (Cons c cs)
  from Cons.prems have "safeTracked (dictTrackCandidate c t)"
    by (intro safeTracked_dictTrackCandidate) simp_all
  from Cons.IH [OF this] Cons.prems(2) show ?case by simp
qed

lemma safeTracked_keys:
  "safeTracked t \<Longrightarrow> fst ` set (subjectsByLabel t) \<inter> set protoNames = {}"
  by (auto simp: safeTracked_def list_all_iff)

lemma safeTracked_names:
  assumes "safeTracked t" and "map_of (subjectsByLabel t) label = Some ns"
  shows "set ns \<inter> set protoNames = {}"
proof -
  from assms(2) have "(label, ns) \<in> set (subjectsByLabel t)" by (rule map_of_SomeD)
  with assms(1) show ?thesis by (auto simp: safeTracked_def list_all_iff)
qed

lemma saveSubjects_exact:
  assumes st: "safeTracked t"
  shows "saveSubjects collate True subjectsFile exclusionsFile t =
           Inr (dictSaveSubjects collate True subjectsFile exclusionsFile t)"
proof -
  have "\<forall>label\<in>set (sort (map fst (subjectsByLabel t))).
          set (the (map_of (subjectsByLabel t) label)) \<inter> set protoNames = {}"
  proof
    fix label
    assume "label \<in> set (sort (map fst (subjectsByLabel t)))"
    then have "label \<in> fst ` set (subjectsByLabel t)" by simp
    from in_keys_map_of [OF this] obtain ns where ns: "map_of (subjectsByLabel t) label = Some ns"
      by blast
    from safeTracked_names [OF st ns] ns
    show "set (the (map_of (subjectsByLabel t) label)) \<inter> set protoNames = {}" by simp
  qed
  note e = sections_exact [OF this]
  show ?thesis
    by (simp add: saveSubjects_sectionsF [OF safeTracked_keys [OF st]] e
        dictSaveSubjects_sections mergedSections_def Let_def)
qed

text \<open>
  On a file and on candidates without such a name the merge does not throw and writes
  what the merge on dictionaries writes.
\<close>

lemma merge_exact:
  assumes pf: "protoFreeFile subjectsFile" and cs: "list_all safeCandidate cands"
  shows "mergeAndPersist collate subjectsFile exclusionsFile cands =
           Inr (dictMerge collate subjectsFile exclusionsFile cands)"
proof -
  let ?loaded = "dictLoadSubjects True subjectsFile"
  let ?tracked = "fold dictTrackCandidate cands ?loaded"
  have 1: "loadSubjects True subjectsFile = Inr ?loaded" using pf by (rule loadSubjects_exact)
  have 2: "trackAll cands ?loaded = Inr ?tracked"
    using trackedPlain_dictLoadSubjects cs by (rule trackAll_exact)
  have "safeTracked ?tracked"
    using safeTracked_dictLoadSubjects [OF pf] cs by (rule safeTracked_fold)
  then have 3: "saveSubjects collate True subjectsFile exclusionsFile ?tracked =
      Inr (dictSaveSubjects collate True subjectsFile exclusionsFile ?tracked)"
    by (rule saveSubjects_exact)
  show ?thesis by (simp add: mergeAndPersist_def dictMerge_def 1 2 3)
qed

subsection \<open>The file that such a run writes\<close>

lemma fileAfter_Inr: "fileAfter previous (Inr w) = dictFileAfter previous w"
  by (simp add: fileAfter_def dictFileAfter_def split: option.splits)

lemma in_fileLines:
  assumes "x \<in> set (fileLines secs)"
  shows "\<exists>s\<in>set secs. x = headerLine (fst s) \<or> x = [] \<or> x \<in> set (snd s)"
  using assms by (auto simp: fileLines_def sectionLines_def split: if_splits)

lemma rewritten_protoFree:
  assumes pf: "protoFreeFile subjectsFile" and cs: "list_all safeCandidate cands"
    and w: "dictMerge collate subjectsFile exclusionsFile cands = Some c"
  shows "protoFreeFile (Some c)"
proof -
  let ?tr = "fold dictTrackCandidate cands (dictLoadSubjects True subjectsFile)"
  let ?labels = "sort (map fst (subjectsByLabel ?tr))"
  let ?secs = "sectionsOf collate (orEmpty subjectsFile) ?tr ?labels
                 (existingFromNames0 subjectsFile exclusionsFile)"
  have pc: "list_all plainCandidate cands" using cs by (rule safe_is_plain)
  have wf: "trackedWf ?tr"
    using trackedWf_dictLoadSubjects plain_is_singleLine [OF pc] by (rule trackedWf_fold)
  have pl: "trackedPlain ?tr" using trackedPlain_dictLoadSubjects pc by (rule trackedPlain_fold)
  have st: "safeTracked ?tr"
    using safeTracked_dictLoadSubjects [OF pf] cs by (rule safeTracked_fold)
  have lab: "set ?labels \<subseteq> fst ` set (subjectsByLabel ?tr)" by simp
  from w have ne: "?secs \<noteq> []" and c: "c = renderFile ?secs"
    by (simp_all add: dictMerge_sections mergedSections_def Let_def split: if_splits)
  have label: "plainLabel (fst s) \<and> fst s \<notin> set protoNames" if s: "s \<in> set ?secs" for s
  proof -
    from sectionsOf_label [OF s] have "fst s \<in> fst ` set (subjectsByLabel ?tr)" by simp
    with safeTracked_keys [OF st] have "fst s \<notin> set protoNames" by blast
    with sectionsOf_shape(1) [OF wf pl lab s] show ?thesis by simp
  qed
  have line: "isEntry l \<and> CHR 0x0A \<notin> set l \<and> firstField l \<notin> set protoNames"
    if s: "s \<in> set ?secs" and l: "l \<in> set (snd s)" for s l
  proof -
    from sectionsOf_origin [OF wf pl s] obtain ex1 where
      e: "snd s = labelSubjects collate (orEmpty subjectsFile) ?tr (fst s) ex1" by blast
    from sectionsOf_label [OF s] have "fst s \<in> fst ` set (subjectsByLabel ?tr)" by simp
    from in_keys_map_of [OF this] obtain ns where
      ns: "map_of (subjectsByLabel ?tr) (fst s) = Some ns" by blast
    from l have "firstField l \<in> set (map firstField (snd s))" by simp
    with labelSubjects_names [OF wf ns, of collate "orEmpty subjectsFile" ex1]
    have "firstField l \<in> set ns" by (simp only: e) blast
    with safeTracked_names [OF st ns] have "firstField l \<notin> set protoNames" by blast
    with sectionsOf_shape(2) [OF wf pl lab s l] show ?thesis by simp
  qed
  have "\<forall>s\<in>set ?secs. CHR 0x0A \<notin> set (fst s) \<and> (\<forall>l\<in>set (snd s). CHR 0x0A \<notin> set l)"
    using label line by (auto simp: plainLabel_def singleLine_def)
  with ne have sp: "splitLines (renderFile ?secs) = fileLines ?secs"
    by (rule splitLines_renderFile)
  have "(isHeader x \<longrightarrow> labelOf x \<notin> set protoNames) \<and>
        (isEntry x \<longrightarrow> firstField x \<notin> set protoNames)"
    if "x \<in> set (fileLines ?secs)" for x
  proof -
    from in_fileLines [OF that] obtain s where s: "s \<in> set ?secs"
      and x: "x = headerLine (fst s) \<or> x = [] \<or> x \<in> set (snd s)" by blast
    from x show ?thesis
    proof (elim disjE)
      assume h: "x = headerLine (fst s)"
      from label [OF s] have p: "plainLabel (fst s)" and n: "fst s \<notin> set protoNames"
        by simp_all
      from p have "isHeader x" unfolding h by (intro isHeader_headerLine) (simp add: plainLabel_def)
      then have "\<not> isEntry x" by (rule not_isEntry_header)
      moreover from p n have "labelOf x \<notin> set protoNames" by (simp add: h labelOf_headerLine)
      ultimately show ?thesis by simp
    next
      assume "x = []"
      then show ?thesis by simp
    next
      assume "x \<in> set (snd s)"
      from line [OF s this] show ?thesis by (simp add: isEntry_def)
    qed
  qed
  then show ?thesis by (simp add: protoFreeFile_def c sp list_all_iff)
qed

text \<open>
  Two runs that the precondition on the names excludes. A sender named
  \<^verbatim>\<open>constructor\<close> is written by the first run and replaced by the text of the inherited
  function in the second; a label named \<^verbatim>\<open>constructor\<close> makes the run throw.
\<close>

lemma inherited_sender_is_rewritten:
  "mergeAndPersist id None None
     [\<lparr> c_label = ''Receipts'', c_fromName = ''constructor'', c_subject = ''s'', c_id = ''1'' \<rparr>] =
     Inr (Some ''======= Receipts =======\<newline>constructor | s | 1\<newline>'') \<and>
   mergeAndPersist id (Some ''======= Receipts =======\<newline>constructor | s | 1\<newline>'') None
     [\<lparr> c_label = ''Receipts'', c_fromName = ''constructor'', c_subject = ''s'', c_id = ''1'' \<rparr>] =
     Inr (Some ''======= Receipts =======\<newline>function Object() { [native code] }\<newline>'')"
  by code_simp

lemma inherited_label_throws:
  "mergeAndPersist id None None
     [\<lparr> c_label = ''constructor'', c_fromName = ''Shop'', c_subject = ''s'', c_id = ''1'' \<rparr>] =
     Inl TypeError"
  by code_simp

lemma labelOf_strips_no_break_space:
  "labelOf (''======= A'' @ [CHR 0xA0] @ '' ======='') = ''A''"
  by code_simp




section \<open>Properties of the ledger\<close>

text \<open>
  C4: a label section that exists before the merge keeps its header line afterwards,
  even with no entry. The code only pushes a section \<^verbatim>\<open>if (fromNames.length > 0)\<close>:
  the empty section A of this file is gone after a run that records nothing.
\<close>

theorem empty_section_is_dropped:
  "mergeAndPersist id
     (Some ''======= A =======\<newline>\<newline>======= B =======\<newline>X | s | 1\<newline>'') None [] =
     Inr (Some ''======= B =======\<newline>X | s | 1\<newline>'')"
  by code_simp

end
